(* ===== verification/Peep_Prelude.thy ===== *)
theory Peep_Prelude
  imports Complex_Main "HOL-Library.Word" "HOL-Library.Multiset"
begin

text \<open>
  Shared vocabulary of the development.

  \<^item> \<open>fault\<close>: what the C code does when it leaves defined behaviour (a read through \<open>NULL\<close>
    or through freed memory, a free of memory that is not allocated, an access outside an
    array, a read of memory that was never written, a lock taken twice by one thread, a loop that never ends, a conversion from
    \<open>double\<close> that does not fit).  An operation that can do so returns \<open>fault + 'a\<close>.
    \<open>ProcessExit\<close> is no fault of the code: the program calls \<open>exit\<close>.
  \<^item> \<open>bindE\<close>: sequencing of such operations; the first fault ends the run.
  \<^item> \<open>aget\<close>, \<open>aset\<close>: array reads and writes at a C \<open>int\<close> index.
  \<^item> \<open>loopE\<close>: the value of a loop defined by \<^theory_text>\<open>partial_function (option)\<close>, where
    \<open>None\<close> (no result) becomes the fault \<open>Diverges\<close>.
  \<^item> C integer division and remainder, which truncate towards zero, and the conversion of a
    \<open>double\<close> to an integer.
  The collection \<open>cdefs\<close> holds the definitions that every evaluation of the model unfolds;
  \<open>faultfree\<close> holds the lemmas saying that an operation returns.
\<close>

named_theorems cdefs
named_theorems faultfree

section \<open>Faults and their sequencing\<close>

datatype fault =
    NullDeref
  | OutOfBounds
  | UseAfterFree
  | BadFree
  | UninitRead
  | Deadlock
  | Diverges
  | BadConversion
  | FloatDivByZero
  | ProcessExit

type_synonym 'a result = "fault + 'a"

definition bindE :: "'e + 'a \<Rightarrow> ('a \<Rightarrow> 'e + 'b) \<Rightarrow> 'e + 'b" where
  "bindE m f = (case m of Inl e \<Rightarrow> Inl e | Inr x \<Rightarrow> f x)"

lemma bindE_Inl [simp]: "bindE (Inl e) f = Inl e"
  by (simp add: bindE_def)

lemma bindE_Inr [simp]: "bindE (Inr x) f = f x"
  by (simp add: bindE_def)

lemma bindE_eq_Inr_iff: "bindE m f = Inr y \<longleftrightarrow> (\<exists>x. m = Inr x \<and> f x = Inr y)"
  by (cases m) auto

lemma bindE_eq_Inl_iff:
  "bindE m f = Inl e \<longleftrightarrow> m = Inl e \<or> (\<exists>x. m = Inr x \<and> f x = Inl e)"
  by (cases m) auto

lemma bindE_InrE [elim]:
  assumes "bindE m f = Inr y"
  obtains x where "m = Inr x" and "f x = Inr y"
  using assms by (auto simp: bindE_eq_Inr_iff)

lemma bindE_assoc: "bindE (bindE m f) g = bindE m (\<lambda>x. bindE (f x) g)"
  by (cases m) auto

lemma bindE_cong [fundef_cong]:
  "m = m' \<Longrightarrow> (\<And>x. m' = Inr x \<Longrightarrow> f x = g x) \<Longrightarrow> bindE m f = bindE m' g"
  by (cases m') auto

text \<open>Sequencing inside a loop that may not end; the body of such a loop is monotone in it.\<close>

definition bindO :: "'a result option \<Rightarrow> ('a \<Rightarrow> 'b result option) \<Rightarrow> 'b result option" where
  "bindO m f = (case m of None \<Rightarrow> None | Some (Inl e) \<Rightarrow> Some (Inl e) | Some (Inr x) \<Rightarrow> f x)"

lemma bindO_simps [simp]:
  "bindO None f = None" "bindO (Some (Inl e)) f = Some (Inl e)" "bindO (Some (Inr x)) f = f x"
  by (simp_all add: bindO_def)

lemma bindO_eq_Some_Inr_iff:
  "bindO m f = Some (Inr y) \<longleftrightarrow> (\<exists>x. m = Some (Inr x) \<and> f x = Some (Inr y))"
  by (auto simp: bindO_def split: option.split sum.split)

lemma bindO_mono [partial_function_mono]:
  fixes B :: "('x \<Rightarrow> 'y option) \<Rightarrow> 'c result option"
  assumes "mono_option B" and "\<And>y. mono_option (\<lambda>f. C y f)"
  shows "mono_option (\<lambda>f. bindO (B f) (\<lambda>y. C y f))"
proof (rule monotoneI)
  fix f g :: "'x \<Rightarrow> 'y option"
  assume fg: "fun_ord option_ord f g"
  have b: "option_ord (B f) (B g)" using assms(1) fg by (rule monotoneD [of _ _ _ f g])
  have c: "\<And>y. option_ord (C y f) (C y g)" using assms(2) fg by (rule monotoneD [of _ _ _ f g])
  show "option_ord (bindO (B f) (\<lambda>y. C y f)) (bindO (B g) (\<lambda>y. C y g))"
  proof (cases "B f")
    case (Some r)
    then have "B g = Some r" using b by (simp add: flat_ord_def)
    with Some c show ?thesis by (cases r) (auto simp: bindO_def flat_ord_def)
  qed (simp add: bindO_def flat_ord_def)
qed

primrec loopE :: "'a result option \<Rightarrow> 'a result" where
  "loopE None = Inl Diverges"
| "loopE (Some r) = r"

text \<open>A result is defined when it is no fault.\<close>

definition returns :: "'a result \<Rightarrow> bool" where
  "returns r \<longleftrightarrow> (\<exists>x. r = Inr x)"

lemma returns_simps [simp]: "returns (Inr x)" "\<not> returns (Inl e)"
  by (auto simp: returns_def)

lemma returns_bindE: "returns (bindE m f) \<longleftrightarrow> (\<exists>x. m = Inr x \<and> returns (f x))"
  by (cases m) auto

section \<open>Arrays\<close>

definition aget :: "'a list \<Rightarrow> int \<Rightarrow> 'a result" where
  "aget xs i = (if 0 \<le> i \<and> nat i < length xs then Inr (xs ! nat i) else Inl OutOfBounds)"

definition aset :: "'a list \<Rightarrow> int \<Rightarrow> 'a \<Rightarrow> 'a list result" where
  "aset xs i v = (if 0 \<le> i \<and> nat i < length xs then Inr (xs[nat i := v]) else Inl OutOfBounds)"

lemma aget_int [simp]: "aget xs (int i) = (if i < length xs then Inr (xs ! i) else Inl OutOfBounds)"
  by (simp add: aget_def)

lemma aset_int [simp]:
  "aset xs (int i) v = (if i < length xs then Inr (xs[i := v]) else Inl OutOfBounds)"
  by (simp add: aset_def)

lemma aget_eq_Inr_iff: "aget xs i = Inr x \<longleftrightarrow> 0 \<le> i \<and> nat i < length xs \<and> x = xs ! nat i"
  by (auto simp: aget_def)

lemma aset_eq_Inr_iff: "aset xs i v = Inr ys \<longleftrightarrow> 0 \<le> i \<and> nat i < length xs \<and> ys = xs[nat i := v]"
  by (auto simp: aset_def)

lemma aset_length: "aset xs i v = Inr ys \<Longrightarrow> length ys = length xs"
  by (auto simp: aset_eq_Inr_iff)

lemmas array_simps = aget_def aset_def

section \<open>Heap cells\<close>

text \<open>
  Where the code links structures by pointers, the structures live in a partial map from
  addresses to cells.  A pointer is an optional address, \<open>NULL\<close> being \<open>None\<close>; an address
  outside the map has been freed.
\<close>

type_synonym 'c heap = "nat \<rightharpoonup> 'c"

fun deref :: "'c heap \<Rightarrow> nat option \<Rightarrow> 'c result" where
  "deref m None = Inl NullDeref"
| "deref m (Some a) = (case m a of None \<Rightarrow> Inl UseAfterFree | Some c \<Rightarrow> Inr c)"

fun free_cell :: "'c heap \<Rightarrow> nat option \<Rightarrow> 'c heap result" where
  "free_cell m None = Inr m"
| "free_cell m (Some a) = (case m a of None \<Rightarrow> Inl UseAfterFree | Some c \<Rightarrow> Inr (m(a := None)))"

lemma deref_Some [simp]: "m a = Some c \<Longrightarrow> deref m (Some a) = Inr c"
  by simp

lemma deref_eq_Inr_iff: "deref m p = Inr c \<longleftrightarrow> (\<exists>a. p = Some a \<and> m a = Some c)"
  by (cases p) (auto split: option.split)

lemma free_cell_Some [simp]: "m a = Some c \<Longrightarrow> free_cell m (Some a) = Inr (m(a := None))"
  by simp

text \<open>
  A pointer that owns one block, such as a global array: \<open>NULL\<close>, freed but not reset, or
  pointing to its contents.
\<close>

datatype 'a ptr = Null | Freed | Ptr 'a

fun pget :: "'a ptr \<Rightarrow> 'a result" where
  "pget Null = Inl NullDeref"
| "pget Freed = Inl UseAfterFree"
| "pget (Ptr x) = Inr x"

fun pfree :: "'a ptr \<Rightarrow> 'a ptr result" where
  "pfree Null = Inr Null"
| "pfree Freed = Inl UseAfterFree"
| "pfree (Ptr x) = Inr Freed"

lemma pget_eq_Inr_iff [simp]: "pget p = Inr x \<longleftrightarrow> p = Ptr x"
  by (cases p) auto

text \<open>Elements of an array reached through such a pointer.\<close>

definition pa_get :: "'a list ptr \<Rightarrow> int \<Rightarrow> 'a result" where
  "pa_get p i = bindE (pget p) (\<lambda>xs. aget xs i)"

definition pa_set :: "'a list ptr \<Rightarrow> int \<Rightarrow> 'a \<Rightarrow> 'a list ptr result" where
  "pa_set p i v = bindE (pget p) (\<lambda>xs. bindE (aset xs i v) (\<lambda>ys. Inr (Ptr ys)))"

lemma pa_get_int [simp]:
  "i < length xs \<Longrightarrow> pa_get (Ptr xs) (int i) = Inr (xs ! i)"
  by (simp add: pa_get_def)

lemma pa_set_int [simp]:
  "i < length xs \<Longrightarrow> pa_set (Ptr xs) (int i) v = Inr (Ptr (xs[i := v]))"
  by (simp add: pa_set_def)

section \<open>Counted loops\<close>

text \<open>\<open>for\<close> loops over a range known on entry, with a body that may fault.\<close>

fun foldE :: "('a \<Rightarrow> 's \<Rightarrow> 's result) \<Rightarrow> 'a list \<Rightarrow> 's \<Rightarrow> 's result" where
  "foldE f [] s = Inr s"
| "foldE f (x # xs) s = bindE (f x s) (foldE f xs)"

lemma foldE_append: "foldE f (xs @ ys) s = bindE (foldE f xs s) (foldE f ys)"
  by (induction xs arbitrary: s) (auto simp: bindE_assoc intro!: bindE_cong)

lemma foldE_pure:
  "(\<And>x s. x \<in> set xs \<Longrightarrow> f x s = Inr (g x s)) \<Longrightarrow> foldE f xs s = Inr (fold g xs s)"
  by (induction xs arbitrary: s) auto

lemma foldE_map: "foldE f (map g xs) s = foldE (\<lambda>x. f (g x)) xs s"
  by (induction xs arbitrary: s) (auto intro!: bindE_cong)

text \<open>Invariants of such a loop, with and without the position.\<close>

lemma foldE_invariant:
  assumes "P s" and "\<And>x s. x \<in> set xs \<Longrightarrow> P s \<Longrightarrow> \<exists>s'. f x s = Inr s' \<and> P s'"
  shows "\<exists>s'. foldE f xs s = Inr s' \<and> P s'"
  using assms
proof (induction xs arbitrary: s)
  case (Cons x xs)
  then obtain s1 where "f x s = Inr s1" "P s1" by (meson list.set_intros(1))
  with Cons show ?case by (metis bindE_Inr foldE.simps(2) list.set_intros(2))
qed simp

lemma foldE_range_invariant:
  assumes "P 0 s" and "\<And>j s. j < n \<Longrightarrow> P j s \<Longrightarrow> \<exists>s'. f j s = Inr s' \<and> P (Suc j) s'"
  shows "\<exists>s'. foldE f [0..<n] s = Inr s' \<and> P n s'"
  using assms(2)
proof (induction n)
  case 0
  then show ?case using assms(1) by simp
next
  case (Suc n)
  then obtain s1 where s1: "foldE f [0..<n] s = Inr s1" "P n s1" by (meson less_Suc_eq)
  moreover obtain s2 where "f n s1 = Inr s2" "P (Suc n) s2" using Suc.prems [OF _ s1(2)] by blast
  ultimately show ?case by (simp add: foldE_append)
qed

lemma aget_uint:
  "aget xs (uint p) = (if unat p < length xs then Inr (xs ! unat p) else Inl OutOfBounds)"
  using aget_int [of xs "unat p"] by simp

section \<open>C arithmetic\<close>

definition c_div :: "int \<Rightarrow> int \<Rightarrow> int" where
  "c_div a b = sgn a * sgn b * (\<bar>a\<bar> div \<bar>b\<bar>)"

definition c_rem :: "int \<Rightarrow> int \<Rightarrow> int" where
  "c_rem a b = a - b * c_div a b"

lemma c_div_nonneg [simp]: "0 \<le> a \<Longrightarrow> 0 < b \<Longrightarrow> c_div a b = a div b"
  by (cases "a = 0") (auto simp: c_div_def sgn_if)

lemma c_rem_nonneg [simp]: "0 \<le> a \<Longrightarrow> 0 < b \<Longrightarrow> c_rem a b = a mod b"
  by (simp add: c_rem_def minus_mult_div_eq_mod)

lemma c_rem_neg: "a < 0 \<Longrightarrow> 0 < b \<Longrightarrow> c_rem a b = - ((- a) mod b)"
proof -
  assume "a < 0" "0 < b"
  then have "c_div a b = - ((- a) div b)" by (simp add: c_div_def)
  then have "c_rem a b = - ((- a) - b * ((- a) div b))" by (simp add: c_rem_def)
  then show ?thesis by (simp add: minus_mult_div_eq_mod)
qed

text \<open>\<open>(int) x\<close> for a \<open>double\<close>: truncation towards zero.  Doubles are modelled by real numbers.\<close>

definition trunc :: "real \<Rightarrow> int" where
  "trunc x = (if 0 \<le> x then \<lfloor>x\<rfloor> else \<lceil>x\<rceil>)"

lemma trunc_nonneg [simp]: "0 \<le> x \<Longrightarrow> 0 \<le> trunc x"
  by (simp add: trunc_def)

lemma trunc_le: "0 \<le> x \<Longrightarrow> of_int (trunc x) \<le> x"
  by (simp add: trunc_def)

lemma abs_trunc_le: "\<bar>real_of_int (trunc x)\<bar> \<le> \<bar>x\<bar>"
proof (cases "0 \<le> x")
  case True
  then show ?thesis by (simp add: trunc_def)
next
  case False
  then have "x \<le> of_int \<lceil>x\<rceil>" and "\<lceil>x\<rceil> \<le> 0" by (simp_all add: le_of_int_ceiling)
  with False show ?thesis by (simp add: trunc_def)
qed

lemma abs_trunc_le_int: "\<bar>x\<bar> \<le> of_int n \<Longrightarrow> \<bar>trunc x\<bar> \<le> n"
  using abs_trunc_le [of x] by linarith

text \<open>The conversion of a \<open>double\<close> to \<open>short\<close> is defined only where the truncated value fits.\<close>

definition to_short :: "real \<Rightarrow> int result" where
  "to_short x = (if -32768 \<le> trunc x \<and> trunc x \<le> 32767 then Inr (trunc x) else Inl BadConversion)"

text \<open>The conversion to \<open>unsigned int\<close>, likewise.\<close>

definition to_uint :: "real \<Rightarrow> nat result" where
  "to_uint x = (if 0 \<le> trunc x \<and> trunc x < 2 ^ 32 then Inr (nat (trunc x)) else Inl BadConversion)"

text \<open>The conversion to \<open>int\<close>.\<close>

definition to_int32 :: "real \<Rightarrow> int result" where
  "to_int32 x = (if - (2 ^ 31) \<le> trunc x \<and> trunc x < 2 ^ 31 then Inr (trunc x) else Inl BadConversion)"

text \<open>Division of doubles; the model faults where IEEE arithmetic would give an infinity or a NaN.\<close>

definition fdiv :: "real \<Rightarrow> real \<Rightarrow> real result" where
  "fdiv a b = (if b = 0 then Inl FloatDivByZero else Inr (a / b))"

lemma unat_of_nat32: "n < 2 ^ 32 \<Longrightarrow> unat (of_nat n :: 32 word) = n"
  by (simp add: unsigned_of_nat take_bit_nat_eq_self)

lemma unat_of_nat8: "n < 256 \<Longrightarrow> unat (of_nat n :: 8 word) = n"
  by (simp add: unsigned_of_nat take_bit_nat_eq_self)

lemma unat32_less: "unat (w :: 32 word) < 2 ^ 32"
  using unsigned_less [of w, where ?'a = nat] by simp

lemma sint32_small:
  fixes w :: "32 word"
  assumes "unat w < 2 ^ 31"
  shows "sint w = int (unat w)"
proof -
  have "int (unat w) < int (2 ^ 31)" using assms by (simp only: of_nat_less_iff)
  then have "uint w < 2 ^ 31" by simp
  moreover have "- (2 ^ 31) \<le> uint w"
    by (rule order_trans [of _ 0]) simp_all
  ultimately show ?thesis by (simp add: sint_uint signed_take_bit_int_eq_self)
qed

text \<open>Signed 16-bit samples: their range, and sums that do not wrap.\<close>

lemma sint16_bounds: "- 32768 \<le> sint (x :: 16 word)" "sint (x :: 16 word) \<le> 32767"
  using sint_range_size [of x] by (simp_all add: word_size)

lemma abs_sint16: "\<bar>real_of_int (sint (x :: 16 word))\<bar> \<le> 32768"
  using sint16_bounds [of x] by linarith

lemma sint16_of_int: "- 32768 \<le> k \<Longrightarrow> k \<le> 32767 \<Longrightarrow> sint (word_of_int k :: 16 word) = k"
  by (simp add: sint_sbintrunc' signed_take_bit_int_eq_self)

lemma sint16_add:
  fixes x :: "16 word"
  assumes "\<bar>sint x + l\<bar> \<le> 32767"
  shows "sint (x + word_of_int l) = sint x + l"
proof -
  have "x + word_of_int l = word_of_int (sint x + l)" by simp
  then show ?thesis using sint16_of_int [of "sint x + l"] assms by simp
qed

lemma to_short_small:
  assumes "\<bar>x\<bar> \<le> 32767"
  shows "to_short x = Inr (trunc x)" and "\<bar>real_of_int (trunc x)\<bar> \<le> \<bar>x\<bar>"
  using abs_trunc_le_int [of x 32767] abs_trunc_le [of x] assms by (auto simp: to_short_def)

section \<open>Time values\<close>

record timeval =
  tv_sec :: int
  tv_usec :: int

definition TP_IN_FP_SECS :: "timeval \<Rightarrow> real" where
  "TP_IN_FP_SECS x = of_int (tv_sec x) + of_int (tv_usec x) * 0.000001"

section \<open>Locks\<close>

text \<open>
  A mutex is a Boolean: held or free.  Taking a held (default, non-recursive) mutex from the
  same thread never returns.
\<close>

definition threadLock :: "bool \<Rightarrow> bool result" where
  "threadLock held = (if held then Inl Deadlock else Inr True)"

definition threadUnlock :: "bool \<Rightarrow> bool" where
  "threadUnlock held = False"

lemma threadLock_free [simp]: "threadLock False = Inr True"
  by (simp add: threadLock_def)

lemma threadUnlock_eq [simp]: "threadUnlock h = False"
  by (simp add: threadUnlock_def)

section \<open>Lists\<close>

definition swap_list :: "'a list \<Rightarrow> nat \<Rightarrow> nat \<Rightarrow> 'a list" where
  "swap_list xs i j = xs[i := xs ! j, j := xs ! i]"

lemma length_swap_list [simp]: "length (swap_list xs i j) = length xs"
  by (simp add: swap_list_def)

lemma swap_list_same [simp]: "swap_list xs i i = xs"
  by (simp add: swap_list_def)

lemma nth_swap_list:
  "i < length xs \<Longrightarrow> j < length xs \<Longrightarrow>
   swap_list xs i j ! k = (if k = i then xs ! j else if k = j then xs ! i else xs ! k)"
  by (auto simp: swap_list_def nth_list_update)

lemma mset_swap_list [simp]:
  "i < length xs \<Longrightarrow> j < length xs \<Longrightarrow> mset (swap_list xs i j) = mset xs"
  by (simp add: swap_list_def mset_swap)

lemma take_swap_list:
  "i < n \<Longrightarrow> j < n \<Longrightarrow> n \<le> length xs \<Longrightarrow> take n (swap_list xs i j) = swap_list (take n xs) i j"
  by (simp add: swap_list_def take_update_swap)

lemma drop_swap_list:
  "i < n \<Longrightarrow> j < n \<Longrightarrow> drop n (swap_list xs i j) = drop n xs"
  by (simp add: swap_list_def)

lemma nth_snoc: "i < length xs \<Longrightarrow> (xs @ [x]) ! i = xs ! i"
  by (simp add: nth_append)

lemma nth_snoc_pred: "i \<le> length xs \<Longrightarrow> xs \<noteq> [] \<Longrightarrow> (xs @ [x]) ! (i - Suc 0) = xs ! (i - Suc 0)"
  by (cases i) (auto simp: nth_append)

lemma nth_last_index:
  "distinct xs \<Longrightarrow> i < length xs \<Longrightarrow> xs ! i = xs ! (length xs - 1) \<longleftrightarrow> Suc i = length xs"
  using nth_eq_iff_index_eq [of xs i "length xs - 1"] by auto

lemma nth_le_sum_list_real:
  fixes xs :: "real list"
  shows "(\<And>i. i < length xs \<Longrightarrow> 0 \<le> xs ! i) \<Longrightarrow> j < length xs \<Longrightarrow> xs ! j \<le> sum_list xs"
proof (induction xs arbitrary: j)
  case (Cons x xs)
  have nn: "0 \<le> x" "\<And>i. i < length xs \<Longrightarrow> 0 \<le> xs ! i"
    using Cons.prems(1) [of 0] Cons.prems(1) [of "Suc _"] by auto
  then have "0 \<le> sum_list xs" by (auto intro!: sum_list_nonneg simp: in_set_conv_nth)
  with nn Cons show ?case by (cases j) (auto intro: add_increasing)
qed simp

lemma sum_list_update_real:
  fixes xs :: "real list"
  shows "i < length xs \<Longrightarrow> sum_list (xs[i := v]) = sum_list xs + v - xs ! i"
proof (induction xs arbitrary: i)
  case (Cons x xs)
  then show ?case by (cases i) auto
qed simp

end
