(* ===== verification/C_Strings.thy ===== *)
theory C_Strings
  imports Peep_Prelude "HOL-Library.Sublist"
begin

text \<open>
  The part of the C library's string handling the server uses, in the C locale.  A C string is
  the list of its bytes without the terminating NUL; a character buffer is a list that holds a
  NUL somewhere if it is to be read as a string.  \<open>char\<close> is signed, as on the platforms the
  server is built for.
\<close>

abbreviation NUL :: char where "NUL \<equiv> CHR 0x00"
abbreviation NL :: char where "NL \<equiv> CHR 0x0A"
abbreviation TAB :: char where "TAB \<equiv> CHR 0x09"

section \<open>Characters\<close>

definition code :: "char \<Rightarrow> nat" where
  "code c = of_char c"

definition schar :: "char \<Rightarrow> int" where
  "schar c = (let n = int (code c) in if n < 128 then n else n - 256)"

definition isspace :: "char \<Rightarrow> bool" where
  "isspace c \<longleftrightarrow> code c = 32 \<or> 9 \<le> code c \<and> code c \<le> 13"

definition isdigit :: "char \<Rightarrow> bool" where
  "isdigit c \<longleftrightarrow> 48 \<le> code c \<and> code c \<le> 57"

definition isalnum :: "char \<Rightarrow> bool" where
  "isalnum c \<longleftrightarrow>
     isdigit c \<or> 65 \<le> code c \<and> code c \<le> 90 \<or> 97 \<le> code c \<and> code c \<le> 122"

definition tolower :: "char \<Rightarrow> char" where
  "tolower c = (if 65 \<le> code c \<and> code c \<le> 90 then char_of (code c + 32) else c)"

lemmas char_defs = code_def schar_def isspace_def isdigit_def isalnum_def tolower_def
declare char_defs [cdefs]

lemma code_less: "code c < 256"
  by (simp add: code_def)

lemma schar_bounds: "- 128 \<le> schar c" "schar c < 128"
  using code_less [of c] by (auto simp: schar_def Let_def)

lemma isspace_NUL [simp]: "\<not> isspace NUL"
  by (simp add: char_defs)

lemma isspace_NL [simp]: "isspace NL"
  by (simp add: char_defs)

lemma isalnum_not_isspace: "isalnum c \<Longrightarrow> \<not> isspace c"
  by (auto simp: isalnum_def isspace_def isdigit_def)

section \<open>Strings\<close>

text \<open>\<open>strcaseeq s t\<close> is \<open>strcasecmp (s, t) == 0\<close>.\<close>

definition strcaseeq :: "string \<Rightarrow> string \<Rightarrow> bool" where
  "strcaseeq s t \<longleftrightarrow> map tolower s = map tolower t"

lemma strcaseeq_refl [simp]: "strcaseeq s s"
  by (simp add: strcaseeq_def)

lemma strcaseeq_sym: "strcaseeq s t \<longleftrightarrow> strcaseeq t s"
  by (auto simp: strcaseeq_def)

lemma strcaseeq_trans: "strcaseeq s t \<Longrightarrow> strcaseeq t u \<Longrightarrow> strcaseeq s u"
  by (simp add: strcaseeq_def)

lemma strcaseeq_length: "strcaseeq s t \<Longrightarrow> length s = length t"
  unfolding strcaseeq_def by (metis length_map)

text \<open>\<open>strstr (s, t) != NULL\<close>: the needle \<open>t\<close> occurs in \<open>s\<close>.\<close>

fun strstr :: "string \<Rightarrow> string \<Rightarrow> bool" where
  "strstr [] t = (t = [])"
| "strstr (c # s) t = (prefix t (c # s) \<or> strstr s t)"

lemma strstr_iff_sublist: "strstr s t \<longleftrightarrow> sublist t s"
  by (induction s t rule: strstr.induct) (auto simp: sublist_Cons_right)

text \<open>Reading a buffer as a string: everything before the first NUL.\<close>

definition cstring :: "char list \<Rightarrow> string result" where
  "cstring buf = (if NUL \<in> set buf then Inr (takeWhile (\<lambda>c. c \<noteq> NUL) buf) else Inl OutOfBounds)"

lemma cstring_terminated [simp]: "NUL \<notin> set s \<Longrightarrow> cstring (s @ NUL # rest) = Inr s"
  by (simp add: cstring_def takeWhile_append)

section \<open>Numbers\<close>

fun digits_value :: "int \<Rightarrow> string \<Rightarrow> int" where
  "digits_value acc [] = acc"
| "digits_value acc (c # s) =
     (if isdigit c then digits_value (10 * acc + (int (code c) - 48)) s else acc)"

definition strtol :: "string \<Rightarrow> int" where
  "strtol s =
     (let t = dropWhile isspace s;
          v = (case t of [] \<Rightarrow> 0
               | c # u \<Rightarrow> if c = CHR ''-'' then - digits_value 0 u
                          else if c = CHR ''+'' then digits_value 0 u
                          else digits_value 0 t)
      in max (- (2 ^ 63)) (min (2 ^ 63 - 1) v))"

text \<open>\<open>atoi\<close> is \<open>(int) strtol (s, NULL, 10)\<close>.\<close>

definition atoi :: "string \<Rightarrow> 32 word" where
  "atoi s = word_of_int (strtol s)"

text \<open>
  \<open>strtod\<close> for decimal numbers with an optional fraction and exponent; hexadecimal numbers, infinities
  and NaNs are not modelled.
\<close>

fun frac_value :: "real \<Rightarrow> string \<Rightarrow> real" where
  "frac_value scale [] = 0"
| "frac_value scale (c # s) =
     (if isdigit c then scale * (real (code c) - 48) + frac_value (scale / 10) s else 0)"

definition exp_value :: "string \<Rightarrow> int" where
  "exp_value s = (case s of [] \<Rightarrow> 0
     | c # u \<Rightarrow> if c = CHR ''e'' \<or> c = CHR ''E''
                then (case u of [] \<Rightarrow> 0
                      | d # v \<Rightarrow> if d = CHR ''-'' then - digits_value 0 v
                                 else if d = CHR ''+'' then digits_value 0 v else digits_value 0 u)
                else 0)"

definition strtod :: "string \<Rightarrow> real" where
  "strtod s =
     (let t = dropWhile isspace s;
          neg = (t \<noteq> [] \<and> hd t = CHR ''-'');
          u = (if t \<noteq> [] \<and> (hd t = CHR ''-'' \<or> hd t = CHR ''+'') then tl t else t);
          ip = takeWhile isdigit u; r = dropWhile isdigit u;
          dot = (r \<noteq> [] \<and> hd r = CHR ''.'');
          fp = (if dot then takeWhile isdigit (tl r) else []);
          e = (if dot then dropWhile isdigit (tl r) else r);
          m = of_int (digits_value 0 ip) + frac_value (1 / 10) fp;
          v = (if ip = [] \<and> fp = [] then 0 else m * power_int 10 (exp_value e))
      in if neg then - v else v)"

lemma digits_value_nonneg: "0 \<le> acc \<Longrightarrow> 0 \<le> digits_value acc s"
proof (induction acc s rule: digits_value.induct)
  case (2 acc c s)
  then show ?case by (cases "isdigit c") (auto simp: isdigit_def)
qed simp

lemma digits_value_append_nondigit:
  "\<not> isdigit c \<Longrightarrow> digits_value acc (s @ c # t) = digits_value acc s"
  by (induction acc s rule: digits_value.induct) auto

text \<open>Decimal printing, the inverse of \<open>digits_value\<close> on its range.\<close>

fun show_nat :: "nat \<Rightarrow> string" where
  "show_nat n =
     (if n < 10 then [char_of (48 + n)] else show_nat (n div 10) @ [char_of (48 + n mod 10)])"

declare show_nat.simps [simp del]

lemma code_digit: "d < 10 \<Longrightarrow> code (char_of (48 + d)) = 48 + d"
  by (simp add: code_def of_char_of)

lemma digits_value_append:
  "(\<forall>c\<in>set s. isdigit c) \<Longrightarrow> digits_value acc (s @ t) = digits_value (digits_value acc s) t"
  by (induction acc s rule: digits_value.induct) auto

lemma show_nat_digits: "\<forall>c\<in>set (show_nat n). isdigit c"
proof (induction n rule: show_nat.induct)
  case (1 n)
  then show ?case
    by (subst show_nat.simps) (auto simp: isdigit_def code_digit)
qed

lemma show_nat_nonempty [simp]: "show_nat n \<noteq> []"
  by (subst show_nat.simps) simp

lemma digits_value_show_nat: "digits_value 0 (show_nat n) = int n"
proof (induction n rule: show_nat.induct)
  case (1 n)
  show ?case
  proof (cases "n < 10")
    case True
    then show ?thesis by (subst show_nat.simps) (simp add: isdigit_def code_digit)
  next
    case False
    with "1" have "digits_value 0 (show_nat (n div 10)) = int (n div 10)" by simp
    moreover have "isdigit (char_of (48 + n mod 10))" by (simp add: isdigit_def code_digit)
    ultimately show ?thesis using False
      by (subst show_nat.simps)
        (simp add: digits_value_append show_nat_digits code_digit zdiv_int zmod_int)
  qed
qed

lemma isdigit_not_sign:
  "isdigit c \<Longrightarrow> \<not> isspace c \<and> c \<noteq> CHR ''-'' \<and> c \<noteq> CHR ''+''"
  by (auto simp: isdigit_def isspace_def code_def)

lemma strtol_show_nat: "n < 2 ^ 63 \<Longrightarrow> strtol (show_nat n) = int n"
proof -
  assume n: "n < 2 ^ 63"
  obtain c s where cs: "show_nat n = c # s" by (cases "show_nat n") auto
  with show_nat_digits [of n] have c: "isdigit c" by simp
  have "digits_value 0 (c # s) = int n" using digits_value_show_nat [of n] cs by simp
  with c n show ?thesis
    using isdigit_not_sign [OF c] by (simp add: strtol_def cs)
qed

lemma atoi_show_nat: "n < 2 ^ 63 \<Longrightarrow> atoi (show_nat n) = of_nat n"
  by (simp add: atoi_def strtol_show_nat)

end
