(* ===== verification/Event_Types.thy ===== *)
theory Event_Types
  imports C_Strings
begin

text \<open>
  The data the components exchange: \<open>EVENT\<close> and \<open>ENGINE_EVENT\<close> (engine.h).
  A \<open>char *\<close> field is an optional string; the fields keep their C widths.
\<close>

section \<open>Events (engine.h)\<close>

datatype EVENT_TYPE = EVENT_T | STATE_T

definition event_type_code :: "EVENT_TYPE \<Rightarrow> 8 word" where
  "event_type_code t = (case t of EVENT_T \<Rightarrow> 0 | STATE_T \<Rightarrow> 1)"

lemma event_type_code_inject [simp]: "event_type_code s = event_type_code t \<longleftrightarrow> s = t"
  by (cases s; cases t) (auto simp: event_type_code_def)

record EVENT =
  e_type :: "8 word"
  e_loc :: "8 word"
  e_prior :: "8 word"
  e_vol :: "8 word"
  e_dither :: "8 word"
  e_reserved :: "8 word list"
  e_flags :: "32 word"
  e_sound_len :: "32 word"
  e_sound :: "string option"

record ENGINE_EVENT =
  event :: EVENT
  mix_time :: timeval

text \<open>The zeroed structures \<open>calloc\<close> and \<open>memset\<close> produce.\<close>

definition zero_event :: EVENT where
  "zero_event = \<lparr>e_type = 0, e_loc = 0, e_prior = 0, e_vol = 0, e_dither = 0,
     e_reserved = [0, 0, 0], e_flags = 0, e_sound_len = 0, e_sound = None\<rparr>"

definition engineEngineEventCreate :: ENGINE_EVENT where
  "engineEngineEventCreate =
     \<lparr>event = zero_event, mix_time = \<lparr>tv_sec = 0, tv_usec = 0\<rparr>\<rparr>"

definition prior :: "ENGINE_EVENT \<Rightarrow> nat" where
  "prior e = unat (e_prior (event e))"

lemma prior_less [simp]: "prior e < 256"
  using unsigned_less [of "e_prior (event e)", where ?'a = nat] by (simp add: prior_def)

end
