(* ===== verification/Buffer_Specs.thy ===== *)
theory Buffer_Specs
  imports Peep_Prelude
begin

text \<open>
  The contracts of the two event buffers, stated once over abstract operations.
  \<open>lifo_buffer\<close> is what the engine thread relies on (elements come back newest first, an empty
  buffer makes the reader wait, nothing is lost); \<open>event_bag\<close> is what the mixer relies on
  (elements go in and come out once each, in some order, up to a capacity).
  The client lemmas speak about whole sequences of operations.
\<close>

section \<open>Sequences of operations\<close>

datatype 'e buf_op = Put 'e | Take

fun run_ops ::
  "('e \<Rightarrow> 'q \<Rightarrow> 'q result) \<Rightarrow> ('q \<Rightarrow> ('e \<times> 'q) option result) \<Rightarrow> 'e buf_op list \<Rightarrow> 'q
   \<Rightarrow> ('e option list \<times> 'q) result" where
  "run_ops put get [] q = Inr ([], q)"
| "run_ops put get (Put e # ops) q = bindE (put e q) (run_ops put get ops)"
| "run_ops put get (Take # ops) q =
     bindE (get q) (\<lambda>r.
     case r of
       None \<Rightarrow> bindE (run_ops put get ops q) (\<lambda>(out, q'). Inr (None # out, q'))
     | Some (e, q1) \<Rightarrow> bindE (run_ops put get ops q1) (\<lambda>(out, q'). Inr (Some e # out, q')))"

text \<open>The same sequence on a stack kept as a list, newest element last.\<close>

fun stack_run :: "'e buf_op list \<Rightarrow> 'e list \<Rightarrow> 'e option list \<times> 'e list" where
  "stack_run [] xs = ([], xs)"
| "stack_run (Put e # ops) xs = stack_run ops (xs @ [e])"
| "stack_run (Take # ops) xs =
     (if xs = [] then (let (out, ys) = stack_run ops [] in (None # out, ys))
      else (let (out, ys) = stack_run ops (butlast xs) in (Some (last xs) # out, ys)))"

lemma stack_run_puts: "stack_run (map Put es @ ops) xs = stack_run ops (xs @ es)"
  by (induction es arbitrary: xs) auto

lemma stack_run_takes:
  "stack_run (replicate (length es) Take) (xs @ es) = (map Some (rev es), xs)"
  by (induction es rule: rev_induct) (auto simp: butlast_append)

lemma stack_run_burst:
  "stack_run (map Put es @ replicate (length es) Take) xs = (map Some (rev es), xs)"
  by (simp add: stack_run_puts stack_run_takes)

section \<open>The LIFO contract\<close>

locale lifo_buffer =
  fixes put :: "'e \<Rightarrow> 'q \<Rightarrow> 'q result"
    and get :: "'q \<Rightarrow> ('e \<times> 'q) option result"
    and rel :: "'q \<Rightarrow> 'e list \<Rightarrow> bool"
    and cap :: nat
  assumes put_rel: "rel q xs \<Longrightarrow> length xs < cap \<Longrightarrow> \<exists>q'. put e q = Inr q' \<and> rel q' (xs @ [e])"
    and get_rel: "rel q (xs @ [e]) \<Longrightarrow> \<exists>q'. get q = Inr (Some (e, q')) \<and> rel q' xs"
    and get_empty: "rel q [] \<Longrightarrow> get q = Inr None"
begin

lemma run_refines:
  assumes "rel q xs" and "length xs + length ops \<le> cap"
  shows "\<exists>q'. run_ops put get ops q = Inr (fst (stack_run ops xs), q') \<and>
              rel q' (snd (stack_run ops xs))"
  using assms
proof (induction ops xs arbitrary: q rule: stack_run.induct)
  case (1 xs)
  then show ?case by auto
next
  case (2 e ops xs)
  then obtain q1 where "put e q = Inr q1" "rel q1 (xs @ [e])"
    using put_rel [of q xs e] by auto
  with "2.IH" [of q1] "2.prems" show ?case by auto
next
  case (3 ops xs)
  show ?case
  proof (cases "xs = []")
    case True
    with "3.prems" have "get q = Inr None" and "rel q []" using get_empty by auto
    with True "3.IH"(1) [of q] "3.prems" show ?thesis by (auto split: prod.splits)
  next
    case False
    then have "rel q (butlast xs @ [last xs])" using "3.prems" by simp
    then obtain q1 where "get q = Inr (Some (last xs, q1))" "rel q1 (butlast xs)"
      using get_rel by blast
    moreover have "length (butlast xs) + length ops \<le> cap" using "3.prems"(2) by simp
    ultimately show ?thesis
      using False "3.IH"(2) [of q1] by (auto split: prod.splits)
  qed
qed

lemma burst_reversed:
  assumes "rel q xs" and "length xs + 2 * length es \<le> cap"
  shows "\<exists>q'. run_ops put get (map Put es @ replicate (length es) Take) q
              = Inr (map Some (rev es), q') \<and> rel q' xs"
  using run_refines [OF assms(1), of "map Put es @ replicate (length es) Take"] assms(2)
  by (simp add: stack_run_burst)

end

section \<open>The bag contract\<close>

text \<open>A sequence of operations, with what the second kind takes out, and the elements put in.\<close>

fun bag_run ::
  "('e \<Rightarrow> 'q \<Rightarrow> 'q result) \<Rightarrow> ('q \<Rightarrow> ('e \<times> 'q) result) \<Rightarrow> 'e buf_op list \<Rightarrow> 'q \<Rightarrow> ('e list \<times> 'q) result" where
  "bag_run put get [] q = Inr ([], q)"
| "bag_run put get (Put e # ops) q = bindE (put e q) (bag_run put get ops)"
| "bag_run put get (Take # ops) q =
     bindE (get q) (\<lambda>(e, q1). bindE (bag_run put get ops q1) (\<lambda>(es, q'). Inr (e # es, q')))"

fun puts_of :: "'e buf_op list \<Rightarrow> 'e list" where
  "puts_of [] = []"
| "puts_of (Put e # ops) = e # puts_of ops"
| "puts_of (Take # ops) = puts_of ops"

text \<open>From \<open>n\<close> elements on, the sequence neither exceeds the capacity nor takes from an empty buffer.\<close>

fun fits :: "nat \<Rightarrow> nat \<Rightarrow> 'e buf_op list \<Rightarrow> bool" where
  "fits c n [] \<longleftrightarrow> True"
| "fits c n (Put e # ops) \<longleftrightarrow> n < c \<and> fits c (Suc n) ops"
| "fits c n (Take # ops) \<longleftrightarrow> 0 < n \<and> fits c (n - 1) ops"

locale event_bag =
  fixes put :: "'e \<Rightarrow> 'q \<Rightarrow> 'q result"
    and get :: "'q \<Rightarrow> ('e \<times> 'q) result"
    and inv :: "'q \<Rightarrow> bool"
    and bag :: "'q \<Rightarrow> 'e multiset"
    and cap :: "'q \<Rightarrow> nat"
  assumes put_bag: "inv q \<Longrightarrow> size (bag q) < cap q \<Longrightarrow>
      \<exists>q'. put e q = Inr q' \<and> inv q' \<and> bag q' = add_mset e (bag q) \<and> cap q' = cap q"
    and get_bag: "inv q \<Longrightarrow> bag q \<noteq> {#} \<Longrightarrow>
      \<exists>e q'. get q = Inr (e, q') \<and> inv q' \<and> bag q = add_mset e (bag q') \<and> cap q' = cap q"
    and put_full: "inv q \<Longrightarrow> cap q \<le> size (bag q) \<Longrightarrow> put e q = Inl OutOfBounds"
    and get_empty: "inv q \<Longrightarrow> bag q = {#} \<Longrightarrow> get q = Inl OutOfBounds"
begin

lemma bag_run_conserves:
  assumes "inv q"
  shows "if fits (cap q) (size (bag q)) ops
    then \<exists>out q'. bag_run put get ops q = Inr (out, q') \<and> inv q' \<and> cap q' = cap q \<and>
      bag q' + mset out = bag q + mset (puts_of ops)
    else bag_run put get ops q = Inl OutOfBounds"
  using assms
proof (induction ops arbitrary: q)
  case (Cons op ops)
  show ?case
  proof (cases op)
    case (Put e)
    show ?thesis
    proof (cases "size (bag q) < cap q")
      case True
      then obtain q1 where q1: "put e q = Inr q1" "inv q1" "bag q1 = add_mset e (bag q)" "cap q1 = cap q"
        using put_bag [OF Cons.prems] by blast
      then show ?thesis using Cons.IH [OF q1(2)] True Put by auto
    qed (use Put put_full [OF Cons.prems] in simp)
  next
    case Take
    show ?thesis
    proof (cases "bag q = {#}")
      case False
      then obtain e q1 where q1: "get q = Inr (e, q1)" "inv q1" "bag q = add_mset e (bag q1)" "cap q1 = cap q"
        using get_bag [OF Cons.prems] by blast
      then show ?thesis using Cons.IH [OF q1(2)] Take by auto
    qed (use Take get_empty [OF Cons.prems] in simp)
  qed
qed simp

end

end
