(* ===== verification/Mixer_Queue.thy ===== *)
theory Mixer_Queue
  imports Event_Types Buffer_Specs
begin

text \<open>
  mixer_queue.c: the priority queue that holds events while all mixer channels are busy, an
  array of event pointers used as a binary heap.  The model keeps the array with its \<open>NULL\<close>
  entries, the C index arithmetic and the lock.  Shown: within capacity no operation faults and
  both loops end; events are neither lost nor duplicated; \<open>mixerDequeue\<close> is a correct
  extract-min on a binary min-heap; \<open>mixerEnqueue\<close> climbs along a different parent function,
  keeps the order belonging to that one, and never changes which event is dequeued next.
\<close>

section \<open>State\<close>

type_synonym event_array = "ENGINE_EVENT option list"

record mixer_queue =
  mq_heap :: "event_array ptr"
  mq_top :: int
  mq_queueSize :: int
  mq_qlock :: bool

definition mixer_queue_static :: mixer_queue where
  "mixer_queue_static = \<lparr>mq_heap = Null, mq_top = 0, mq_queueSize = 0, mq_qlock = False\<rparr>"

section \<open>Operations\<close>

text \<open>The array is taken to be allocated.\<close>

definition mixerQueueInit :: "nat \<Rightarrow> mixer_queue \<Rightarrow> mixer_queue" where
  "mixerQueueInit s q =
     q\<lparr>mq_top := 0, mq_queueSize := int s, mq_heap := Ptr (replicate s None), mq_qlock := False\<rparr>"

definition swap :: "event_array \<Rightarrow> int \<Rightarrow> int \<Rightarrow> event_array result" where
  "swap heap i j =
     bindE (aget heap i) (\<lambda>temp.
     bindE (aget heap j) (\<lambda>hj.
     bindE (aset heap i hj) (\<lambda>heap1. aset heap1 j temp)))"

text \<open>\<open>heap[i]->event.prior\<close>\<close>

definition prior_at :: "event_array \<Rightarrow> int \<Rightarrow> nat result" where
  "prior_at heap i =
     bindE (aget heap i) (\<lambda>p. case p of None \<Rightarrow> Inl NullDeref | Some e \<Rightarrow> Inr (prior e))"

lemma prior_at_nonneg: "prior_at heap i = Inr a \<Longrightarrow> 0 \<le> i"
  by (auto simp: prior_at_def aget_def split: if_splits)

text \<open>One turn of the loop of \<open>bubbleUp\<close> per call; \<open>fin\<close> is the variable \<open>done\<close>.\<close>

function bubbleUp :: "event_array \<Rightarrow> int \<Rightarrow> (event_array \<times> int) result" where
  "bubbleUp heap pos =
     (let parent = c_div (pos + 1) 2;
          fin = (parent = 0 \<or> parent < 0)
      in bindE (if parent < 0 then swap heap 0 pos else Inr heap) (\<lambda>heap1.
         bindE (prior_at heap1 parent) (\<lambda>a.
         bindE (prior_at heap1 pos) (\<lambda>b.
         if b < a
         then bindE (swap heap1 parent pos) (\<lambda>heap2.
              if fin then Inr (heap2, parent) else bubbleUp heap2 parent)
         else Inr (heap1, pos)))))"
  by pat_completeness auto
termination
proof (relation "measure (\<lambda>(heap, pos). nat pos)", goal_cases)
  case 1
  then show ?case by simp
next
  case (2 heap pos parent fin heap1 a b heap2)
  then have par: "0 < parent" "0 \<le> pos" "parent = c_div (pos + 1) 2" "heap1 = heap"
    by (auto dest: prior_at_nonneg)
  then have "parent = (pos + 1) div 2" by simp
  moreover have "parent \<noteq> pos" using 2 by auto
  ultimately have "parent < pos" using par by linarith
  then show ?case using par by simp
qed

declare bubbleUp.simps [simp del]

function bubbleDown :: "event_array \<Rightarrow> int \<Rightarrow> int \<Rightarrow> (event_array \<times> int) result" where
  "bubbleDown heap tp pos =
     (let lchild = (pos + 1) * 2 - 1;
          rchild = (pos + 1) * 2
      in if lchild < tp \<and> rchild < tp
         then bindE (prior_at heap lchild) (\<lambda>l.
              bindE (prior_at heap rchild) (\<lambda>r.
              bindE (prior_at heap pos) (\<lambda>p.
              if l \<le> r \<and> l < p
              then bindE (swap heap pos lchild) (\<lambda>heap1. bubbleDown heap1 tp lchild)
              else if r \<le> l \<and> r < p
              then bindE (swap heap pos rchild) (\<lambda>heap1. bubbleDown heap1 tp rchild)
              else Inr (heap, pos))))
         else if lchild < tp
         then bindE (prior_at heap lchild) (\<lambda>l.
              bindE (prior_at heap pos) (\<lambda>p.
              if l < p
              then bindE (swap heap pos lchild) (\<lambda>heap1. Inr (heap1, lchild))
              else Inr (heap, pos)))
         else Inr (heap, pos))"
  by pat_completeness auto
termination
  by (relation "measure (\<lambda>(heap, tp, pos). nat (tp - pos))") (auto dest!: prior_at_nonneg)

declare bubbleDown.simps [simp del]

definition mixerEnqueue :: "ENGINE_EVENT \<Rightarrow> mixer_queue \<Rightarrow> mixer_queue result" where
  "mixerEnqueue new_event q =
     bindE (threadLock (mq_qlock q)) (\<lambda>locked.
     bindE (pget (mq_heap q)) (\<lambda>heap.
     let pos = mq_top q in
     bindE (aset heap (mq_top q) (Some new_event)) (\<lambda>heap1.
     bindE (bubbleUp heap1 pos) (\<lambda>(heap2, pos').
     Inr (q\<lparr>mq_heap := Ptr heap2, mq_top := mq_top q + 1, mq_qlock := threadUnlock locked\<rparr>)))))"

definition mixerDequeue :: "mixer_queue \<Rightarrow> (ENGINE_EVENT option \<times> mixer_queue) result" where
  "mixerDequeue q =
     bindE (threadLock (mq_qlock q)) (\<lambda>locked.
     bindE (pget (mq_heap q)) (\<lambda>heap.
     bindE (aget heap 0) (\<lambda>res.
     let tp = mq_top q - 1 in
     bindE (aget heap tp) (\<lambda>x.
     bindE (aset heap 0 x) (\<lambda>heap1.
     bindE (bubbleDown heap1 tp 0) (\<lambda>(heap2, pos').
     Inr (res, q\<lparr>mq_heap := Ptr heap2, mq_top := tp, mq_qlock := threadUnlock locked\<rparr>)))))))"

definition mixerQueueEmpty :: "mixer_queue \<Rightarrow> bool" where
  "mixerQueueEmpty q \<longleftrightarrow> mq_top q = 0"

definition mixerQueueFull :: "mixer_queue \<Rightarrow> bool" where
  "mixerQueueFull q \<longleftrightarrow> mq_top q = mq_queueSize q"

text \<open>The loop of \<open>mixerQueueDestroy\<close>; \<open>freed\<close> collects the items it frees.\<close>

partial_function (option) mq_destroy_loop ::
  "ENGINE_EVENT list \<Rightarrow> mixer_queue \<Rightarrow> (ENGINE_EVENT list \<times> mixer_queue) result option" where
  "mq_destroy_loop freed q =
     (if mixerQueueEmpty q then Some (Inr (freed, q))
      else case mixerDequeue q of
             Inl f \<Rightarrow> Some (Inl f)
           | Inr r \<Rightarrow> (case fst r of
                         None \<Rightarrow> Some (Inr (freed, snd r))
                       | Some item \<Rightarrow> mq_destroy_loop (freed @ [item]) (snd r)))"

definition mixerQueueDestroy :: "mixer_queue \<Rightarrow> (ENGINE_EVENT list \<times> mixer_queue) result" where
  "mixerQueueDestroy q =
     (if mq_heap q = Null then Inr ([], q)
      else bindE (loopE (mq_destroy_loop [] q)) (\<lambda>(freed, q1).
           bindE (pfree (mq_heap q1)) (\<lambda>h. Inr (freed, q1\<lparr>mq_heap := h\<rparr>))))"

section \<open>Well-formed queues\<close>

definition filled :: "nat \<Rightarrow> event_array \<Rightarrow> bool" where
  "filled n xs \<longleftrightarrow> n \<le> length xs \<and> (\<forall>i<n. xs ! i \<noteq> None)"

abbreviation pr :: "event_array \<Rightarrow> nat \<Rightarrow> nat" where
  "pr xs i \<equiv> prior (the (xs ! i))"

definition mq_wf :: "mixer_queue \<Rightarrow> bool" where
  "mq_wf q \<longleftrightarrow> (\<exists>xs. mq_heap q = Ptr xs \<and> 0 \<le> mq_top q \<and> filled (nat (mq_top q)) xs \<and>
                      mq_queueSize q = int (length xs) \<and> \<not> mq_qlock q)"

definition mq_array :: "mixer_queue \<Rightarrow> event_array" where
  "mq_array q = (case mq_heap q of Ptr xs \<Rightarrow> xs | _ \<Rightarrow> [])"

definition mq_bag :: "mixer_queue \<Rightarrow> ENGINE_EVENT multiset" where
  "mq_bag q = image_mset the (mset (take (nat (mq_top q)) (mq_array q)))"

lemma filledD: "filled n xs \<Longrightarrow> i < n \<Longrightarrow> \<exists>e. xs ! i = Some e"
  by (auto simp: filled_def)

lemma filled_length: "filled n xs \<Longrightarrow> i < n \<Longrightarrow> i < length xs"
  by (auto simp: filled_def)

lemma prior_at_filled [simp]: "filled n xs \<Longrightarrow> i < n \<Longrightarrow> prior_at xs (int i) = Inr (pr xs i)"
  using filledD [of n xs i] filled_length [of n xs i] by (auto simp: prior_at_def)

lemma swap_eq [simp]:
  "i < length xs \<Longrightarrow> j < length xs \<Longrightarrow> swap xs (int i) (int j) = Inr (swap_list xs i j)"
  by (simp add: swap_def swap_list_def)

lemma filled_swap: "filled n xs \<Longrightarrow> i < n \<Longrightarrow> j < n \<Longrightarrow> filled n (swap_list xs i j)"
  by (auto simp: filled_def nth_swap_list)

lemma pr_swap:
  "filled n xs \<Longrightarrow> i < n \<Longrightarrow> j < n \<Longrightarrow>
   pr (swap_list xs i j) k = (if k = i then pr xs j else if k = j then pr xs i else pr xs k)"
  by (auto simp: filled_def nth_swap_list)

text \<open>What a permutation of the first \<open>n\<close> entries keeps.\<close>

definition shuffled :: "nat \<Rightarrow> event_array \<Rightarrow> event_array \<Rightarrow> bool" where
  "shuffled n xs ys \<longleftrightarrow> length ys = length xs \<and> mset (take n ys) = mset (take n xs) \<and>
     drop n ys = drop n xs \<and> filled n ys"

lemma shuffled_refl [simp]: "filled n xs \<Longrightarrow> shuffled n xs xs"
  by (simp add: shuffled_def)

lemma shuffled_trans: "shuffled n xs ys \<Longrightarrow> shuffled n ys zs \<Longrightarrow> shuffled n xs zs"
  by (simp add: shuffled_def)

lemma shuffled_swap:
  "filled n xs \<Longrightarrow> i < n \<Longrightarrow> j < n \<Longrightarrow> shuffled n xs (swap_list xs i j)"
  using filled_swap [of n xs i j]
  by (simp add: shuffled_def take_swap_list drop_swap_list filled_def)

section \<open>bubbleUp\<close>

text \<open>The slot \<open>bubbleUp\<close> takes for the parent of slot \<open>i\<close>.\<close>

abbreviation up_parent :: "nat \<Rightarrow> nat" where
  "up_parent i \<equiv> Suc i div 2"

lemma bubbleUp_filled:
  assumes f: "filled n xs" and p: "pos < n"
  shows "bubbleUp xs (int pos) =
     (if pr xs pos < pr xs (up_parent pos)
      then bubbleUp (swap_list xs (up_parent pos) pos) (int (up_parent pos))
      else Inr (xs, int pos))"
proof -
  have par: "c_div (int pos + 1) 2 = int (up_parent pos)" by (simp add: zdiv_int)
  have u: "up_parent pos < n" using p by linarith
  have len: "pos < length xs" "up_parent pos < length xs"
    using filled_length [OF f] p u by auto
  show ?thesis
  proof (cases "pos = 0")
    case True
    moreover have "prior_at xs 0 = Inr (pr xs 0)" using prior_at_filled [OF f, of 0] p by simp
    ultimately show ?thesis using par by (subst bubbleUp.simps) simp
  next
    case False
    then have "up_parent pos \<noteq> 0" by simp
    with f p u len show ?thesis by (subst bubbleUp.simps) (simp add: par)
  qed
qed

text \<open>
  The order \<open>bubbleUp\<close> maintains: every slot but the first is no more urgent than its
  \<open>up_parent\<close>.  Slot 0 is nobody's \<open>up_parent\<close>, and slot 1 is its own.
\<close>

definition up_order :: "nat \<Rightarrow> event_array \<Rightarrow> bool" where
  "up_order n xs \<longleftrightarrow> (\<forall>i<n. 0 < i \<longrightarrow> pr xs (up_parent i) \<le> pr xs i)"

definition up_order_but :: "nat \<Rightarrow> nat \<Rightarrow> event_array \<Rightarrow> bool" where
  "up_order_but n pos xs \<longleftrightarrow>
     (\<forall>i<n. 0 < i \<and> i \<noteq> pos \<longrightarrow> pr xs (up_parent i) \<le> pr xs i) \<and>
     (\<forall>i<n. 0 < i \<and> i \<noteq> pos \<and> up_parent i = pos \<longrightarrow> pr xs (up_parent pos) \<le> pr xs i)"

lemma up_order_but_swap:
  assumes f: "filled n xs" and p: "pos < n" and o: "up_order_but n pos xs"
    and lt: "pr xs pos < pr xs (up_parent pos)"
  shows "up_order_but n (up_parent pos) (swap_list xs (up_parent pos) pos)"
proof -
  let ?u = "up_parent pos"
  have u: "?u < n" and neq: "?u \<noteq> pos" using p lt by auto
  then have pos: "0 < pos" "0 < ?u" "?u < pos" by (cases pos; simp)+
  note sw = pr_swap [OF f u p]
  have base: "0 < i \<Longrightarrow> i < n \<Longrightarrow> i \<noteq> pos \<Longrightarrow> pr xs (up_parent i) \<le> pr xs i" for i
    using o by (simp add: up_order_but_def)
  have kids: "0 < i \<Longrightarrow> i < n \<Longrightarrow> i \<noteq> pos \<Longrightarrow> up_parent i = pos \<Longrightarrow> pr xs ?u \<le> pr xs i" for i
    using o by (simp add: up_order_but_def)
  show ?thesis
    unfolding up_order_but_def sw
  proof (intro conjI allI impI, goal_cases)
    case (1 i)
    then show ?case using base [of i] kids [of i] base [of ?u] lt pos u by auto
  next
    case (2 i)
    then show ?case
      using base [of i] base [of ?u] lt pos u by (auto split: if_splits)
  qed
qed

lemma bubbleUp_ok:
  assumes "filled n xs" and "pos < n"
  shows "\<exists>ys p. bubbleUp xs (int pos) = Inr (ys, int p) \<and> shuffled n xs ys \<and>
            (0 < pos \<longrightarrow> ys ! 0 = xs ! 0) \<and> (up_order_but n pos xs \<longrightarrow> up_order n ys)"
  using assms
proof (induction pos arbitrary: xs rule: less_induct)
  case (less pos)
  let ?u = "up_parent pos" and ?ys = "swap_list xs (up_parent pos) pos"
  have u: "?u < n" using less.prems(2) by linarith
  show ?case
  proof (cases "pr xs pos < pr xs ?u")
    case True
    then have "?u \<noteq> pos" by auto
    then have lt: "?u < pos" and pos: "0 < pos" "0 < ?u" by (cases pos; simp)+
    note f = less.prems(1)
    obtain ys p where ys: "bubbleUp ?ys (int ?u) = Inr (ys, int p)" "shuffled n ?ys ys"
      "0 < ?u \<longrightarrow> ys ! 0 = ?ys ! 0" "up_order_but n ?u ?ys \<longrightarrow> up_order n ys"
      using less.IH [OF lt filled_swap [OF f u less.prems(2)] u] by (elim exE conjE) (rule that)
    have "0 \<noteq> ?u" "0 \<noteq> pos" using pos by simp_all
    then have "?ys ! 0 = xs ! 0"
      using nth_swap_list [OF filled_length [OF f u] filled_length [OF f less.prems(2)], of 0]
      by metis
    moreover have "shuffled n xs ys"
      using shuffled_trans [OF shuffled_swap [OF f u less.prems(2)] ys(2)] .
    moreover have "up_order_but n pos xs \<longrightarrow> up_order n ys"
      using up_order_but_swap [OF f less.prems(2) _ True] ys(4) by blast
    ultimately show ?thesis
      using ys pos True bubbleUp_filled [OF f less.prems(2)] by auto
  next
    case False
    then have "up_order_but n pos xs \<longrightarrow> up_order n xs"
      by (auto simp: up_order_but_def up_order_def)
    with False less.prems bubbleUp_filled [OF less.prems] show ?thesis by auto
  qed
qed

section \<open>bubbleDown\<close>

lemma bubbleDown_filled:
  assumes f: "filled n xs" and p: "pos < n"
  shows "bubbleDown xs (int n) (int pos) =
     (let l = 2 * pos + 1; r = 2 * pos + 2
      in if r < n
         then (if pr xs l \<le> pr xs r \<and> pr xs l < pr xs pos
               then bubbleDown (swap_list xs pos l) (int n) (int l)
               else if pr xs r \<le> pr xs l \<and> pr xs r < pr xs pos
               then bubbleDown (swap_list xs pos r) (int n) (int r)
               else Inr (xs, int pos))
         else if l < n
         then (if pr xs l < pr xs pos then Inr (swap_list xs pos l, int l) else Inr (xs, int pos))
         else Inr (xs, int pos))"
proof -
  define l r where lr: "l = 2 * pos + 1" "r = 2 * pos + 2"
  have rc: "(int pos + 1) * 2 = int r" and lc: "int r - 1 = int l" by (simp_all add: lr)
  have len: "i < n \<Longrightarrow> i < length xs" for i using filled_length [OF f] .
  have lt: "r < n \<Longrightarrow> l < n" by (simp add: lr)
  show ?thesis
    unfolding Let_def lr [symmetric]
    by (subst bubbleDown.simps, simp only: Let_def rc lc)
      (use f p len lt in \<open>auto simp: prior_at_filled\<close>)
qed


text \<open>The order of a binary min-heap, which \<open>bubbleDown\<close> follows.\<close>

abbreviation dn_parent :: "nat \<Rightarrow> nat" where
  "dn_parent i \<equiv> (i - 1) div 2"

definition min_heap :: "nat \<Rightarrow> event_array \<Rightarrow> bool" where
  "min_heap n xs \<longleftrightarrow> (\<forall>i<n. 0 < i \<longrightarrow> pr xs (dn_parent i) \<le> pr xs i)"

definition min_heap_but :: "nat \<Rightarrow> nat \<Rightarrow> event_array \<Rightarrow> bool" where
  "min_heap_but n pos xs \<longleftrightarrow>
     (\<forall>i<n. 0 < i \<and> dn_parent i \<noteq> pos \<longrightarrow> pr xs (dn_parent i) \<le> pr xs i) \<and>
     (\<forall>i<n. 0 < i \<and> 0 < pos \<and> dn_parent i = pos \<longrightarrow> pr xs (dn_parent pos) \<le> pr xs i)"

lemma min_heap_root:
  assumes "min_heap n xs" and "i < n"
  shows "pr xs 0 \<le> pr xs i"
  using assms(2)
proof (induction i rule: less_induct)
  case (less i)
  show ?case
  proof (cases "i = 0")
    case False
    then have "dn_parent i < i" by simp
    with less have "pr xs 0 \<le> pr xs (dn_parent i)" by simp
    also have "\<dots> \<le> pr xs i" using assms(1) less.prems False by (simp add: min_heap_def)
    finally show ?thesis .
  qed simp
qed

lemma dn_parent_cases: "0 < i \<Longrightarrow> dn_parent i = pos \<longleftrightarrow> i = 2 * pos + 1 \<or> i = 2 * pos + 2"
  by auto

lemma min_heap_but_swap:
  assumes f: "filled n xs" and p: "pos < n" and c: "c < n" "0 < c" "dn_parent c = pos"
    and o: "min_heap_but n pos xs" and lt: "pr xs c < pr xs pos"
    and least: "\<And>i. i < n \<Longrightarrow> 0 < i \<Longrightarrow> dn_parent i = pos \<Longrightarrow> pr xs c \<le> pr xs i"
  shows "min_heap_but n c (swap_list xs pos c)"
proof -
  note sw = pr_swap [OF f p c(1)]
  have pc: "pos < c" using c(2,3) by linarith
  have base: "0 < i \<Longrightarrow> i < n \<Longrightarrow> dn_parent i \<noteq> pos \<Longrightarrow> pr xs (dn_parent i) \<le> pr xs i" for i
    using o by (simp add: min_heap_but_def)
  have up: "0 < pos \<Longrightarrow> pr xs (dn_parent pos) \<le> pr xs c"
    using o c by (simp add: min_heap_but_def)
  have below: "0 < i \<Longrightarrow> dn_parent i < i" for i :: nat by linarith
  show ?thesis
    unfolding min_heap_but_def sw
  proof (intro conjI allI impI, goal_cases)
    case (1 i)
    obtain q where q: "q = dn_parent i" by simp
    have "0 < i" "i < n" "q \<noteq> c" "q < i" using 1 below [of i] by (auto simp: q)
    moreover have "q \<noteq> pos \<Longrightarrow> pr xs q \<le> pr xs i" "q = pos \<Longrightarrow> pr xs c \<le> pr xs i"
      "i = pos \<Longrightarrow> pr xs q \<le> pr xs c" "i = c \<Longrightarrow> q = pos"
      using base [of i] least [of i] up c(3) 1 by (auto simp: q)
    ultimately show ?case unfolding q [symmetric] using lt pc by (cases "q = pos") auto
  next
    case (2 i)
    obtain q where q: "q = dn_parent i" by simp
    have "0 < i" "i < n" "q = c" "q < i" using 2 below [of i] by (auto simp: q)
    moreover have "pr xs c \<le> pr xs i" using base [of i] 2 pc by (simp add: q)
    ultimately show ?case unfolding c(3) using pc by simp
  qed
qed

lemma min_heap_but_done:
  assumes "min_heap_but n pos xs"
    and "\<And>i. i < n \<Longrightarrow> 0 < i \<Longrightarrow> dn_parent i = pos \<Longrightarrow> pr xs pos \<le> pr xs i"
  shows "min_heap n xs"
  using assms by (auto simp: min_heap_but_def min_heap_def)

lemma min_heap_but_leaf:
  assumes "min_heap_but n pos xs" and "n \<le> 2 * pos + 1"
  shows "min_heap n xs"
  using assms(1) by (rule min_heap_but_done) (use assms(2) in linarith)


lemma bubbleDown_ok:
  assumes "filled n xs" and "pos < n"
  shows "\<exists>ys p. bubbleDown xs (int n) (int pos) = Inr (ys, int p) \<and> shuffled n xs ys \<and>
            (min_heap_but n pos xs \<longrightarrow> min_heap n ys)"
  using assms
proof (induction "n - pos" arbitrary: pos xs rule: less_induct)
  case less
  define l r where lr: "l = 2 * pos + 1" "r = 2 * pos + 2"
  note f = less.prems(1) and p = less.prems(2)
  note eq = bubbleDown_filled [OF f p, unfolded Let_def lr [symmetric]]
  have kid: "\<exists>ys p. bubbleDown (swap_list xs pos c) (int n) (int c) = Inr (ys, int p) \<and>
      shuffled n xs ys \<and> (min_heap_but n pos xs \<longrightarrow> min_heap n ys)"
    if c: "c < n" "c = l \<or> c = r" "pr xs c < pr xs pos"
      "\<And>i. i < n \<Longrightarrow> i = l \<or> i = r \<Longrightarrow> pr xs c \<le> pr xs i" for c
  proof -
    have c0: "0 < c" "dn_parent c = pos" "n - c < n - pos" using c(1,2) by (auto simp: lr)
    obtain ys k where ys: "bubbleDown (swap_list xs pos c) (int n) (int c) = Inr (ys, int k)"
      "shuffled n (swap_list xs pos c) ys"
      "min_heap_but n c (swap_list xs pos c) \<longrightarrow> min_heap n ys"
      using less.hyps [OF c0(3) filled_swap [OF f p c(1)] c(1)] by blast
    have "min_heap_but n pos xs \<longrightarrow> min_heap n ys"
      using ys(3) min_heap_but_swap [OF f p c(1) c0(1,2) _ c(3)] c(4) dn_parent_cases
      unfolding lr by blast
    with ys shuffled_trans [OF shuffled_swap [OF f p c(1)] ys(2)] show ?thesis by blast
  qed
  have stay: "\<exists>ys k. Inr (xs, int pos) = (Inr (ys, int k) :: (event_array \<times> int) result) \<and>
      shuffled n xs ys \<and> (min_heap_but n pos xs \<longrightarrow> min_heap n ys)"
    if "\<And>i. i < n \<Longrightarrow> i = l \<or> i = r \<Longrightarrow> pr xs pos \<le> pr xs i"
    using that f min_heap_but_done [of n pos xs] dn_parent_cases [of _ pos] unfolding lr by auto
  consider (both) "r < n" | (left) "l < n" "n \<le> r" | (none) "n \<le> l" by linarith
  then show ?case
  proof cases
    case both
    then have "l < n" by (simp add: lr)
    consider (l) "pr xs l \<le> pr xs r" "pr xs l < pr xs pos"
      | (r) "\<not> (pr xs l \<le> pr xs r \<and> pr xs l < pr xs pos)" "pr xs r \<le> pr xs l" "pr xs r < pr xs pos"
      | (s) "pr xs pos \<le> pr xs l" "pr xs pos \<le> pr xs r" by linarith
    then show ?thesis
    proof cases
      case l
      then have "i < n \<Longrightarrow> i = l \<or> i = r \<Longrightarrow> pr xs l \<le> pr xs i" for i by auto
      with kid [OF \<open>l < n\<close> _ l(2)] both l show ?thesis unfolding eq by simp
    next
      case r
      then have "i < n \<Longrightarrow> i = l \<or> i = r \<Longrightarrow> pr xs r \<le> pr xs i" for i by auto
      with kid [OF both _ r(3)] both r show ?thesis unfolding eq by simp
    next
      case s
      then have "i < n \<Longrightarrow> i = l \<or> i = r \<Longrightarrow> pr xs pos \<le> pr xs i" for i by auto
      moreover have "\<not> pr xs l < pr xs pos" "\<not> pr xs r < pr xs pos" using s by simp_all
      ultimately show ?thesis unfolding eq using stay both by simp
    qed
  next
    case left
    show ?thesis
    proof (cases "pr xs l < pr xs pos")
      case True
      have "n \<le> 2 * l + 1" using left by (simp add: lr)
      then have "bubbleDown (swap_list xs pos l) (int n) (int l) = Inr (swap_list xs pos l, int l)"
        using bubbleDown_filled [OF filled_swap [OF f p left(1)] left(1)] by (simp add: Let_def)
      moreover have "i < n \<Longrightarrow> i = l \<or> i = r \<Longrightarrow> pr xs l \<le> pr xs i" for i
        using left by auto
      ultimately show ?thesis
        unfolding eq using kid [OF left(1) _ True] left True by auto
    next
      case False
      then have "i < n \<Longrightarrow> i = l \<or> i = r \<Longrightarrow> pr xs pos \<le> pr xs i" for i using left by auto
      with stay False left show ?thesis unfolding eq by simp
    qed
  next
    case none
    then have "\<not> r < n" by (simp add: lr)
    with none stay show ?thesis unfolding eq by (auto simp: lr)
  qed
qed


section \<open>The whole operations\<close>

lemma mq_wfE:
  assumes "mq_wf q"
  obtains xs n where "mq_heap q = Ptr xs" "mq_top q = int n" "filled n xs"
    "mq_queueSize q = int (length xs)" "\<not> mq_qlock q" "mq_array q = xs"
proof -
  from assms obtain xs where "mq_heap q = Ptr xs" "0 \<le> mq_top q" "filled (nat (mq_top q)) xs"
    "mq_queueSize q = int (length xs)" "\<not> mq_qlock q" by (auto simp: mq_wf_def)
  then show ?thesis by (intro that [of xs "nat (mq_top q)"]) (auto simp: mq_array_def)
qed

lemma size_mq_bag: "mq_wf q \<Longrightarrow> size (mq_bag q) = nat (mq_top q)"
  by (elim mq_wfE) (auto simp: mq_bag_def filled_def)

lemma mixerQueueEmpty_bag: "mq_wf q \<Longrightarrow> mixerQueueEmpty q \<longleftrightarrow> mq_bag q = {#}"
  by (elim mq_wfE) (auto simp: mq_bag_def filled_def mixerQueueEmpty_def)

lemma mixerQueueInit_wf: "mq_wf (mixerQueueInit s q)" "mq_bag (mixerQueueInit s q) = {#}"
    "mq_queueSize (mixerQueueInit s q) = int s"
  by (auto simp: mixerQueueInit_def mq_wf_def mq_bag_def filled_def)

lemma filled_put: "filled n xs \<Longrightarrow> n < length xs \<Longrightarrow> filled (Suc n) (xs[n := Some e])"
  by (auto simp: filled_def nth_list_update less_Suc_eq)

lemma pr_put: "n < length xs \<Longrightarrow> i < n \<Longrightarrow> pr (xs[n := Some e]) i = pr xs i"
  by simp

lemma up_order_put:
  assumes o: "up_order n xs" and n: "n < length xs"
  shows "up_order_but (Suc n) n (xs[n := Some e])"
  unfolding up_order_but_def
proof (intro conjI allI impI, goal_cases)
  case (1 i)
  then have "i < n" "up_parent i < n" "0 < i" by auto
  with o n show ?case by (simp add: up_order_def)
next
  case (2 i)
  then have "up_parent i < n" by auto
  with 2 show ?case by simp
qed

lemma mixerEnqueue_ok:
  assumes wf: "mq_wf q" and room: "mq_top q < mq_queueSize q"
  shows "\<exists>q'. mixerEnqueue e q = Inr q' \<and> mq_wf q' \<and> mq_bag q' = add_mset e (mq_bag q) \<and>
     mq_top q' = mq_top q + 1 \<and> mq_queueSize q' = mq_queueSize q \<and>
     (0 < mq_top q \<longrightarrow> mq_array q' ! 0 = mq_array q ! 0) \<and>
     (up_order (nat (mq_top q)) (mq_array q) \<longrightarrow> up_order (nat (mq_top q')) (mq_array q'))"
  using wf
proof (rule mq_wfE)
  fix xs n
  assume q: "mq_heap q = Ptr xs" "mq_top q = int n" "filled n xs"
    "mq_queueSize q = int (length xs)" "\<not> mq_qlock q" "mq_array q = xs"
  let ?xs = "xs[n := Some e]"
  have n: "n < length xs" using room q by simp
  have f: "filled (Suc n) ?xs" using filled_put [OF q(3) n] .
  obtain ys p where ys: "bubbleUp ?xs (int n) = Inr (ys, int p)" "shuffled (Suc n) ?xs ys"
    "0 < n \<longrightarrow> ys ! 0 = ?xs ! 0" "up_order_but (Suc n) n ?xs \<longrightarrow> up_order (Suc n) ys"
    using bubbleUp_ok [OF f, of n] by auto
  let ?q = "q\<lparr>mq_heap := Ptr ys, mq_top := int n + 1, mq_qlock := False\<rparr>"
  have nat1: "nat (int n + 1) = Suc n" by simp
  have run: "mixerEnqueue e q = Inr ?q"
    using q n ys by (simp add: mixerEnqueue_def Let_def)
  have "mset (take (Suc n) ys) = add_mset (Some e) (mset (take n xs))"
  proof -
    have "mset (take (Suc n) ?xs) = add_mset (Some e) (mset (take n xs))"
      using n by (simp add: take_Suc_conv_app_nth)
    then show ?thesis using ys(2) by (simp add: shuffled_def)
  qed
  then have "mq_bag ?q = add_mset e (mq_bag q)"
    using q by (simp add: mq_bag_def mq_array_def nat1)
  moreover have "mq_wf ?q"
    using q ys(2) by (auto simp: mq_wf_def shuffled_def nat1)
  moreover have "up_order n xs \<longrightarrow> up_order (Suc n) ys"
    using ys(4) up_order_put [OF _ n] by blast
  ultimately show ?thesis
    using run q ys(3) by (auto simp: mq_array_def nat1)
qed

lemma min_heap_but_root:
  assumes "min_heap (Suc n) xs" and "0 < n" and "n < length xs"
  shows "min_heap_but n 0 (xs[0 := xs ! n])"
  using assms by (auto simp: min_heap_def min_heap_but_def nth_list_update)

lemma mixerDequeue_ok:
  assumes wf: "mq_wf q" and some: "\<not> mixerQueueEmpty q"
  shows "\<exists>e q'. mixerDequeue q = Inr (Some e, q') \<and> mq_wf q' \<and> mq_bag q = add_mset e (mq_bag q') \<and>
     Some e = mq_array q ! 0 \<and> mq_top q' = mq_top q - 1 \<and> mq_queueSize q' = mq_queueSize q \<and>
     (min_heap (nat (mq_top q)) (mq_array q) \<longrightarrow> min_heap (nat (mq_top q')) (mq_array q'))"
  using wf
proof (rule mq_wfE)
  fix xs k
  assume q: "mq_heap q = Ptr xs" "mq_top q = int k" "filled k xs"
    "mq_queueSize q = int (length xs)" "\<not> mq_qlock q" "mq_array q = xs"
  then obtain n where k: "k = Suc n" using some by (cases k) (auto simp: mixerQueueEmpty_def)
  have n: "n < length xs" using q k by (simp add: filled_def)
  obtain e where e: "xs ! 0 = Some e" using filledD [OF q(3)] k by auto
  let ?xs = "xs[0 := xs ! n]"
  have f: "filled n ?xs" 
  proof -
    have x0: "?xs ! 0 = xs ! n" by (rule nth_list_update_eq) (use n in linarith)
    have "?xs ! i \<noteq> None" if "i < n" for i
      using q(3) that n by (cases "i = 0") (simp_all add: filled_def k x0)
    then show ?thesis using n by (simp add: filled_def)
  qed
  have "\<exists>ys p. bubbleDown ?xs (int n) 0 = Inr (ys, int p) \<and> shuffled n ?xs ys \<and>
      (min_heap (Suc n) xs \<longrightarrow> min_heap n ys)"
  proof (cases "n = 0")
    case True
    then show ?thesis
      using f by (subst bubbleDown.simps) (auto simp: min_heap_def intro: exI [of _ 0])
  next
    case False
    then have "min_heap (Suc n) xs \<longrightarrow> min_heap_but n 0 ?xs"
      using min_heap_but_root [of n xs] n by simp
    moreover have "0 < n" using False by simp
    moreover have z: "int 0 = 0" by simp
    ultimately show ?thesis using bubbleDown_ok [OF f, of 0] unfolding z by blast
  qed
  then obtain ys p where ys: "bubbleDown ?xs (int n) 0 = Inr (ys, int p)" "shuffled n ?xs ys"
    "min_heap (Suc n) xs \<longrightarrow> min_heap n ys" by blast
  let ?q = "q\<lparr>mq_heap := Ptr ys, mq_top := int n, mq_qlock := False\<rparr>"
  have nat1: "nat (1 + int n) = Suc n" by simp
  have "xs \<noteq> []" using n by auto
  then have "aget xs 0 = Inr (xs ! 0)" "aset xs 0 (xs ! n) = Inr ?xs"
    by (simp_all add: aget_def aset_def)
  then have run: "mixerDequeue q = Inr (Some e, ?q)"
    using q k n ys e by (simp add: mixerDequeue_def Let_def)
  have "mset (take (Suc n) xs) = add_mset (Some e) (mset (take n ys))"
  proof (cases n)
    case 0
    with n e show ?thesis by (cases xs) auto
  next
    case (Suc m)
    then have "mset (take n ys) = mset ((take n xs)[0 := xs ! n])"
      using ys(2) n by (simp add: shuffled_def take_update_swap)
    also have "\<dots> = add_mset (xs ! n) (mset (take n xs) - {#Some e#})"
      using n Suc e by (subst mset_update) auto
    finally have ys': "mset (take n ys) = add_mset (xs ! n) (mset (take n xs) - {#Some e#})" .
    have "Some e \<in> set (take n xs)"
      using n Suc e by (auto simp: in_set_conv_nth intro!: exI [of _ 0])
    then obtain R where R: "mset (take n xs) = add_mset (Some e) R"
      by (metis multi_member_split set_mset_mset)
    have "mset (take (Suc n) xs) = add_mset (xs ! n) (mset (take n xs))"
      using n by (simp add: take_Suc_conv_app_nth)
    then show ?thesis unfolding ys' R by simp
  qed
  then have "mq_bag q = add_mset e (mq_bag ?q)"
    using q k by (simp add: mq_bag_def mq_array_def nat1)
  moreover have "mq_wf ?q" using q ys(2) by (auto simp: mq_wf_def shuffled_def)
  ultimately show ?thesis using run q k ys(3) e by (auto simp: mq_array_def nat1)
qed


section \<open>The mixer queue is a bag of events\<close>

text \<open>What \<open>mixerDequeue\<close> returns to a caller that takes the pointer to be valid.\<close>

definition mq_take :: "mixer_queue \<Rightarrow> (ENGINE_EVENT \<times> mixer_queue) result" where
  "mq_take q = bindE (mixerDequeue q) (\<lambda>(p, q').
     case p of None \<Rightarrow> Inl NullDeref | Some e \<Rightarrow> Inr (e, q'))"

interpretation mq: event_bag mixerEnqueue mq_take mq_wf mq_bag "\<lambda>q. nat (mq_queueSize q)"
proof
  fix q e
  assume wf: "mq_wf q" and "size (mq_bag q) < nat (mq_queueSize q)"
  then have "mq_top q < mq_queueSize q" by (simp add: size_mq_bag)
  with mixerEnqueue_ok [OF wf, of e]
  show "\<exists>q'. mixerEnqueue e q = Inr q' \<and> mq_wf q' \<and> mq_bag q' = add_mset e (mq_bag q) \<and>
         nat (mq_queueSize q') = nat (mq_queueSize q)" by auto
next
  fix q
  assume wf: "mq_wf q" and "mq_bag q \<noteq> {#}"
  then have "\<not> mixerQueueEmpty q" by (simp add: mixerQueueEmpty_bag)
  with mixerDequeue_ok [OF wf] obtain e q' where "mixerDequeue q = Inr (Some e, q')" "mq_wf q'"
    "mq_bag q = add_mset e (mq_bag q')" "mq_queueSize q' = mq_queueSize q" by blast
  then show "\<exists>e q'. mq_take q = Inr (e, q') \<and> mq_wf q' \<and> mq_bag q = add_mset e (mq_bag q') \<and>
         nat (mq_queueSize q') = nat (mq_queueSize q)" by (auto simp: mq_take_def)
next
  fix q e
  assume "mq_wf q" and full: "nat (mq_queueSize q) \<le> size (mq_bag q)"
  then show "mixerEnqueue e q = Inl OutOfBounds"
    by (auto elim!: mq_wfE simp: size_mq_bag mixerEnqueue_def aset_def Let_def)
next
  fix q
  assume "mq_wf q" and "mq_bag q = {#}"
  then have "mixerQueueEmpty q" by (simp add: mixerQueueEmpty_bag)
  with \<open>mq_wf q\<close> show "mq_take q = Inl OutOfBounds"
    by (auto elim!: mq_wfE simp: mixerQueueEmpty_def mq_take_def mixerDequeue_def aget_def Let_def)
qed

lemma mq_destroy_loop_ok:
  assumes "mq_wf q"
  shows "\<exists>items q'. mq_destroy_loop freed q = Some (Inr (freed @ items, q')) \<and> mset items = mq_bag q \<and>
           mq_wf q' \<and> mq_bag q' = {#}"
  using assms
proof (induction "size (mq_bag q)" arbitrary: q freed)
  case 0
  then have "mixerQueueEmpty q" by (simp add: mixerQueueEmpty_bag)
  with 0 show ?case by (subst mq_destroy_loop.simps) auto
next
  case (Suc n)
  then have "\<not> mixerQueueEmpty q" by (auto simp: mixerQueueEmpty_bag)
  moreover from this mixerDequeue_ok [OF Suc.prems] obtain e q1 where
    q1: "mixerDequeue q = Inr (Some e, q1)" "mq_wf q1" "mq_bag q = add_mset e (mq_bag q1)" by blast
  moreover from this Suc.hyps(2) have "n = size (mq_bag q1)" by simp
  with Suc.hyps(1) [OF _ q1(2), of "freed @ [e]"] obtain items q' where
    "mq_destroy_loop (freed @ [e]) q1 = Some (Inr (freed @ e # items, q'))"
    "mset items = mq_bag q1" "mq_wf q'" "mq_bag q' = {#}" by auto
  ultimately show ?case
    by (subst mq_destroy_loop.simps) (auto intro!: exI [of _ "e # items"])
qed

text \<open>
  C11.  Conservation.  On a well-formed queue any sequence of enqueues and dequeues that neither exceeds the capacity nor
  takes from the empty queue returns; the queue is well formed afterwards, and the events taken out and those
  still in it are, with their numbers, the ones that were in it and the ones put in.  A sequence
  that does exceed the capacity or takes from the empty queue accesses memory outside the array: the queue does not check,
  its callers have to.
\<close>

theorem mixer_queue_conserves_events:
  assumes "mq_wf q"
  shows "if fits (nat (mq_queueSize q)) (size (mq_bag q)) ops
    then \<exists>out q'. bag_run mixerEnqueue mq_take ops q = Inr (out, q') \<and> mq_wf q' \<and>
      nat (mq_queueSize q') = nat (mq_queueSize q) \<and> mq_bag q' + mset out = mq_bag q + mset (puts_of ops)
    else bag_run mixerEnqueue mq_take ops q = Inl OutOfBounds"
  using mq.bag_run_conserves [OF assms] .

text \<open>
  C12.  Extract-min.  On a queue whose array is a binary min-heap by priority number,
  \<open>mixerDequeue\<close> returns an event with the least number among those waiting, removes exactly
  that event and leaves a binary min-heap.
\<close>

theorem mixerDequeue_extracts_min:
  assumes "mq_wf q" and "\<not> mixerQueueEmpty q" and "min_heap (nat (mq_top q)) (mq_array q)"
  shows "\<exists>e q'. mixerDequeue q = Inr (Some e, q') \<and> (\<forall>x. x \<in># mq_bag q \<longrightarrow> prior e \<le> prior x) \<and>
           mq_bag q = add_mset e (mq_bag q') \<and> mq_wf q' \<and>
           min_heap (nat (mq_top q')) (mq_array q')"
proof -
  from mixerDequeue_ok [OF assms(1,2)] assms(3) obtain e q' where
    e: "mixerDequeue q = Inr (Some e, q')" "mq_wf q'" "mq_bag q = add_mset e (mq_bag q')"
    "Some e = mq_array q ! 0" "min_heap (nat (mq_top q')) (mq_array q')" by blast
  moreover have "prior e \<le> prior x" if "x \<in># mq_bag q" for x
  proof -
    from that obtain y where "y \<in> set (take (nat (mq_top q)) (mq_array q))" "x = the y"
      by (auto simp: mq_bag_def)
    then obtain i where "i < nat (mq_top q)" "x = the (mq_array q ! i)"
      by (auto simp: in_set_conv_nth)
    with min_heap_root [OF assms(3)] e(4) show ?thesis by (metis option.sel)
  qed
  ultimately show ?thesis by blast
qed


text \<open>A two-element queue used to instantiate the properties.\<close>

definition prio_event :: "8 word \<Rightarrow> ENGINE_EVENT" where
  "prio_event p = engineEngineEventCreate\<lparr>event := zero_event\<lparr>e_prior := p\<rparr>\<rparr>"

definition sample_queue :: mixer_queue where
  "sample_queue = \<lparr>mq_heap = Ptr [Some (prio_event 1), Some (prio_event 2), None],
     mq_top = 2, mq_queueSize = 3, mq_qlock = False\<rparr>"

lemma prior_prio_event [simp]: "prior (prio_event p) = unat p"
  by (simp add: prior_def prio_event_def)

lemma sample_queue_facts:
  "mq_wf sample_queue" "\<not> mixerQueueEmpty sample_queue" "\<not> mixerQueueFull sample_queue"
  "min_heap (nat (mq_top sample_queue)) (mq_array sample_queue)"
  "up_order (nat (mq_top sample_queue)) (mq_array sample_queue)"
  "mq_bag sample_queue = {#prio_event 1, prio_event 2#}"
  by (auto simp: sample_queue_def mq_wf_def filled_def mixerQueueEmpty_def mixerQueueFull_def
      min_heap_def up_order_def mq_array_def mq_bag_def less_2_cases_iff take_Cons')

theorem mixer_queue_conserves_events_witness:
  "(\<exists>e d q'. bag_run mixerEnqueue mq_take [Put (prio_event 0), Take, Put (prio_event 5), Take] sample_queue = Inr ([e, d], q') \<and>
     mq_wf q' \<and> mq_bag q' + {#e, d#} = {#prio_event 0, prio_event 1, prio_event 2, prio_event 5#}) \<and>
   bag_run mixerEnqueue mq_take [Put (prio_event 0), Put (prio_event 5)] sample_queue = Inl OutOfBounds"
proof -
  have c: "nat (mq_queueSize sample_queue) = 3" by (simp add: sample_queue_def)
  have len: "length out = 2" if "bag_run mixerEnqueue mq_take [Put x, Take, Put y, Take] q = Inr (out, q')" for out x y q q'
    using that by (auto simp: bindE_eq_Inr_iff)
  have "bag_run mixerEnqueue mq_take [Put (prio_event 0), Put (prio_event 5)] sample_queue = Inl OutOfBounds"
    using mixer_queue_conserves_events [OF sample_queue_facts(1), of "[Put (prio_event 0), Put (prio_event 5)]"]
    by (simp add: c sample_queue_facts(6))
  moreover obtain out q' where r: "bag_run mixerEnqueue mq_take [Put (prio_event 0), Take, Put (prio_event 5), Take] sample_queue = Inr (out, q')"
    "mq_wf q'" "mq_bag q' + mset out = mq_bag sample_queue + mset [prio_event 0, prio_event 5]"
    using mixer_queue_conserves_events [OF sample_queue_facts(1), of "[Put (prio_event 0), Take, Put (prio_event 5), Take]"]
    by (auto simp: c sample_queue_facts(6))
  moreover from len [OF r(1)] obtain e d where "out = [e, d]" by (auto simp: numeral_2_eq_2 length_Suc_conv)
  ultimately show ?thesis by (simp add: sample_queue_facts(6) add_mset_commute)
qed

theorem mixerDequeue_extracts_min_witness:
  "\<exists>e q'. mixerDequeue sample_queue = Inr (Some e, q') \<and> prior e \<le> 1 \<and>
     {#prio_event 1, prio_event 2#} = add_mset e (mq_bag q') \<and> mq_wf q'"
  using mixerDequeue_extracts_min [OF sample_queue_facts(1,2,4)]
  by (auto simp: sample_queue_facts(6))

text \<open>
  Priority inversion.  On a queue that is neither empty nor full, \<open>mixerEnqueue\<close> keeps its
  own heap order (along the parent slot \<open>(pos + 1) / 2\<close>) and yet never touches slot 0: whatever
  the priority of the new event, the next dequeue returns the event it would have returned
  before.
\<close>

theorem mixerEnqueue_never_overtakes:
  assumes "mq_wf q" and "\<not> mixerQueueEmpty q" and "\<not> mixerQueueFull q"
  shows "\<exists>q' e1 r r'. mixerEnqueue e q = Inr q' \<and> mq_wf q' \<and>
           (up_order (nat (mq_top q)) (mq_array q) \<longrightarrow> up_order (nat (mq_top q')) (mq_array q')) \<and>
           mixerDequeue q = Inr (Some e1, r) \<and> mixerDequeue q' = Inr (Some e1, r')"
proof -
  have pos: "0 < mq_top q" and room: "mq_top q < mq_queueSize q"
    using assms by (auto simp: mq_wf_def filled_def mixerQueueEmpty_def mixerQueueFull_def)
  from mixerEnqueue_ok [OF assms(1) room, of e] pos obtain q' where
    q': "mixerEnqueue e q = Inr q'" "mq_wf q'" "mq_top q' = mq_top q + 1"
    "mq_array q' ! 0 = mq_array q ! 0"
    "up_order (nat (mq_top q)) (mq_array q) \<longrightarrow> up_order (nat (mq_top q')) (mq_array q')" by blast
  have "\<not> mixerQueueEmpty q'" using pos q'(3) by (simp add: mixerQueueEmpty_def)
  from mixerDequeue_ok [OF q'(2) this] mixerDequeue_ok [OF assms(1,2)] q' show ?thesis
    by (metis option.inject)
qed

theorem mixerEnqueue_never_overtakes_witness:
  "\<exists>q' r r'. mixerEnqueue (prio_event 0) sample_queue = Inr q' \<and>
     mixerDequeue sample_queue = Inr (Some (prio_event 1), r) \<and>
     mixerDequeue q' = Inr (Some (prio_event 1), r')"
proof -
  from mixerDequeue_ok [OF sample_queue_facts(1,2)] obtain e r where
    "mixerDequeue sample_queue = Inr (Some e, r)" "Some e = mq_array sample_queue ! 0" by blast
  then have "mixerDequeue sample_queue = Inr (Some (prio_event 1), r)"
    by (simp add: mq_array_def sample_queue_def)
  with mixerEnqueue_never_overtakes [OF sample_queue_facts(1,2,3), of "prio_event 0"]
  show ?thesis by fastforce
qed

text \<open>
  Teardown.  \<open>mixerQueueDestroy\<close> on a well-formed queue ends, frees every waiting event
  exactly once, and releases the array; the pointer to it is not cleared, so a second call
  touches freed memory when it frees the array again.
\<close>

theorem mixerQueueDestroy_frees_all:
  assumes "mq_wf q"
  shows "\<exists>freed q'. mixerQueueDestroy q = Inr (freed, q') \<and> mset freed = mq_bag q \<and>
           mq_heap q' = Freed \<and> mixerQueueDestroy q' = Inl UseAfterFree"
proof -
  from mq_destroy_loop_ok [OF assms, of "[]"] obtain items q1 where
    q1: "mq_destroy_loop [] q = Some (Inr (items, q1))" "mset items = mq_bag q" "mq_wf q1"
    "mq_bag q1 = {#}" by auto
  from q1(3) obtain xs where h: "mq_heap q1 = Ptr xs" by (auto simp: mq_wf_def)
  have nn: "mq_heap q \<noteq> Null" using assms by (auto simp: mq_wf_def)
  let ?q = "q1\<lparr>mq_heap := Freed\<rparr>"
  have "mq_top q1 = 0" using q1(3,4) mixerQueueEmpty_bag by (simp add: mixerQueueEmpty_def)
  then have "mq_destroy_loop [] ?q = Some (Inr ([], ?q))"
    by (subst mq_destroy_loop.simps) (simp add: mixerQueueEmpty_def)
  then have "mixerQueueDestroy ?q = Inl UseAfterFree" by (simp add: mixerQueueDestroy_def)
  moreover have "mixerQueueDestroy q = Inr (items, ?q)"
    using q1 h nn by (simp add: mixerQueueDestroy_def)
  ultimately show ?thesis using q1(2) by auto
qed

theorem mixerQueueDestroy_frees_all_witness:
  "\<exists>freed q'. mixerQueueDestroy sample_queue = Inr (freed, q') \<and>
     mset freed = {#prio_event 1, prio_event 2#} \<and> mq_heap q' = Freed \<and>
     mixerQueueDestroy q' = Inl UseAfterFree"
  using mixerQueueDestroy_frees_all [OF sample_queue_facts(1)] by (simp add: sample_queue_facts(6))

end
