(* ===== verification/Sound_Table.thy ===== *)
theory Sound_Table
  imports Event_Types
begin

text \<open>
  engine.c: the table that maps sound names to loaded samples (events) or to mixer slots
  (states), an array of 256 chains.  A chain is the list of its entries from the bucket's
  pointer on.  Shown: the hash is a valid index exactly for the names whose signed byte sum is
  not a negative non-multiple of 256; insertion and lookup satisfy the table contract as long
  as no two names share a bucket; a lookup returns iff its bucket is empty or starts with the
  name, and never returns otherwise, because the loop does not advance.
\<close>

section \<open>Data (engine.h)\<close>

definition ENGINE_SUCCESS :: int where "ENGINE_SUCCESS = 1"
definition ENGINE_NOT_YET_ALLOC :: int where "ENGINE_NOT_YET_ALLOC = -1"
definition ENGINE_ALLOC_FAILED :: int where "ENGINE_ALLOC_FAILED = -2"
definition ENGINE_SOUND_NOT_FOUND :: int where "ENGINE_SOUND_NOT_FOUND = -3"
definition ENGINE_SOUND_EXISTS :: int where "ENGINE_SOUND_EXISTS = -4"

lemmas engine_codes = ENGINE_SUCCESS_def ENGINE_NOT_YET_ALLOC_def ENGINE_ALLOC_FAILED_def
  ENGINE_SOUND_NOT_FOUND_def ENGINE_SOUND_EXISTS_def

definition HASHES :: int where "HASHES = 256"

type_synonym samples = "16 word list"

record EVENT_ENTRY =
  snds :: "samples option list"
  lens :: "32 word list"
  snd_cnt :: "32 word"

record STATE_ENTRY =
  mixer_index :: int

text \<open>The \<open>void *data\<close> of an entry: a pointer to one of two structures, or \<open>NULL\<close>.\<close>

datatype entry_data = EventData EVENT_ENTRY | StateData STATE_ENTRY | NoData

record sound_entry =
  se_name :: string
  se_data :: entry_data
  se_type :: EVENT_TYPE

type_synonym chain = "sound_entry list"
type_synonym sound_table = "chain list ptr"

section \<open>Operations (engine.c)\<close>

definition engineInitSoundTable :: "bool \<Rightarrow> int \<times> sound_table" where
  "engineInitSoundTable alloc_ok =
     (if alloc_ok then (ENGINE_SUCCESS, Ptr (replicate (nat HASHES) []))
      else (ENGINE_ALLOC_FAILED, Null))"

text \<open>The sum of the (signed) characters, reduced by the truncating \<open>%\<close>.\<close>

definition engineSoundHash :: "string \<Rightarrow> int" where
  "engineSoundHash name = c_rem (sum_list (map schar name)) HASHES"

text \<open>
  The loop of \<open>engineSoundTableInsert\<close> from a non-null \<open>p\<close> on: it stops at the last element
  without comparing it.  \<open>None\<close>: an equal name was met.
\<close>

fun chain_append :: "chain \<Rightarrow> sound_entry \<Rightarrow> chain option" where
  "chain_append [] entry = Some [entry]"
| "chain_append [p] entry = Some [p, entry]"
| "chain_append (p # q # r) entry =
     (if strcaseeq (se_name p) (se_name entry) then None
      else map_option ((#) p) (chain_append (q # r) entry))"

definition engineSoundTableInsert :: "sound_entry \<Rightarrow> sound_table \<Rightarrow> (int \<times> sound_table) result" where
  "engineSoundTableInsert entry tab =
     (let index = engineSoundHash (se_name entry) in
      bindE (pget tab) (\<lambda>bs.
      bindE (aget bs index) (\<lambda>b.
      if b = [] then bindE (aset bs index [entry]) (\<lambda>bs'. Inr (ENGINE_SUCCESS, Ptr bs'))
      else case chain_append b entry of
             None \<Rightarrow> Inr (ENGINE_SOUND_EXISTS, tab)
           | Some b' \<Rightarrow> bindE (aset bs index b') (\<lambda>bs'. Inr (ENGINE_SUCCESS, Ptr bs')))))"

definition engineSoundTableInsertEvent ::
  "bool \<Rightarrow> string \<Rightarrow> EVENT_ENTRY \<Rightarrow> sound_table \<Rightarrow> (int \<times> sound_table) result" where
  "engineSoundTableInsertEvent alloc_ok name ev tab =
     (if alloc_ok
      then engineSoundTableInsert \<lparr>se_name = name, se_data = EventData ev, se_type = EVENT_T\<rparr> tab
      else Inl NullDeref)"

definition engineSoundTableInsertState ::
  "bool \<Rightarrow> string \<Rightarrow> STATE_ENTRY \<Rightarrow> sound_table \<Rightarrow> (int \<times> sound_table) result" where
  "engineSoundTableInsertState alloc_ok name st tab =
     (if alloc_ok
      then engineSoundTableInsert \<lparr>se_name = name, se_data = StateData st, se_type = STATE_T\<rparr> tab
      else Inl NullDeref)"

text \<open>
  The loop of \<open>engineSoundTableRetrieve\<close>.  Its step expression is \<open>p ->next\<close>, which computes the
  successor and discards it, so the next turn starts from the same \<open>p\<close>.
\<close>

partial_function (option) retrieve_loop :: "chain \<Rightarrow> string \<Rightarrow> sound_entry option option" where
  "retrieve_loop p name =
     (case p of
        [] \<Rightarrow> Some None
      | e # _ \<Rightarrow> if strcaseeq (se_name e) name then Some (Some e) else retrieve_loop p name)"

definition engineSoundTableRetrieve :: "string \<Rightarrow> sound_table \<Rightarrow> sound_entry option result" where
  "engineSoundTableRetrieve name tab =
     (let index = engineSoundHash name in
      bindE (pget tab) (\<lambda>bs.
      bindE (aget bs index) (\<lambda>p.
      loopE (map_option Inr (retrieve_loop p name)))))"

definition engineSoundTableDataRetrieve :: "string \<Rightarrow> sound_table \<Rightarrow> entry_data result" where
  "engineSoundTableDataRetrieve name tab =
     bindE (engineSoundTableRetrieve name tab) (\<lambda>p.
     case p of None \<Rightarrow> Inr NoData | Some e \<Rightarrow> Inr (se_data e))"

text \<open>
  \<open>(EVENT_ENTRY *) data\<close> followed by a field access: reading it from the smaller \<open>STATE_ENTRY\<close>
  leaves that object.
\<close>

fun as_event_entry :: "entry_data \<Rightarrow> EVENT_ENTRY result" where
  "as_event_entry (EventData ev) = Inr ev"
| "as_event_entry (StateData st) = Inl OutOfBounds"
| "as_event_entry NoData = Inl NullDeref"

definition engineGetNoEventSnds :: "string \<Rightarrow> sound_table \<Rightarrow> int result" where
  "engineGetNoEventSnds sound tab =
     bindE (engineSoundTableRetrieve sound tab) (\<lambda>p.
     case p of
       None \<Rightarrow> Inr ENGINE_SOUND_NOT_FOUND
     | Some entry \<Rightarrow>
         if se_type entry \<noteq> EVENT_T then Inr ENGINE_SOUND_NOT_FOUND
         else bindE (as_event_entry (se_data entry)) (\<lambda>e. Inr (sint (snd_cnt e))))"

text \<open>
  The condition of \<open>engineSetNoEventSnds\<close> guards an empty statement; the \<open>return\<close> after it is
  unconditional and the assignment is never reached.
\<close>

definition engineSetNoEventSnds ::
  "string \<Rightarrow> 32 word \<Rightarrow> sound_table \<Rightarrow> (int \<times> sound_table) result" where
  "engineSetNoEventSnds sound value tab =
     (if tab = Null then Inr (ENGINE_NOT_YET_ALLOC, tab)
      else bindE (engineSoundTableRetrieve sound tab) (\<lambda>entry. Inr (ENGINE_SOUND_NOT_FOUND, tab)))"

definition engineAllocEventEntry :: "bool \<Rightarrow> nat \<Rightarrow> EVENT_ENTRY option" where
  "engineAllocEventEntry alloc_ok no_events =
     (if alloc_ok
      then Some \<lparr>snds = replicate no_events None, lens = replicate no_events 0,
                 snd_cnt = of_nat no_events\<rparr>
      else None)"

definition engineEventEntryAssignSnd ::
  "EVENT_ENTRY option \<Rightarrow> int \<Rightarrow> samples option \<Rightarrow> 32 word \<Rightarrow> (int \<times> EVENT_ENTRY option) result" where
  "engineEventEntryAssignSnd entry event_no sound len =
     (case entry of
        None \<Rightarrow> Inr (ENGINE_NOT_YET_ALLOC, entry)
      | Some e \<Rightarrow>
          bindE (aset (snds e) event_no sound) (\<lambda>ss.
          bindE (aset (lens e) event_no len) (\<lambda>ls.
          Inr (ENGINE_SUCCESS, Some (e\<lparr>snds := ss, lens := ls\<rparr>)))))"

definition engineGetEventSnd :: "string \<Rightarrow> int \<Rightarrow> sound_table \<Rightarrow> samples option result" where
  "engineGetEventSnd name num tab =
     bindE (engineSoundTableRetrieve name tab) (\<lambda>p.
     case p of
       None \<Rightarrow> Inr None
     | Some entry \<Rightarrow> bindE (as_event_entry (se_data entry)) (\<lambda>e. aget (snds e) num))"

definition engineGetEventSndLen :: "string \<Rightarrow> int \<Rightarrow> sound_table \<Rightarrow> 32 word result" where
  "engineGetEventSndLen name num tab =
     bindE (engineSoundTableRetrieve name tab) (\<lambda>p.
     case p of
       None \<Rightarrow> Inr 0
     | Some entry \<Rightarrow> bindE (as_event_entry (se_data entry)) (\<lambda>e. aget (lens e) num))"

definition engineAllocStateEntry :: "bool \<Rightarrow> int \<Rightarrow> STATE_ENTRY option" where
  "engineAllocStateEntry alloc_ok index = (if alloc_ok then Some \<lparr>mixer_index = index\<rparr> else None)"

text \<open>
  What \<open>engineSoundTableDestroy\<close> frees for one entry: the samples \<open>0 .. snd_cnt - 1\<close> of an
  event entry (the access is checked against the array), then the entry itself.
\<close>

definition free_event_samples :: "EVENT_ENTRY \<Rightarrow> samples list result" where
  "free_event_samples e =
     (if unat (snd_cnt e) \<le> length (snds e)
      then Inr (List.map_filter id (take (unat (snd_cnt e)) (snds e)))
      else Inl OutOfBounds)"

definition destroy_entry :: "sound_entry \<Rightarrow> (sound_entry \<times> samples list) result" where
  "destroy_entry p =
     bindE (if se_type p = EVENT_T then bindE (as_event_entry (se_data p)) free_event_samples
            else Inr []) (\<lambda>fs. Inr (p, fs))"

fun destroy_chain :: "chain \<Rightarrow> (sound_entry \<times> samples list) list result" where
  "destroy_chain [] = Inr []"
| "destroy_chain (p # q) =
     bindE (destroy_entry p) (\<lambda>f. bindE (destroy_chain q) (\<lambda>fs. Inr (f # fs)))"

fun destroy_buckets :: "chain list \<Rightarrow> (sound_entry \<times> samples list) list result" where
  "destroy_buckets [] = Inr []"
| "destroy_buckets (b # bs) =
     bindE (destroy_chain b) (\<lambda>f. bindE (destroy_buckets bs) (\<lambda>fs. Inr (f @ fs)))"

definition engineSoundTableDestroy ::
  "sound_table \<Rightarrow> ((sound_entry \<times> samples list) list \<times> sound_table) result" where
  "engineSoundTableDestroy tab =
     (if tab = Null then Inr ([], tab)
      else bindE (pget tab) (\<lambda>bs. bindE (destroy_buckets bs) (\<lambda>fs. Inr (fs, Null))))"


section \<open>The hash\<close>

text \<open>The bucket of a name, when its hash is a valid index.\<close>

definition hashable :: "string \<Rightarrow> bool" where
  "hashable name \<longleftrightarrow> 0 \<le> engineSoundHash name"

definition slot :: "string \<Rightarrow> nat" where
  "slot name = nat (engineSoundHash name)"

lemma engineSoundHash_bounds: "- HASHES < engineSoundHash name" "engineSoundHash name < HASHES"
proof -
  let ?s = "sum_list (map schar name)"
  have "- 256 < c_rem ?s 256 \<and> c_rem ?s 256 < 256"
    by (cases "0 \<le> ?s") (auto simp: c_rem_neg intro: order.strict_trans2 [of _ 0])
  then show "- HASHES < engineSoundHash name" "engineSoundHash name < HASHES"
    by (auto simp: engineSoundHash_def HASHES_def)
qed

lemma hashable_iff:
  "hashable name \<longleftrightarrow> 0 \<le> sum_list (map schar name) \<or> 256 dvd sum_list (map schar name)"
proof (cases "0 \<le> sum_list (map schar name)")
  case False
  let ?s = "sum_list (map schar name)"
  have nn: "0 \<le> (- ?s) mod 256" by simp
  have "engineSoundHash name = - ((- ?s) mod 256)"
    using False by (simp add: engineSoundHash_def HASHES_def c_rem_neg)
  then have "hashable name \<longleftrightarrow> (- ?s) mod 256 = 0" using nn unfolding hashable_def by linarith
  then show ?thesis using False by (simp add: dvd_eq_mod_eq_0 [symmetric])
qed (simp add: hashable_def engineSoundHash_def HASHES_def)

lemma ascii_hashable: "\<forall>c\<in>set name. code c < 128 \<Longrightarrow> hashable name"
  by (auto simp: hashable_iff schar_def Let_def intro!: sum_list_nonneg)

lemma slot_less: "slot name < 256"
  using engineSoundHash_bounds [of name] by (simp add: slot_def HASHES_def nat_less_iff)

lemma aget_bucket: "hashable n \<Longrightarrow> length bs = 256 \<Longrightarrow> aget bs (engineSoundHash n) = Inr (bs ! slot n)"
  using slot_less [of n] by (simp add: aget_def hashable_def slot_def)

lemma aset_bucket:
  "hashable n \<Longrightarrow> length bs = 256 \<Longrightarrow> aset bs (engineSoundHash n) v = Inr (bs[slot n := v])"
  using slot_less [of n] by (simp add: aset_def hashable_def slot_def)

lemma unhashable_access:
  assumes "\<not> hashable n"
  shows "aget bs (engineSoundHash n) = Inl OutOfBounds"
  using assms by (simp add: aget_def hashable_def)

section \<open>Lookup\<close>

lemma retrieve_loop_stuck:
  assumes "\<not> strcaseeq (se_name e) name"
  shows "retrieve_loop (e # r) name = None"
proof -
  have "p = [] \<or> strcaseeq (se_name (hd p)) n" if "retrieve_loop p n = Some y" for p n y
    by (rule retrieve_loop.raw_induct [OF _ that])
      (fastforce split: list.splits if_splits)
  from this [of "e # r" name] assms show ?thesis by (cases "retrieve_loop (e # r) name") auto
qed

lemma retrieve_loop_Nil: "retrieve_loop [] name = Some None"
  by (subst retrieve_loop.simps) simp

lemma retrieve_loop_Cons:
  "retrieve_loop (e # r) name = (if strcaseeq (se_name e) name then Some (Some e) else None)"
proof (cases "strcaseeq (se_name e) name")
  case True
  then show ?thesis by (subst retrieve_loop.simps) simp
qed (simp add: retrieve_loop_stuck)

definition table_wf :: "sound_table \<Rightarrow> bool" where
  "table_wf tab \<longleftrightarrow> (\<exists>bs. tab = Ptr bs \<and> length bs = 256)"

definition bucket :: "nat \<Rightarrow> sound_table \<Rightarrow> chain" where
  "bucket i tab = (case tab of Ptr bs \<Rightarrow> bs ! i | _ \<Rightarrow> [])"

lemma retrieve_eq:
  assumes "table_wf tab"
  shows "engineSoundTableRetrieve name tab =
     (if \<not> hashable name then Inl OutOfBounds
      else case bucket (slot name) tab of
             [] \<Rightarrow> Inr None
           | e # _ \<Rightarrow> if strcaseeq (se_name e) name then Inr (Some e) else Inl Diverges)"
  using assms
  by (auto simp: table_wf_def engineSoundTableRetrieve_def Let_def aget_bucket unhashable_access
      bucket_def retrieve_loop_Nil retrieve_loop_Cons split: list.splits)

lemma insert_vacant:
  assumes wf: "table_wf tab" and h: "hashable (se_name e)" and v: "bucket (slot (se_name e)) tab = []"
  shows "\<exists>tab'. engineSoundTableInsert e tab = Inr (ENGINE_SUCCESS, tab') \<and> table_wf tab' \<and>
           (\<forall>i. bucket i tab' = (if i = slot (se_name e) then [e] else bucket i tab))"
proof -
  from wf obtain bs where bs: "tab = Ptr bs" "length bs = 256" by (auto simp: table_wf_def)
  let ?t = "Ptr (bs[slot (se_name e) := [e]])"
  have "engineSoundTableInsert e tab = Inr (ENGINE_SUCCESS, ?t)"
    using bs h v by (simp add: engineSoundTableInsert_def Let_def aget_bucket aset_bucket bucket_def)
  moreover have "table_wf ?t" using bs by (simp add: table_wf_def)
  moreover have "bucket i ?t = (if i = slot (se_name e) then [e] else bucket i tab)" for i
    using bs slot_less [of "se_name e"] by (simp add: bucket_def)
  ultimately show ?thesis by blast
qed

lemma insert_second:
  assumes wf: "table_wf tab" and h: "hashable (se_name e)" and v: "bucket (slot (se_name e)) tab = [d]"
  shows "\<exists>tab'. engineSoundTableInsert e tab = Inr (ENGINE_SUCCESS, tab') \<and> table_wf tab' \<and>
           bucket (slot (se_name e)) tab' = [d, e]"
  using assms slot_less [of "se_name e"]
  by (auto simp: table_wf_def engineSoundTableInsert_def Let_def aget_bucket aset_bucket bucket_def)

lemma chain_append_head: "chain_append (p # r) e = Some b \<Longrightarrow> \<exists>r'. b = p # r'"
  by (cases r) (auto split: if_splits)

definition vacant_slot :: "nat \<Rightarrow> sound_table \<Rightarrow> bool" where
  "vacant_slot s t \<longleftrightarrow> (s < 256 \<longrightarrow> bucket s t = [])"

text \<open>
  What lookups find after an insertion: in the slot of the new entry, when it was free, the entry or
  nothing at all; otherwise what they found before, so an entry that goes to a slot in use is never
  found, whether or not the slot held its name.
\<close>

definition found_after :: "sound_entry \<Rightarrow> sound_table \<Rightarrow> string \<Rightarrow> sound_entry option result" where
  "found_after e tab k =
     (if hashable k \<and> slot k = slot (se_name e) \<and> vacant_slot (slot (se_name e)) tab
      then if strcaseeq (se_name e) k then Inr (Some e) else Inl Diverges
      else engineSoundTableRetrieve k tab)"

lemma insert_outcome:
  assumes "table_wf tab"
  shows "if hashable (se_name e)
    then \<exists>rc tab'. engineSoundTableInsert e tab = Inr (rc, tab') \<and> table_wf tab' \<and>
      (\<forall>k. engineSoundTableRetrieve k tab' = found_after e tab k)
    else engineSoundTableInsert e tab = Inl OutOfBounds"
proof (cases "hashable (se_name e)")
  case True
  from assms obtain bs where bs: "tab = Ptr bs" "length bs = 256" by (auto simp: table_wf_def)
  have len: "slot (se_name e) < length bs" using bs(2) slot_less by simp
  have wf: "table_wf (Ptr (bs[slot (se_name e) := b]))" for b using bs(2) by (simp add: table_wf_def)
  have get: "aget bs (engineSoundHash (se_name e)) = Inr (bs ! slot (se_name e))"
    and set: "\<And>b. aset bs (engineSoundHash (se_name e)) b = Inr (bs[slot (se_name e) := b])"
    using aget_bucket [OF True bs(2)] aset_bucket [OF True bs(2)] by blast+
  show ?thesis
  proof (cases "bucket (slot (se_name e)) tab")
    case Nil
    from insert_vacant [OF assms True this] obtain tab' where
      "engineSoundTableInsert e tab = Inr (ENGINE_SUCCESS, tab')" and wf': "table_wf tab'" and
      "\<And>i. bucket i tab' = (if i = slot (se_name e) then [e] else bucket i tab)" by blast
    with Nil True retrieve_eq [OF wf'] retrieve_eq [OF assms] show ?thesis
      by (auto simp: found_after_def vacant_slot_def)
  next
    case (Cons p r)
    then have b: "bs ! slot (se_name e) = p # r" using bs(1) by (simp add: bucket_def)
    show ?thesis
    proof (cases "chain_append (p # r) e")
      case None
      then show ?thesis
        using True assms b bs(1) get Cons
        by (simp add: engineSoundTableInsert_def Let_def found_after_def vacant_slot_def slot_less)
    next
      case (Some b')
      from chain_append_head [OF Some] obtain r' where b': "b' = p # r'" by blast
      let ?t = "Ptr (bs[slot (se_name e) := b'])"
      have "engineSoundTableInsert e tab = Inr (ENGINE_SUCCESS, ?t)"
        using b bs(1) get set Some by (simp add: engineSoundTableInsert_def Let_def)
      moreover have "engineSoundTableRetrieve k ?t = engineSoundTableRetrieve k tab" for k
        unfolding retrieve_eq [OF wf] retrieve_eq [OF assms]
        using b b' bs(1) len by (cases "slot k = slot (se_name e)") (simp_all add: bucket_def)
      ultimately show ?thesis using True wf Cons by (auto simp: found_after_def vacant_slot_def slot_less)
    qed
  qed
next
  case False
  with assms show ?thesis
    by (auto simp: table_wf_def engineSoundTableInsert_def Let_def unhashable_access)
qed

lemma initial_table:
  "table_wf (snd (engineInitSoundTable True))" "i < 256 \<Longrightarrow> bucket i (snd (engineInitSoundTable True)) = []"
  by (auto simp: engineInitSoundTable_def table_wf_def bucket_def HASHES_def)

section \<open>The table contract\<close>

text \<open>
  What the loader and the engine expect of the table, as long as every name has a slot of its
  own.
\<close>

locale name_table =
  fixes ins :: "'e \<Rightarrow> 't \<Rightarrow> ('c \<times> 't) result"
    and lookup :: "'k \<Rightarrow> 't \<Rightarrow> 'e option result"
    and key :: "'e \<Rightarrow> 'k"
    and place :: "'k \<Rightarrow> 's"
    and same :: "'k \<Rightarrow> 'k \<Rightarrow> bool"
    and valid :: "'k \<Rightarrow> bool"
    and inv :: "'t \<Rightarrow> bool"
    and vacant :: "'s \<Rightarrow> 't \<Rightarrow> bool"
    and success :: 'c
  assumes ins_vacant: "inv t \<Longrightarrow> valid (key e) \<Longrightarrow> vacant (place (key e)) t \<Longrightarrow>
      \<exists>t'. ins e t = Inr (success, t') \<and> inv t' \<and>
           (\<forall>k. valid k \<longrightarrow> place k = place (key e) \<longrightarrow> same (key e) k \<longrightarrow> lookup k t' = Inr (Some e)) \<and>
           (\<forall>k. valid k \<longrightarrow> place k \<noteq> place (key e) \<longrightarrow> lookup k t' = lookup k t) \<and>
           (\<forall>s. vacant s t' \<longleftrightarrow> s \<noteq> place (key e) \<and> vacant s t)"
    and lookup_vacant: "inv t \<Longrightarrow> valid k \<Longrightarrow> vacant (place k) t \<Longrightarrow> lookup k t = Inr None"
    and same_refl: "same k k"
begin

fun load :: "'e list \<Rightarrow> 't \<Rightarrow> 't result" where
  "load [] t = Inr t"
| "load (e # es) t = bindE (ins e t) (\<lambda>(c, t'). load es t')"

lemma load_other:
  assumes "inv t" and "\<forall>e\<in>set es. valid (key e) \<and> vacant (place (key e)) t"
    and "distinct (map (place \<circ> key) es)"
  shows "\<exists>t'. load es t = Inr t' \<and> inv t' \<and>
      (\<forall>k. valid k \<longrightarrow> place k \<notin> (place \<circ> key) ` set es \<longrightarrow> lookup k t' = lookup k t) \<and>
      (\<forall>e\<in>set es. lookup (key e) t' = Inr (Some e))"
  using assms
proof (induction es arbitrary: t)
  case (Cons e es)
  then obtain t1 where t1: "ins e t = Inr (success, t1)" "inv t1"
      "\<forall>k. valid k \<longrightarrow> place k = place (key e) \<longrightarrow> same (key e) k \<longrightarrow> lookup k t1 = Inr (Some e)"
      "\<forall>k. valid k \<longrightarrow> place k \<noteq> place (key e) \<longrightarrow> lookup k t1 = lookup k t"
      "\<forall>s. vacant s t1 \<longleftrightarrow> s \<noteq> place (key e) \<and> vacant s t"
    using ins_vacant [of t e] by auto
  have "\<forall>d\<in>set es. valid (key d) \<and> vacant (place (key d)) t1"
    using Cons.prems t1(5) by (auto simp: image_iff)
  with Cons.IH [OF t1(2)] Cons.prems(3) obtain t' where t': "load es t1 = Inr t'" "inv t'"
      "\<forall>k. valid k \<longrightarrow> place k \<notin> (place \<circ> key) ` set es \<longrightarrow> lookup k t' = lookup k t1"
      "\<forall>e\<in>set es. lookup (key e) t' = Inr (Some e)" by auto
  have "lookup (key e) t' = Inr (Some e)"
    using t'(3) t1(3) same_refl Cons.prems by auto
  with t' t1 show ?case by auto
qed simp

lemma load_finds:
  assumes "inv t" and "\<And>s. vacant s t" and "\<forall>e\<in>set es. valid (key e)"
    and "distinct (map (place \<circ> key) es)"
  shows "\<exists>t'. load es t = Inr t' \<and> inv t' \<and> (\<forall>e\<in>set es. lookup (key e) t' = Inr (Some e)) \<and>
      (\<forall>k. valid k \<longrightarrow> place k \<notin> (place \<circ> key) ` set es \<longrightarrow> lookup k t' = Inr None)"
proof -
  from load_other [OF assms(1) _ assms(4)] assms(2,3) obtain t' where "load es t = Inr t'" "inv t'"
    "\<forall>k. valid k \<longrightarrow> place k \<notin> (place \<circ> key) ` set es \<longrightarrow> lookup k t' = lookup k t"
    "\<forall>e\<in>set es. lookup (key e) t' = Inr (Some e)" by blast
  with lookup_vacant [OF assms(1)] assms(2) show ?thesis by auto
qed

end

text \<open>The whole set of entries of a theme inserted one after the other.\<close>

fun load_entries :: "sound_entry list \<Rightarrow> sound_table \<Rightarrow> sound_table result" where
  "load_entries [] t = Inr t"
| "load_entries (e # es) t = bindE (engineSoundTableInsert e t) (\<lambda>(c, t'). load_entries es t')"

interpretation st: name_table engineSoundTableInsert engineSoundTableRetrieve se_name slot strcaseeq
  hashable table_wf vacant_slot ENGINE_SUCCESS
proof
  fix t :: sound_table and e :: sound_entry
  assume wf: "table_wf t" and h: "hashable (se_name e)" and v: "vacant_slot (slot (se_name e)) t"
  from v have "bucket (slot (se_name e)) t = []" by (simp add: vacant_slot_def slot_less)
  from insert_vacant [OF wf h this] obtain t' where
    t': "engineSoundTableInsert e t = Inr (ENGINE_SUCCESS, t')" "table_wf t'"
    "\<And>i. bucket i t' = (if i = slot (se_name e) then [e] else bucket i t)" by blast
  then show "\<exists>t'. engineSoundTableInsert e t = Inr (ENGINE_SUCCESS, t') \<and> table_wf t' \<and>
      (\<forall>k. hashable k \<longrightarrow> slot k = slot (se_name e) \<longrightarrow> strcaseeq (se_name e) k \<longrightarrow>
           engineSoundTableRetrieve k t' = Inr (Some e)) \<and>
      (\<forall>k. hashable k \<longrightarrow> slot k \<noteq> slot (se_name e) \<longrightarrow>
           engineSoundTableRetrieve k t' = engineSoundTableRetrieve k t) \<and>
      (\<forall>s. vacant_slot s t' \<longleftrightarrow> s \<noteq> slot (se_name e) \<and> vacant_slot s t)"
    by (intro exI [of _ t']) (auto simp: retrieve_eq wf vacant_slot_def slot_less)
next
  fix t k
  assume "table_wf t" "hashable k" "vacant_slot (slot k) t"
  then show "engineSoundTableRetrieve k t = Inr None"
    by (simp add: retrieve_eq vacant_slot_def slot_less)
qed simp

lemma load_entries_eq: "st.load es t = load_entries es t"
  by (induction es arbitrary: t) (auto intro!: bindE_cong)

abbreviation fresh_table :: sound_table where
  "fresh_table \<equiv> snd (engineInitSoundTable True)"

lemma fresh_vacant: "vacant_slot s fresh_table"
  by (simp add: vacant_slot_def initial_table)

definition state_sound :: "string \<Rightarrow> int \<Rightarrow> sound_entry" where
  "state_sound name i =
     \<lparr>se_name = name, se_data = StateData \<lparr>mixer_index = i\<rparr>, se_type = STATE_T\<rparr>"

lemmas hash_eval = hashable_def slot_def engineSoundHash_def HASHES_def schar_def code_def Let_def

text \<open>
  C29.  Insert/lookup.  Entries whose names have valid, pairwise different hashes load into a fresh
  table without a fault, and then the lookup of every name that can be hashed is determined: in the
  slot of an entry, the name of that entry (up to case) finds the entry and any other name makes the
  lookup run forever; in the other slots every name is reported missing.
\<close>

theorem sound_table_load_lookup:
  assumes "\<forall>e\<in>set es. hashable (se_name e)" and "distinct (map (slot \<circ> se_name) es)"
  shows "\<exists>t. load_entries es fresh_table = Inr t \<and>
      (\<forall>e\<in>set es. \<forall>k. hashable k \<longrightarrow> slot k = slot (se_name e) \<longrightarrow>
           engineSoundTableRetrieve k t =
             (if strcaseeq (se_name e) k then Inr (Some e) else Inl Diverges)) \<and>
      (\<forall>k. hashable k \<longrightarrow> slot k \<notin> slot ` se_name ` set es \<longrightarrow>
           engineSoundTableRetrieve k t = Inr None)"
proof -
  from st.load_finds [OF initial_table(1) fresh_vacant assms] obtain t where
    t: "load_entries es fresh_table = Inr t" "table_wf t"
    "\<forall>e\<in>set es. engineSoundTableRetrieve (se_name e) t = Inr (Some e)"
    "\<forall>k. hashable k \<longrightarrow> slot k \<notin> slot ` se_name ` set es \<longrightarrow> engineSoundTableRetrieve k t = Inr None"
    by (auto simp: load_entries_eq image_comp)
  have "engineSoundTableRetrieve k t = (if strcaseeq (se_name e) k then Inr (Some e) else Inl Diverges)"
    if e: "e \<in> set es" and k: "hashable k" "slot k = slot (se_name e)" for e k
  proof -
    have "engineSoundTableRetrieve (se_name e) t = Inr (Some e)" using t(3) e by blast
    then obtain r where "bucket (slot (se_name e)) t = e # r"
      unfolding retrieve_eq [OF t(2)] by (auto split: if_splits list.splits)
    then show ?thesis unfolding retrieve_eq [OF t(2)] using k by simp
  qed
  with t(1,4) show ?thesis by blast
qed

theorem sound_table_load_lookup_witness:
  "\<exists>t. load_entries [state_sound ''ab'' 0, state_sound ''b'' 1] fresh_table = Inr t \<and>
      engineSoundTableRetrieve ''ab'' t = Inr (Some (state_sound ''ab'' 0)) \<and>
      engineSoundTableRetrieve ''ba'' t = Inl Diverges \<and>
      engineSoundTableRetrieve ''b'' t = Inr (Some (state_sound ''b'' 1)) \<and>
      engineSoundTableRetrieve ''x'' t = Inr None"
proof -
  let ?es = "[state_sound ''ab'' 0, state_sound ''b'' 1]"
  have h: "hashable ''ab''" "hashable ''ba''" "hashable ''b''" "hashable ''x''" "slot ''ba'' = slot ''ab''"
    "slot ''b'' \<noteq> slot ''ab''" "slot ''x'' \<noteq> slot ''ab''" "slot ''x'' \<noteq> slot ''b''"
    by (simp_all add: hash_eval)
  have n: "se_name (state_sound nm i) = nm" for nm i by (simp add: state_sound_def)
  have "\<not> strcaseeq ''ab'' ''ba''" by (simp add: strcaseeq_def tolower_def code_def)
  moreover obtain t where t: "load_entries ?es fresh_table = Inr t"
      "\<forall>e\<in>set ?es. \<forall>k. hashable k \<longrightarrow> slot k = slot (se_name e) \<longrightarrow>
         engineSoundTableRetrieve k t = (if strcaseeq (se_name e) k then Inr (Some e) else Inl Diverges)"
      "\<forall>k. hashable k \<longrightarrow> slot k \<notin> slot ` se_name ` set ?es \<longrightarrow> engineSoundTableRetrieve k t = Inr None"
    using sound_table_load_lookup [of ?es] h by (auto simp: n)
  ultimately show ?thesis using h by (intro exI [of _ t]) (simp add: n)
qed

text \<open>
  C31.  Lookup completeness and non-termination.  On an allocated table the outcome of a lookup
  is decided by the bucket alone: a name with a negative hash reads before the table, an empty
  bucket gives \<open>NULL\<close>, a bucket that starts with the name (up to case) gives that entry, and any
  other bucket makes the call run forever, even when the name is stored further down the chain.
\<close>

theorem sound_table_retrieve_outcome:
  assumes "table_wf tab"
  shows "engineSoundTableRetrieve name tab =
     (if \<not> hashable name then Inl OutOfBounds
      else case bucket (slot name) tab of
             [] \<Rightarrow> Inr None
           | e # r \<Rightarrow> if strcaseeq (se_name e) name then Inr (Some e) else Inl Diverges)"
  using assms by (rule retrieve_eq)

theorem sound_table_retrieve_outcome_witness:
  "engineSoundTableRetrieve ''ab'' fresh_table = Inr None"
  using sound_table_retrieve_outcome [OF initial_table(1), of "''ab''"]
  by (simp add: hash_eval initial_table(2))

text \<open>
  Collisions.  Two different names in one bucket are both accepted, but only the one
  inserted first can be looked up; every lookup of the second never returns.  A second entry
  with an equal name is accepted as well, and lookups keep returning the first.
\<close>

theorem sound_table_collision:
  assumes "hashable (se_name d)" and "hashable (se_name e)" and "slot (se_name d) = slot (se_name e)"
  shows "\<exists>t1 t2. engineSoundTableInsert d fresh_table = Inr (ENGINE_SUCCESS, t1) \<and>
      engineSoundTableInsert e t1 = Inr (ENGINE_SUCCESS, t2) \<and>
      engineSoundTableRetrieve (se_name d) t2 = Inr (Some d) \<and>
      engineSoundTableRetrieve (se_name e) t2 =
        (if strcaseeq (se_name d) (se_name e) then Inr (Some d) else Inl Diverges)"
proof -
  from insert_vacant [OF initial_table(1) assms(1)] obtain t1 where
    t1: "engineSoundTableInsert d fresh_table = Inr (ENGINE_SUCCESS, t1)" "table_wf t1"
    "bucket (slot (se_name e)) t1 = [d]" using assms(3) by (auto simp: initial_table slot_less)
  from insert_second [OF t1(2) assms(2) t1(3)] obtain t2 where
    "engineSoundTableInsert e t1 = Inr (ENGINE_SUCCESS, t2)" "table_wf t2"
    "bucket (slot (se_name e)) t2 = [d, e]" by blast
  with t1(1) assms show ?thesis by (auto simp: retrieve_eq)
qed


theorem sound_table_collision_witness:
  "\<exists>t1 t2. engineSoundTableInsert (state_sound ''ab'' 0) fresh_table = Inr (ENGINE_SUCCESS, t1) \<and>
      engineSoundTableInsert (state_sound ''ba'' 1) t1 = Inr (ENGINE_SUCCESS, t2) \<and>
      engineSoundTableRetrieve ''ba'' t2 = Inl Diverges"
  using sound_table_collision [of "state_sound ''ab'' 0" "state_sound ''ba'' 1"]
  by (auto simp: hash_eval state_sound_def strcaseeq_def tolower_def)

section \<open>Event entries and teardown\<close>

text \<open>An event entry as the loader builds it: both arrays have \<open>snd_cnt\<close> elements.\<close>

definition entry_wf :: "EVENT_ENTRY \<Rightarrow> bool" where
  "entry_wf e \<longleftrightarrow> length (snds e) = unat (snd_cnt e) \<and> length (lens e) = unat (snd_cnt e)"

lemma engineAllocEventEntry_wf:
  "n < 2 ^ 32 \<Longrightarrow> engineAllocEventEntry True n = Some e \<Longrightarrow> entry_wf e"
  by (auto simp: engineAllocEventEntry_def entry_wf_def unat_of_nat32)

lemma engineEventEntryAssignSnd_wf:
  assumes "entry_wf e"
  shows "engineEventEntryAssignSnd (Some e) i ss len =
     (if 0 \<le> i \<and> nat i < unat (snd_cnt e)
      then Inr (ENGINE_SUCCESS, Some (e\<lparr>snds := (snds e)[nat i := ss], lens := (lens e)[nat i := len]\<rparr>))
      else Inl OutOfBounds)"
  using assms by (auto simp: engineEventEntryAssignSnd_def aset_def entry_wf_def)

definition sound_wf :: "sound_entry \<Rightarrow> bool" where
  "sound_wf p \<longleftrightarrow> (case se_data p of
      EventData e \<Rightarrow> se_type p = EVENT_T \<and> entry_wf e
    | StateData s \<Rightarrow> se_type p = STATE_T
    | NoData \<Rightarrow> False)"

definition owned_samples :: "sound_entry \<Rightarrow> samples list" where
  "owned_samples p = (case se_data p of EventData e \<Rightarrow> List.map_filter id (snds e) | _ \<Rightarrow> [])"

lemma destroy_entry_wf: "sound_wf p \<Longrightarrow> destroy_entry p = Inr (p, owned_samples p)"
  by (auto simp: sound_wf_def destroy_entry_def owned_samples_def free_event_samples_def entry_wf_def
      split: entry_data.splits)

lemma destroy_chain_wf:
  "\<forall>p\<in>set b. sound_wf p \<Longrightarrow> destroy_chain b = Inr (map (\<lambda>p. (p, owned_samples p)) b)"
  by (induction b) (auto simp: destroy_entry_wf)

lemma destroy_buckets_wf:
  "\<forall>b\<in>set bs. \<forall>p\<in>set b. sound_wf p \<Longrightarrow>
   destroy_buckets bs = Inr (map (\<lambda>p. (p, owned_samples p)) (concat bs))"
  by (induction bs) (auto simp: destroy_chain_wf)

text \<open>
  Teardown.  On a table of well-formed entries \<open>engineSoundTableDestroy\<close> frees every entry of
  every chain and every sample buffer an event entry owns, exactly once and within bounds, and
  resets the pointer, so that a second call does nothing.
\<close>

theorem sound_table_destroy_frees_all:
  assumes "\<forall>b\<in>set bs. \<forall>p\<in>set b. sound_wf p"
  shows "engineSoundTableDestroy (Ptr bs) = Inr (map (\<lambda>p. (p, owned_samples p)) (concat bs), Null) \<and>
         engineSoundTableDestroy Null = Inr ([], Null)"
  using destroy_buckets_wf [OF assms] by (simp add: engineSoundTableDestroy_def)

theorem sound_table_destroy_frees_all_witness:
  "engineSoundTableDestroy (Ptr [[state_sound ''ab'' 0, state_sound ''ba'' 1], []]) =
     Inr ([(state_sound ''ab'' 0, []), (state_sound ''ba'' 1, [])], Null)"
  using sound_table_destroy_frees_all [of "[[state_sound ''ab'' 0, state_sound ''ba'' 1], []]"]
  by (simp add: sound_wf_def state_sound_def owned_samples_def)

text \<open>
  \<open>engineSetNoEventSnds\<close> never sets anything: whatever the table and the value, a call that
  returns reports an error and leaves the table as it was.
\<close>

theorem engineSetNoEventSnds_inert:
  "engineSetNoEventSnds sound value tab = Inr (r, tab') \<Longrightarrow>
   tab' = tab \<and> r \<in> {ENGINE_NOT_YET_ALLOC, ENGINE_SOUND_NOT_FOUND}"
  by (auto simp: engineSetNoEventSnds_def split: if_splits)

theorem engineSetNoEventSnds_inert_witness:
  "\<exists>r tab'. engineSetNoEventSnds ''ab'' 3 fresh_table = Inr (r, tab') \<and> tab' = fresh_table"
proof -
  have "engineSetNoEventSnds ''ab'' 3 fresh_table = Inr (ENGINE_SOUND_NOT_FOUND, fresh_table)"
    by (simp add: engineSetNoEventSnds_def retrieve_eq initial_table hash_eval)
      (simp add: engineInitSoundTable_def)
  with engineSetNoEventSnds_inert show ?thesis by blast
qed

end
