(* ===== verification/Mixer.thy ===== *)
theory Mixer
  imports Mixer_Queue Sound_Table
begin

text \<open>
  mixer.c: the event and state channels, the dynamic volume control, the linear fade and the
  routine that mixes one chunk of output, with the parts of engine.c it calls back into (the
  scheduler table).  The file-level variables of mixer.c and engine.c are the fields of
  \<open>world\<close>, together with the two sources of external input the code reads, \<open>rand\<close> and
  \<open>gettimeofday\<close>, as streams.  Sample data are 16-bit words; doubles are reals, so rounding is
  not modelled.
\<close>

unbundle bit_operations_syntax

section \<open>Data (mixer.h, engine.h)\<close>

definition MIXER_SUCCESS :: int where "MIXER_SUCCESS = 1"
definition MIXER_ALLOC_FAILED :: int where "MIXER_ALLOC_FAILED = -1"
definition MIXER_ALREADY_ALLOC :: int where "MIXER_ALREADY_ALLOC = -2"
definition MIXER_NOT_YET_ALLOC :: int where "MIXER_NOT_YET_ALLOC = -3"
definition MIXER_CHAN_BUSY :: int where "MIXER_CHAN_BUSY = -4"
definition MIXER_ERROR :: int where "MIXER_ERROR = -5"
definition MIXER_OUT_OF_BOUNDS :: int where "MIXER_OUT_OF_BOUNDS = -6"

lemmas mixer_codes = MIXER_SUCCESS_def MIXER_ALLOC_FAILED_def MIXER_ALREADY_ALLOC_def
  MIXER_NOT_YET_ALLOC_def MIXER_CHAN_BUSY_def MIXER_ERROR_def MIXER_OUT_OF_BOUNDS_def

abbreviation (input) SAMPLE_RATE :: int where "SAMPLE_RATE \<equiv> 44100"
abbreviation (input) STEREO :: int where "STEREO \<equiv> 2"
abbreviation (input) STATE_MULT :: real where "STATE_MULT \<equiv> 0.4"
abbreviation (input) EVENT_MULT :: real where "EVENT_MULT \<equiv> 0.6"
abbreviation (input) MAX_FADE_TIME :: real where "MAX_FADE_TIME \<equiv> 2"
abbreviation (input) RAND_MAX :: int where "RAND_MAX \<equiv> 2147483647"
abbreviation (input) CLOCKS_PER_SEC :: int where "CLOCKS_PER_SEC \<equiv> 1000000"
abbreviation (input) QUEUE_EXPIRED :: int where "QUEUE_EXPIRED \<equiv> 5 * CLOCKS_PER_SEC"
abbreviation (input) STATE_LINEAR_FADE_FLAG :: "32 word" where "STATE_LINEAR_FADE_FLAG \<equiv> 1"

record EVENT_BUF =
  eb_snd_buf :: "samples option"
  eb_len :: "32 word"
  eb_pos :: "32 word"
  eb_stereo_pos :: real
  eb_filter_flag :: "32 word"

record STATE_SND =
  ss_snd_buf :: "samples option list option"
  ss_len :: "32 word list"
  ss_snd_cnt :: "32 word"
  ss_snd_no :: "32 word"
  ss_pos :: "32 word"

record THRESHOLD =
  l_bound :: real
  h_bound :: real
  state_snd :: STATE_SND

record STATE_BUF =
  sb_thresh :: "THRESHOLD list option"
  sb_thresh_cnt :: int
  sb_stereo_pos :: real
  sb_vol :: real
  sb_filter_flag :: "32 word"

record FADE_REC =
  fade_time :: real
  fr_snd :: "32 word"
  fr_pos :: "32 word"
  old_thresh :: int

record engine_sched =
  startt :: real
  priorit :: int
  minendt :: real

text \<open>The zeroed structures \<open>calloc\<close> returns.\<close>

definition zero_event_buf :: EVENT_BUF where
  "zero_event_buf = \<lparr>eb_snd_buf = None, eb_len = 0, eb_pos = 0, eb_stereo_pos = 0, eb_filter_flag = 0\<rparr>"

definition zero_state_snd :: STATE_SND where
  "zero_state_snd = \<lparr>ss_snd_buf = None, ss_len = [], ss_snd_cnt = 0, ss_snd_no = 0, ss_pos = 0\<rparr>"

definition zero_threshold :: THRESHOLD where
  "zero_threshold = \<lparr>l_bound = 0, h_bound = 0, state_snd = zero_state_snd\<rparr>"

definition zero_state_buf :: STATE_BUF where
  "zero_state_buf =
     \<lparr>sb_thresh = None, sb_thresh_cnt = 0, sb_stereo_pos = 0, sb_vol = 0, sb_filter_flag = 0\<rparr>"

definition zero_fade :: FADE_REC where
  "zero_fade = \<lparr>fade_time = 0, fr_snd = 0, fr_pos = 0, old_thresh = 0\<rparr>"

definition zero_sched :: engine_sched where
  "zero_sched = \<lparr>startt = 0, priorit = 0, minendt = 0\<rparr>"

record world =
  ebuffs :: "EVENT_BUF list ptr"
  no_ebuffs :: "32 word"
  sbuffs :: "STATE_BUF list ptr"
  no_sbuffs :: "32 word"
  mixer_loaded_states :: int
  dyn_mul :: "real list ptr"
  dyn_buf_cnt :: "32 word"
  chunk_size :: nat
  out_buf :: "16 word list ptr"
  mlock :: bool
  lin_fade :: "FADE_REC list ptr"
  mqueue :: mixer_queue
  stable :: sound_table
  sched :: "engine_sched list ptr"
  tlock :: bool
  rand_in :: "nat \<Rightarrow> int"
  clock_in :: "nat \<Rightarrow> timeval"

text \<open>Reading the next random number and the clock.\<close>

definition rand :: "world \<Rightarrow> int \<times> world" where
  "rand w = (rand_in w 0, w\<lparr>rand_in := \<lambda>n. rand_in w (Suc n)\<rparr>)"

definition gettimeofday :: "world \<Rightarrow> timeval \<times> world" where
  "gettimeofday w = (clock_in w 0, w\<lparr>clock_in := \<lambda>n. clock_in w (Suc n)\<rparr>)"

section \<open>Initialisation\<close>

definition mixerFadeEffectInit :: "world \<Rightarrow> world" where
  "mixerFadeEffectInit w = w\<lparr>lin_fade := Ptr (replicate (unat (no_sbuffs w)) zero_fade)\<rparr>"

text \<open>
  \<open>output = calloc (chunk_size, *output)\<close>: the element size passed is the first sample the
  pointer refers to, converted to \<open>size_t\<close>, so the pointer is read before it is set; a negative
  size makes the allocation fail.  The statements before it, which open the sound device and set its
  format, are \<open>soundInit\<close> and \<open>soundSetFormat\<close> of the theory \<open>Sound_Device\<close>; what is modelled here starts
  when they have returned.
\<close>

definition mixerInit :: "nat \<Rightarrow> nat \<Rightarrow> world \<Rightarrow> world result" where
  "mixerInit ebuf sbuf w =
     (let chunk = nat (trunc (0.5 * of_int (c_div SAMPLE_RATE 1000) * 2 * of_int STEREO * 1024)) in
      bindE (pa_get (out_buf w) 0) (\<lambda>size.
      let new_out = (if sint size < 0 then Null
                     else Ptr (replicate (chunk * nat (sint size) div 2) 0)) in
      Inr (mixerFadeEffectInit (w\<lparr>chunk_size := chunk, out_buf := new_out,
        no_ebuffs := of_nat ebuf, no_sbuffs := of_nat sbuf,
        ebuffs := Ptr (replicate (unat (of_nat ebuf :: 32 word)) zero_event_buf),
        sbuffs := Ptr (replicate (unat (of_nat sbuf :: 32 word)) zero_state_buf),
        dyn_mul := Ptr (replicate (unat (of_nat ebuf :: 32 word)) 0), mlock := False\<rparr>))))"

definition mixerEBuffs :: "world \<Rightarrow> 32 word" where "mixerEBuffs w = no_ebuffs w"
definition mixerSBuffs :: "world \<Rightarrow> 32 word" where "mixerSBuffs w = no_sbuffs w"

section \<open>Dynamic volume\<close>

definition mixerDynGMul :: "world \<Rightarrow> real result" where
  "mixerDynGMul w =
     bindE (fdiv (real (unat (dyn_buf_cnt w - 1))) (real (unat (no_ebuffs w - 1)))) (\<lambda>x.
     Inr (1 - 0.5 * x))"

definition mixerDynIMul :: "world \<Rightarrow> real result" where
  "mixerDynIMul w =
     bindE (fdiv (real (unat (dyn_buf_cnt w - 1))) (real (unat (no_ebuffs w - 1)))) (\<lambda>x.
     Inr (0.5 + x * 0.5))"

definition mixerDynTotVol :: "world \<Rightarrow> real result" where
  "mixerDynTotVol w =
     foldE (\<lambda>i sum. bindE (pa_get (dyn_mul w) (int i)) (\<lambda>x. Inr (sum + x)))
       [0..<unat (no_ebuffs w)] 0"

definition mixerDynVol :: "world \<Rightarrow> real result" where
  "mixerDynVol w =
     bindE (mixerDynTotVol w) (\<lambda>tot_vol.
     bindE (mixerDynIMul w) (\<lambda>im.
     bindE (mixerDynGMul w) (\<lambda>gm.
     Inr (im * gm * (1 - tot_vol)))))"

section \<open>Event channels\<close>

text \<open>
  The scheduler entry of a channel (engine.c).  Without a scheduler table the function returns
  with the lock held.
\<close>

definition engineSchedulerInit :: "int \<Rightarrow> real \<Rightarrow> int \<Rightarrow> real \<Rightarrow> world \<Rightarrow> (int \<times> world) result" where
  "engineSchedulerInit index start pri mend w =
     bindE (threadLock (tlock w)) (\<lambda>l.
     if sched w = Null then Inr (ENGINE_NOT_YET_ALLOC, w\<lparr>tlock := l\<rparr>)
     else bindE (pa_set (sched w) index \<lparr>startt = start, priorit = pri, minendt = mend\<rparr>) (\<lambda>s.
          Inr (ENGINE_SUCCESS, w\<lparr>sched := s, tlock := threadUnlock l\<rparr>)))"

text \<open>A new sound starts at whatever position the channel holds: \<open>pos\<close> is not assigned.\<close>

definition mixerAddEvent ::
  "samples option \<Rightarrow> 32 word \<Rightarrow> real \<Rightarrow> 32 word \<Rightarrow> nat \<Rightarrow> world \<Rightarrow> (int \<times> world) result" where
  "mixerAddEvent sound len loc flags voice w =
     bindE (pa_get (ebuffs w) (int voice)) (\<lambda>b.
     if eb_snd_buf b \<noteq> None then Inr (MIXER_CHAN_BUSY, w)
     else bindE (threadLock (mlock w)) (\<lambda>l.
          bindE (pa_set (ebuffs w) (int voice)
                   (b\<lparr>eb_snd_buf := sound, eb_len := len, eb_stereo_pos := loc,
                      eb_filter_flag := flags\<rparr>)) (\<lambda>bs.
          let w1 = w\<lparr>ebuffs := bs, dyn_buf_cnt := dyn_buf_cnt w + 1\<rparr> in
          bindE (mixerDynVol w1) (\<lambda>v.
          bindE (pa_set (dyn_mul w1) (int voice) v) (\<lambda>ds.
          Inr (MIXER_SUCCESS, w1\<lparr>dyn_mul := ds, mlock := threadUnlock l\<rparr>))))))"

definition mixerRemoveEvent :: "nat \<Rightarrow> world \<Rightarrow> world result" where
  "mixerRemoveEvent j w =
     bindE (threadLock (mlock w)) (\<lambda>l.
     bindE (pa_get (ebuffs w) (int j)) (\<lambda>b.
     bindE (pa_set (ebuffs w) (int j)
              (b\<lparr>eb_snd_buf := None, eb_stereo_pos := 0, eb_pos := 0, eb_len := 0\<rparr>)) (\<lambda>bs.
     bindE (pa_set (dyn_mul w) (int j) 0) (\<lambda>ds.
     bindE (engineSchedulerInit (int j) 0 0 0
              (w\<lparr>ebuffs := bs, dyn_mul := ds, dyn_buf_cnt := dyn_buf_cnt w - 1,
                 mlock := threadUnlock l\<rparr>)) (\<lambda>(r, w1). Inr w1)))))"

definition mixerInterrupt :: "nat \<Rightarrow> world \<Rightarrow> world result" where
  "mixerInterrupt j w = mixerRemoveEvent j w"

text \<open>
  A queued event takes over channel \<open>j\<close> unless it has expired.  A queued event without a sound
  name is passed to \<open>engineSoundHash\<close>, which reads through it.
\<close>

definition mixerAddOldEvent :: "nat \<Rightarrow> world \<Rightarrow> world result" where
  "mixerAddOldEvent j w =
     bindE (mixerDequeue (mqueue w)) (\<lambda>(p, q).
     let w1 = w\<lparr>mqueue := q\<rparr> in
     case p of None \<Rightarrow> Inl NullDeref | Some old_event \<Rightarrow>
     (case e_sound (event old_event) of None \<Rightarrow> Inl NullDeref | Some sound \<Rightarrow>
      bindE (engineSoundTableDataRetrieve sound (stable w1)) (\<lambda>entry.
      let (tp, w2) = gettimeofday w1 in
      if TP_IN_FP_SECS tp - TP_IN_FP_SECS (mix_time old_event) < of_int QUEUE_EXPIRED
      then bindE (engineGetNoEventSnds sound (stable w2)) (\<lambda>cnt.
           let (r, w3) = rand w2 in
           bindE (to_uint (of_int cnt * of_int r / (of_int RAND_MAX + 1))) (\<lambda>next_snd.
           bindE (engineGetEventSnd sound (int next_snd) (stable w3)) (\<lambda>smp.
           bindE (engineGetEventSndLen sound (int next_snd) (stable w3)) (\<lambda>len.
           bindE (mixerAddEvent smp len (real (unat (e_loc (event old_event))) / 255)
                    (e_flags (event old_event)) j w3) (\<lambda>(rc, w4).
           let (tp2, w5) = gettimeofday w4; tp_conv = TP_IN_FP_SECS tp2 in
           bindE (engineSchedulerInit (int j) tp_conv (int (prior old_event)) tp_conv w5)
             (\<lambda>(rc2, w6). Inr w6))))))
      else Inr w2)))"


section \<open>State sounds\<close>

definition mixerAllocNewState :: "bool \<Rightarrow> nat \<Rightarrow> int \<Rightarrow> world \<Rightarrow> (int \<times> world) result" where
  "mixerAllocNewState alloc_ok st cnt w =
     bindE (pa_get (sbuffs w) (int st)) (\<lambda>b.
     if sb_thresh b \<noteq> None then Inr (MIXER_ALREADY_ALLOC, w)
     else bindE (threadLock (mlock w)) (\<lambda>l.
          let ts = (if alloc_ok \<and> 0 \<le> cnt then Some (replicate (nat cnt) zero_threshold) else None) in
          bindE (pa_set (sbuffs w) (int st)
                   (b\<lparr>sb_thresh := ts, sb_thresh_cnt := cnt, sb_stereo_pos := 0.5\<rparr>)) (\<lambda>bs.
          let w1 = w\<lparr>sbuffs := bs, mlock := threadUnlock l\<rparr> in
          if ts = None then Inr (MIXER_ALLOC_FAILED, w1)
          else Inr (MIXER_SUCCESS, w1\<lparr>mixer_loaded_states := mixer_loaded_states w1 + 1\<rparr>))))"

text \<open>The threshold count, an \<open>int\<close>, is compared with an \<open>unsigned\<close> index.\<close>

definition thresh_cnt_u :: "STATE_BUF \<Rightarrow> nat" where
  "thresh_cnt_u b = unat (word_of_int (sb_thresh_cnt b) :: 32 word)"

definition mixerAddStateThreshold ::
  "bool \<Rightarrow> nat \<Rightarrow> nat \<Rightarrow> real \<Rightarrow> real \<Rightarrow> nat \<Rightarrow> world \<Rightarrow> (int \<times> world) result" where
  "mixerAddStateThreshold alloc_ok st thresh_index lb hb cnt w =
     bindE (pa_get (sbuffs w) (int st)) (\<lambda>b.
     if thresh_index > thresh_cnt_u b then Inr (MIXER_OUT_OF_BOUNDS, w)
     else case sb_thresh b of None \<Rightarrow> Inr (MIXER_NOT_YET_ALLOC, w) | Some ts \<Rightarrow>
     bindE (threadLock (mlock w)) (\<lambda>l.
     let s = zero_state_snd\<lparr>ss_snd_buf := (if alloc_ok then Some (replicate cnt None) else None),
               ss_len := (if alloc_ok then replicate cnt 0 else []), ss_snd_cnt := of_nat cnt\<rparr> in
     bindE (aset ts (int thresh_index) \<lparr>l_bound = lb, h_bound = hb, state_snd = s\<rparr>) (\<lambda>ts'.
     bindE (pa_set (sbuffs w) (int st) (b\<lparr>sb_thresh := Some ts'\<rparr>)) (\<lambda>bs.
     Inr (if alloc_ok then MIXER_SUCCESS else MIXER_ALLOC_FAILED,
          w\<lparr>sbuffs := bs, mlock := threadUnlock l\<rparr>)))))"

text \<open>\<open>sbuffs[st].thresh[i]\<close> and the assignment to its \<open>state_snd\<close>.\<close>

definition get_threshold :: "STATE_BUF \<Rightarrow> int \<Rightarrow> THRESHOLD result" where
  "get_threshold b i = (case sb_thresh b of None \<Rightarrow> Inl NullDeref | Some ts \<Rightarrow> aget ts i)"

definition set_state_snd :: "nat \<Rightarrow> int \<Rightarrow> STATE_SND \<Rightarrow> world \<Rightarrow> world result" where
  "set_state_snd j i s w =
     bindE (pa_get (sbuffs w) (int j)) (\<lambda>b.
     bindE (get_threshold b i) (\<lambda>t.
     bindE (aset (the (sb_thresh b)) i (t\<lparr>state_snd := s\<rparr>)) (\<lambda>ts.
     bindE (pa_set (sbuffs w) (int j) (b\<lparr>sb_thresh := Some ts\<rparr>)) (\<lambda>bs. Inr (w\<lparr>sbuffs := bs\<rparr>)))))"

definition snd_segment :: "STATE_SND \<Rightarrow> int \<Rightarrow> samples option result" where
  "snd_segment s i = (case ss_snd_buf s of None \<Rightarrow> Inl NullDeref | Some bufs \<Rightarrow> aget bufs i)"

definition mixerAddState ::
  "nat \<Rightarrow> nat \<Rightarrow> nat \<Rightarrow> samples option \<Rightarrow> 32 word \<Rightarrow> world \<Rightarrow> (int \<times> world) result" where
  "mixerAddState st thresh_index no_snd sound len w =
     bindE (pa_get (sbuffs w) (int st)) (\<lambda>b.
     if thresh_index > thresh_cnt_u b then Inr (MIXER_OUT_OF_BOUNDS, w)
     else bindE (get_threshold b (int thresh_index)) (\<lambda>t.
     let s = state_snd t in
     if no_snd > unat (ss_snd_cnt s) then Inr (MIXER_ALLOC_FAILED, w)
     else bindE (snd_segment s (int no_snd)) (\<lambda>old.
     if old \<noteq> None then Inr (MIXER_ALREADY_ALLOC, w)
     else bindE (threadLock (mlock w)) (\<lambda>l.
     bindE (aset (the (ss_snd_buf s)) (int no_snd) sound) (\<lambda>bufs.
     bindE (aset (ss_len s) (int no_snd) len) (\<lambda>ls.
     bindE (set_state_snd st (int thresh_index) (s\<lparr>ss_snd_buf := Some bufs, ss_len := ls\<rparr>) w) (\<lambda>w1.
     Inr (MIXER_SUCCESS, w1\<lparr>mlock := threadUnlock l\<rparr>))))))))"

definition mixerGetNoLoadedStates :: "world \<Rightarrow> int" where
  "mixerGetNoLoadedStates w = mixer_loaded_states w"

definition mixerExistsStateSound :: "int \<Rightarrow> world \<Rightarrow> bool result" where
  "mixerExistsStateSound index w =
     bindE (pa_get (sbuffs w) index) (\<lambda>b. Inr (sb_thresh b \<noteq> None))"

definition mixerLoadedStateSound :: "int \<Rightarrow> world \<Rightarrow> bool result" where
  "mixerLoadedStateSound index w =
     bindE (pa_get (sbuffs w) index) (\<lambda>b.
     bindE (get_threshold b 0) (\<lambda>t. Inr (ss_snd_buf (state_snd t) \<noteq> None)))"

definition in_bounds :: "real \<Rightarrow> THRESHOLD \<Rightarrow> bool" where
  "in_bounds vol t \<longleftrightarrow> vol \<ge> l_bound t \<and> vol \<le> h_bound t"

text \<open>The first matching threshold; without one the function ends without returning a value.\<close>

fun first_thresh :: "STATE_BUF \<Rightarrow> real \<Rightarrow> nat list \<Rightarrow> int result" where
  "first_thresh b vol [] = Inl UninitRead"
| "first_thresh b vol (i # is) =
     bindE (get_threshold b (int i)) (\<lambda>t. if in_bounds vol t then Inr (int i) else first_thresh b vol is)"

definition mixerGetStateThreshIndex :: "nat \<Rightarrow> world \<Rightarrow> int result" where
  "mixerGetStateThreshIndex j w =
     bindE (pa_get (sbuffs w) (int j)) (\<lambda>b. first_thresh b (sb_vol b) [0..<nat (sb_thresh_cnt b)])"

definition mixerSetStateSnd :: "int \<Rightarrow> real \<Rightarrow> real \<Rightarrow> 32 word \<Rightarrow> world \<Rightarrow> world result" where
  "mixerSetStateSnd j vol stereo flags w =
     bindE (pa_get (sbuffs w) j) (\<lambda>b.
     bindE (pa_set (sbuffs w) j
              (b\<lparr>sb_vol := vol, sb_stereo_pos := stereo, sb_filter_flag := flags\<rparr>)) (\<lambda>bs.
     Inr (w\<lparr>sbuffs := bs\<rparr>)))"

text \<open>
  The pointer \<open>mixerGetStateSndPtr\<close> returns is the index of the threshold it points into; the
  last matching threshold, or 0 when none matches.
\<close>

definition mixerGetStateSndPtr :: "int \<Rightarrow> real \<Rightarrow> world \<Rightarrow> int option result" where
  "mixerGetStateSndPtr j vol w =
     bindE (pa_get (sbuffs w) j) (\<lambda>b.
     if sb_thresh b = None then Inr None
     else bindE (foldE (\<lambda>i index. bindE (get_threshold b (int i)) (\<lambda>t.
                   Inr (if in_bounds vol t then int i else index))) [0..<nat (sb_thresh_cnt b)] 0)
          (\<lambda>index.
          if sb_thresh_cnt b \<le> index then Inr None
          else bindE (get_threshold b index) (\<lambda>t.
               if ss_snd_buf (state_snd t) = None then Inr None else Inr (Some index))))"

definition get_state_snd :: "nat \<Rightarrow> int \<Rightarrow> world \<Rightarrow> STATE_SND result" where
  "get_state_snd j i w =
     bindE (pa_get (sbuffs w) (int j)) (\<lambda>b. bindE (get_threshold b i) (\<lambda>t. Inr (state_snd t)))"

definition mixerGetThresholdEntry :: "int \<Rightarrow> int \<Rightarrow> world \<Rightarrow> THRESHOLD option result" where
  "mixerGetThresholdEntry j index w =
     (if sbuffs w = Null then Inr None
      else bindE (pa_get (sbuffs w) j) (\<lambda>b.
           if sb_thresh b = None \<or> index \<ge> sb_thresh_cnt b then Inr None
           else bindE (get_threshold b index) (\<lambda>t. Inr (Some t))))"

definition mixerPickRndStateSnd :: "nat \<Rightarrow> world \<Rightarrow> (nat \<times> world) result" where
  "mixerPickRndStateSnd j w =
     bindE (pa_get (sbuffs w) (int j)) (\<lambda>b.
     bindE (mixerGetStateSndPtr (int j) (sb_vol b) w) (\<lambda>p.
     case p of None \<Rightarrow> Inr (0, w) | Some i \<Rightarrow>
     bindE (get_state_snd j i w) (\<lambda>s.
     let (r, w1) = rand w in
     bindE (to_uint (real (unat (ss_snd_cnt s)) * of_int r / (of_int RAND_MAX + 1))) (\<lambda>n.
     Inr (n, w1)))))"

section \<open>The fade effect\<close>

text \<open>The bound test admits one index too many.\<close>

definition mixerSetFadeTime :: "nat \<Rightarrow> real \<Rightarrow> world \<Rightarrow> (int \<times> world) result" where
  "mixerSetFadeTime j time w =
     (if j \<le> unat (no_sbuffs w)
      then bindE (pa_get (lin_fade w) (int j)) (\<lambda>f.
           bindE (pa_set (lin_fade w) (int j) (f\<lparr>fade_time := time\<rparr>)) (\<lambda>fs.
           Inr (MIXER_SUCCESS, w\<lparr>lin_fade := fs\<rparr>)))
      else Inr (MIXER_ERROR, w))"

definition mixerGetFadeTime :: "nat \<Rightarrow> world \<Rightarrow> real result" where
  "mixerGetFadeTime j w = bindE (pa_get (lin_fade w) (int j)) (\<lambda>f. Inr (fade_time f))"

definition set_fade :: "nat \<Rightarrow> FADE_REC \<Rightarrow> world \<Rightarrow> world result" where
  "set_fade j f w = bindE (pa_set (lin_fade w) (int j) f) (\<lambda>fs. Inr (w\<lparr>lin_fade := fs\<rparr>))"

text \<open>
  \<open>fade_mix\<close> is the last branch of \<open>mixerFadeEffect\<close>: the faded mix of the old and the new
  segment, and the switch to the new one at the end.
\<close>

definition fade_mix :: "int \<Rightarrow> nat \<Rightarrow> int \<Rightarrow> int \<Rightarrow> int \<Rightarrow> world \<Rightarrow> (int \<times> world) result" where
  "fade_mix data j i rest fade_pt w =
     bindE (get_state_snd j i w) (\<lambda>s.
     bindE (pa_get (sbuffs w) (int j)) (\<lambda>b.
     bindE (pa_get (lin_fade w) (int j)) (\<lambda>f.
     bindE (fdiv (of_int rest) (of_int fade_pt)) (\<lambda>mul.
     let old = of_int data * mul;
         stereo = (if odd (uint (ss_pos s)) then 1 - sb_stereo_pos b else sb_stereo_pos b) in
     bindE (get_threshold b (old_thresh f)) (\<lambda>t.
     bindE (snd_segment (state_snd t) (uint (fr_snd f))) (\<lambda>seg.
     case seg of None \<Rightarrow> Inl NullDeref | Some d \<Rightarrow>
     bindE (aget d (uint (fr_pos f))) (\<lambda>x.
     let new = of_int (sint x) * stereo * sb_vol b * STATE_MULT * (1 - mul);
         f' = f\<lparr>fr_pos := fr_pos f + 1\<rparr> in
     bindE (set_fade j f' w) (\<lambda>w1.
     bindE (aget (ss_len s) (uint (ss_snd_no s))) (\<lambda>len.
     bindE (if ss_pos s + 2 \<ge> len
            then bindE (mixerGetStateSndPtr (int j) (sb_vol b) w1) (\<lambda>p.
                 case p of None \<Rightarrow> Inl NullDeref | Some i' \<Rightarrow>
                 bindE (get_state_snd j i' w1) (\<lambda>s'.
                 set_state_snd j i' (s'\<lparr>ss_snd_no := fr_snd f', ss_pos := fr_pos f'\<rparr>) w1))
            else Inr w1) (\<lambda>w2.
     bindE (to_short (old + new)) (\<lambda>res. Inr (res, w2))))))))))))"

definition mixerFadeEffect :: "int \<Rightarrow> 32 word \<Rightarrow> nat \<Rightarrow> world \<Rightarrow> (int \<times> world) result" where
  "mixerFadeEffect data pos j w =
     bindE (pa_get (sbuffs w) (int j)) (\<lambda>b.
     bindE (mixerGetStateSndPtr (int j) (sb_vol b) w) (\<lambda>p.
     bindE (mixerGetFadeTime j w) (\<lambda>time.
     bindE (to_int32 (time * of_int STEREO * of_int SAMPLE_RATE)) (\<lambda>pt.
     case p of None \<Rightarrow> Inr (0, w) | Some i \<Rightarrow>
     bindE (get_state_snd j i w) (\<lambda>s.
     bindE (aget (ss_len s) (uint (ss_snd_no s))) (\<lambda>len.
     let rest = sint (len - pos); fade_pt = pt + c_rem pt 2 in
     if rest > fade_pt then Inr (data, w)
     else if rest = fade_pt
     then bindE (mixerPickRndStateSnd j w) (\<lambda>(n, w1).
          bindE (pa_get (lin_fade w1) (int j)) (\<lambda>f.
          bindE (mixerGetStateThreshIndex j w1) (\<lambda>th.
          bindE (set_fade j (f\<lparr>fr_snd := of_nat n, fr_pos := (ss_pos s AND 1), old_thresh := th\<rparr>) w1)
            (\<lambda>w2. Inr (data, w2)))))
     else fade_mix data j i rest fade_pt w))))))"


section \<open>Filters\<close>

text \<open>
  \<open>MAX_EVENT_FLAG\<close> is \<open>1\<close>, so the loop over event flags has no turn; \<open>MAX_STATE_FLAG\<close> is \<open>2\<close>, so
  the loop over state flags has one, for \<open>STATE_LINEAR_FADE_FLAG\<close>.
\<close>

definition mixerApplyEventFilters :: "int \<Rightarrow> 32 word \<Rightarrow> nat \<Rightarrow> world \<Rightarrow> int" where
  "mixerApplyEventFilters data pos j w = data"

definition mixerApplyStateFilters :: "int \<Rightarrow> 32 word \<Rightarrow> nat \<Rightarrow> world \<Rightarrow> (int \<times> world) result" where
  "mixerApplyStateFilters data pos j w =
     bindE (pa_get (sbuffs w) (int j)) (\<lambda>b.
     if sb_filter_flag b AND STATE_LINEAR_FADE_FLAG \<noteq> 0 then mixerFadeEffect data pos j w
     else Inr (data, w))"

section \<open>Mixing a chunk\<close>

text \<open>\<open>output[i] += v\<close> on a \<open>short\<close>, which wraps.\<close>

definition add_output :: "nat \<Rightarrow> int \<Rightarrow> world \<Rightarrow> world result" where
  "add_output i v w =
     bindE (pa_get (out_buf w) (int i)) (\<lambda>x.
     bindE (pa_set (out_buf w) (int i) (x + word_of_int v)) (\<lambda>o'. Inr (w\<lparr>out_buf := o'\<rparr>)))"

definition event_sample :: "samples \<Rightarrow> 32 word \<Rightarrow> real \<Rightarrow> real \<Rightarrow> int result" where
  "event_sample smp pos dyn stereo =
     bindE (aget smp (uint pos)) (\<lambda>x. to_short (of_int (sint x) * dyn * EVENT_MULT * stereo))"

text \<open>One event channel at output position \<open>i\<close>.\<close>

definition mix_event :: "nat \<Rightarrow> nat \<Rightarrow> world \<Rightarrow> world result" where
  "mix_event i j w =
     bindE (pa_get (ebuffs w) (int j)) (\<lambda>b.
     case eb_snd_buf b of None \<Rightarrow> Inr w | Some smp \<Rightarrow>
     bindE (pa_get (dyn_mul w) (int j)) (\<lambda>dyn.
     bindE (event_sample smp (eb_pos b) dyn (eb_stereo_pos b)) (\<lambda>left0.
     bindE (event_sample smp (eb_pos b + 1) dyn (1 - eb_stereo_pos b)) (\<lambda>right0.
     let eleft = (if eb_filter_flag b \<noteq> 0 then mixerApplyEventFilters left0 (eb_pos b) j w else left0);
         eright = (if eb_filter_flag b \<noteq> 0
                   then mixerApplyEventFilters right0 (eb_pos b + 1) j w else right0) in
     bindE (add_output i eleft w) (\<lambda>w1.
     bindE (add_output (i + 1) eright w1) (\<lambda>w2.
     let b' = b\<lparr>eb_pos := eb_pos b + 2\<rparr> in
     bindE (pa_set (ebuffs w2) (int j) b') (\<lambda>bs.
     let w3 = w2\<lparr>ebuffs := bs\<rparr> in
     if eb_pos b' = eb_len b'
     then bindE (mixerRemoveEvent j w3) (\<lambda>w4.
          if \<not> mixerQueueEmpty (mqueue w4) then mixerAddOldEvent j w4 else Inr w4)
     else Inr w3)))))))"

definition state_sample :: "samples \<Rightarrow> 32 word \<Rightarrow> real \<Rightarrow> real \<Rightarrow> int result" where
  "state_sample smp pos vol stereo =
     bindE (aget smp (uint pos)) (\<lambda>x. to_short (vol * stereo * STATE_MULT * of_int (sint x)))"

text \<open>
  One state channel.  The filters may move the position and the segment of the sound, so the
  code reads them again through the pointer after each call.
\<close>

definition mix_state :: "nat \<Rightarrow> nat \<Rightarrow> world \<Rightarrow> world result" where
  "mix_state i j w =
     bindE (pa_get (sbuffs w) (int j)) (\<lambda>b.
     bindE (mixerGetStateSndPtr (int j) (sb_vol b) w) (\<lambda>p.
     if sb_vol b = 0 then Inr w
     else case p of None \<Rightarrow> Inr w | Some k \<Rightarrow>
     bindE (get_state_snd j k w) (\<lambda>s.
     bindE (snd_segment s (uint (ss_snd_no s))) (\<lambda>seg.
     case seg of None \<Rightarrow> Inr w | Some smp \<Rightarrow>
     bindE (state_sample smp (ss_pos s) (sb_vol b) (sb_stereo_pos b)) (\<lambda>left0.
     bindE (state_sample smp (ss_pos s + 1) (sb_vol b) (1 - sb_stereo_pos b)) (\<lambda>right0.
     bindE (if sb_filter_flag b \<noteq> 0
            then bindE (mixerApplyStateFilters left0 (ss_pos s) j w) (\<lambda>(l, w1).
                 bindE (get_state_snd j k w1) (\<lambda>s1.
                 bindE (mixerApplyStateFilters right0 (ss_pos s1 + 1) j w1) (\<lambda>(r, w2).
                 Inr (l, r, w2))))
            else Inr (left0, right0, w)) (\<lambda>(sleft, sright, w3).
     bindE (add_output i sleft w3) (\<lambda>w4.
     bindE (add_output (i + 1) sright w4) (\<lambda>w5.
     bindE (get_state_snd j k w5) (\<lambda>s5.
     let s6 = s5\<lparr>ss_pos := ss_pos s5 + 2\<rparr> in
     bindE (set_state_snd j k s6 w5) (\<lambda>w6.
     bindE (aget (ss_len s6) (uint (ss_snd_no s6))) (\<lambda>len.
     if ss_pos s6 \<ge> len
     then bindE (mixerPickRndStateSnd j w6) (\<lambda>(n, w7).
          set_state_snd j k (s6\<lparr>ss_snd_no := of_nat n, ss_pos := 0\<rparr>) w7)
     else Inr w6))))))))))))"

definition mix_frame :: "nat \<Rightarrow> world \<Rightarrow> world result" where
  "mix_frame i w =
     bindE (foldE (mix_event i) [0..<unat (no_ebuffs w)] w) (\<lambda>w1.
     foldE (mix_state i) [0..<unat (no_sbuffs w1)] w1)"

definition clear_output :: "world \<Rightarrow> world result" where
  "clear_output w =
     bindE (pget (out_buf w)) (\<lambda>o'.
     if chunk_size w \<le> length o'
     then Inr (w\<lparr>out_buf := Ptr (replicate (chunk_size w) 0 @ drop (chunk_size w) o')\<rparr>)
     else Inl OutOfBounds)"

text \<open>The chunk handed to the sound card and the state after the call.\<close>

definition mixer :: "world \<Rightarrow> (16 word list \<times> world) result" where
  "mixer w =
     bindE (clear_output w) (\<lambda>w1.
     bindE (foldE mix_frame (map (\<lambda>n. 2 * n) [0..<(chunk_size w1 + 1) div 2]) w1) (\<lambda>w2.
     bindE (pget (out_buf w2)) (\<lambda>o'. Inr (take (chunk_size w2) o', w2))))"

section \<open>Shutdown\<close>

text \<open>The segments freed for one state channel; every access is checked.\<close>

definition free_segments :: "STATE_SND \<Rightarrow> samples list result" where
  "free_segments s =
     foldE (\<lambda>k acc. bindE (snd_segment s (int k)) (\<lambda>seg.
              Inr (acc @ (case seg of None \<Rightarrow> [] | Some d \<Rightarrow> [d]))))
       [0..<unat (ss_snd_cnt s)] []"

definition free_state_buf :: "STATE_BUF \<Rightarrow> samples list result" where
  "free_state_buf b =
     foldE (\<lambda>j acc. bindE (get_threshold b (int j)) (\<lambda>t.
              bindE (free_segments (state_snd t)) (\<lambda>fs. Inr (acc @ fs))))
       [0..<nat (sb_thresh_cnt b)] []"

definition mixerFadeEffectShutdown :: "world \<Rightarrow> world result" where
  "mixerFadeEffectShutdown w = bindE (pfree (lin_fade w)) (\<lambda>p. Inr (w\<lparr>lin_fade := p\<rparr>))"

definition mixerShutdown :: "world \<Rightarrow> (samples list \<times> world) result" where
  "mixerShutdown w =
     bindE (threadLock (mlock w)) (\<lambda>l.
     bindE (pfree (ebuffs w)) (\<lambda>eb.
     bindE (foldE (\<lambda>i acc. bindE (pa_get (sbuffs w) (int i)) (\<lambda>b.
                     bindE (free_state_buf b) (\<lambda>fs. Inr (acc @ fs)))) [0..<unat (no_sbuffs w)] [])
       (\<lambda>freed.
     bindE (pfree (sbuffs w)) (\<lambda>sb.
     bindE (pfree (dyn_mul w)) (\<lambda>dm.
     bindE (pfree (out_buf w)) (\<lambda>ob.
     bindE (mixerFadeEffectShutdown
              (w\<lparr>ebuffs := eb, sbuffs := sb, dyn_mul := dm, out_buf := ob\<rparr>)) (\<lambda>w1.
     Inr (freed, w1\<lparr>mlock := threadUnlock l\<rparr>))))))))"

end
