(* ===== verification/Mixer_Channels.thy ===== *)
theory Mixer_Channels
  imports Mixer
begin

text \<open>
  The event channels of the mixer: the invariant that ties channels, dynamic multipliers and
  the active-channel counter together, what adding and removing an event do to it, and the
  volume law (each new sound gets between one half and nine sixteenths of the volume still
  free, so the multipliers always add up to less than one).
\<close>

section \<open>Counting busy channels\<close>

definition busy :: "EVENT_BUF \<Rightarrow> nat" where
  "busy b = (if eb_snd_buf b = None then 0 else 1)"

definition occupied :: "EVENT_BUF list \<Rightarrow> nat" where
  "occupied bs = sum_list (map busy bs)"

lemma busy_le: "busy b \<le> 1"
  by (simp add: busy_def)

lemma occupied_le: "occupied bs \<le> length bs"
  unfolding occupied_def using sum_list_mono [of bs busy "\<lambda>_. 1"] busy_le by (simp add: sum_list_triv)

lemma busy_le_occupied: "j < length bs \<Longrightarrow> busy (bs ! j) \<le> occupied bs"
  unfolding occupied_def by (metis elem_le_sum_list length_map nth_map)

lemma occupied_update:
  "j < length bs \<Longrightarrow> occupied (bs[j := b]) + busy (bs ! j) = occupied bs + busy b"
  using busy_le_occupied [of j bs] by (simp add: occupied_def map_update sum_list_update)

lemma occupied_free:
  assumes "j < length bs" and "eb_snd_buf (bs ! j) = None"
  shows "occupied bs < length bs"
proof -
  have "occupied (bs[j := b]) = occupied bs + busy b" for b
    using occupied_update [OF assms(1)] assms(2) by (simp add: busy_def)
  then have "occupied (bs[j := zero_event_buf\<lparr>eb_snd_buf := Some []\<rparr>]) = Suc (occupied bs)"
    by (simp add: busy_def)
  then show ?thesis using occupied_le [of "bs[j := zero_event_buf\<lparr>eb_snd_buf := Some []\<rparr>]"] by simp
qed

section \<open>The channel invariant\<close>

definition chan_rep :: "EVENT_BUF list \<Rightarrow> real list \<Rightarrow> world \<Rightarrow> bool" where
  "chan_rep bs ds w \<longleftrightarrow>
     ebuffs w = Ptr bs \<and> dyn_mul w = Ptr ds \<and> length bs = unat (no_ebuffs w) \<and>
     length ds = length bs \<and> 2 \<le> length bs \<and>
     (\<forall>j<length bs. 0 \<le> ds ! j \<and> (eb_snd_buf (bs ! j) = None \<longrightarrow> ds ! j = 0)) \<and>
     sum_list ds < 1 \<and> dyn_buf_cnt w = of_nat (occupied bs) \<and> \<not> mlock w"

lemma chan_repD:
  assumes "chan_rep bs ds w"
  shows "ebuffs w = Ptr bs" "dyn_mul w = Ptr ds" "unat (no_ebuffs w) = length bs"
    "length ds = length bs" "2 \<le> length bs" "j < length bs \<Longrightarrow> 0 \<le> ds ! j"
    "j < length bs \<Longrightarrow> eb_snd_buf (bs ! j) = None \<Longrightarrow> ds ! j = 0"
    "sum_list ds < 1" "dyn_buf_cnt w = of_nat (occupied bs)" "mlock w = False"
  using assms by (auto simp: chan_rep_def)

text \<open>The invariant reads only these fields.\<close>

lemma chan_rep_frame:
  assumes "chan_rep bs ds w" and "ebuffs w' = ebuffs w" "dyn_mul w' = dyn_mul w"
    "no_ebuffs w' = no_ebuffs w" "dyn_buf_cnt w' = dyn_buf_cnt w" "mlock w' = mlock w"
  shows "chan_rep bs ds w'"
  using assms by (simp add: chan_rep_def)

lemma chan_rep_length: "chan_rep bs ds w \<Longrightarrow> length bs < 2 ^ 32"
  using unsigned_less [of "no_ebuffs w", where ?'a = nat] by (simp add: chan_rep_def)

section \<open>Dynamic volume\<close>

lemma sum_loop:
  assumes "n \<le> length ds"
  shows "foldE (\<lambda>i s. bindE (pa_get (Ptr ds) (int i)) (\<lambda>x. Inr (s + x))) [0..<n] (0::real) =
    Inr (sum_list (take n ds))"
  using assms
proof (induction n)
  case (Suc n)
  then show ?case by (simp add: foldE_append take_Suc_conv_app_nth)
qed simp

lemma mixerDynTotVol_eq:
  "dyn_mul w = Ptr ds \<Longrightarrow> unat (no_ebuffs w) = length ds \<Longrightarrow> mixerDynTotVol w = Inr (sum_list ds)"
  using sum_loop [of "length ds" ds] by (simp add: mixerDynTotVol_def)

text \<open>The share of the free volume a sound gets when \<open>k\<close> of \<open>n\<close> channels are busy already.\<close>

definition volume_share :: "nat \<Rightarrow> nat \<Rightarrow> real" where
  "volume_share k n = (let x = real k / real (n - 1) in (0.5 + x * 0.5) * (1 - 0.5 * x))"

lemma volume_share_bounds:
  assumes "2 \<le> n" and "k < n"
  shows "1 / 2 \<le> volume_share k n" and "volume_share k n \<le> 9 / 16"
proof -
  define x where "x = real k / real (n - 1)"
  have "0 \<le> x" "x \<le> 1" using assms by (auto simp: x_def divide_le_eq)
  have eq: "volume_share k n = 1 / 2 + x * (1 - x) / 4"
    unfolding volume_share_def Let_def x_def [symmetric] by (simp add: field_simps)
  have "0 \<le> x * (1 - x)" using \<open>0 \<le> x\<close> \<open>x \<le> 1\<close> by simp
  then show "1 / 2 \<le> volume_share k n" using eq by simp
  have "0 \<le> (x - 1 / 2) * (x - 1 / 2)" by simp
  then have "x * (1 - x) \<le> 1 / 4" by (simp add: algebra_simps)
  then show "volume_share k n \<le> 9 / 16" using eq by simp
qed

lemma mixerDynVol_eq:
  assumes "dyn_mul w = Ptr ds" and "unat (no_ebuffs w) = length ds" and "2 \<le> length ds"
    and "dyn_buf_cnt w = of_nat (Suc k)" and "k < length ds"
  shows "mixerDynVol w = Inr (volume_share k (length ds) * (1 - sum_list ds))"
proof -
  have small: "length ds < 2 ^ 32"
    using assms(2) unsigned_less [of "no_ebuffs w", where ?'a = nat] by simp
  have cnt: "unat (dyn_buf_cnt w - 1) = k"
    using assms(4,5) small by (simp add: unat_of_nat32)
  have "no_ebuffs w = of_nat (length ds)" by (simp add: assms(2) [symmetric])
  then have "no_ebuffs w - 1 = of_nat (length ds - 1)" using assms(3) by (simp add: of_nat_diff)
  then have n: "unat (no_ebuffs w - 1) = length ds - 1" using small by (simp add: unat_of_nat32)
  then have nz: "real (length ds - 1) \<noteq> 0" using assms(3) by simp
  show ?thesis
    using nz mixerDynTotVol_eq [OF assms(1,2)]
    by (simp add: mixerDynVol_def mixerDynIMul_def mixerDynGMul_def cnt n fdiv_def
        volume_share_def Let_def)
qed


section \<open>Adding and removing events\<close>

text \<open>The state after \<open>mixerAddEvent\<close> put a sound on a free channel with multiplier \<open>m\<close>.\<close>

definition added ::
  "samples option \<Rightarrow> 32 word \<Rightarrow> real \<Rightarrow> 32 word \<Rightarrow> EVENT_BUF \<Rightarrow> EVENT_BUF" where
  "added smp len loc flags b =
     b\<lparr>eb_snd_buf := smp, eb_len := len, eb_stereo_pos := loc, eb_filter_flag := flags\<rparr>"

lemma mixerAddEvent_busy:
  "chan_rep bs ds w \<Longrightarrow> v < length bs \<Longrightarrow> eb_snd_buf (bs ! v) \<noteq> None \<Longrightarrow>
   mixerAddEvent smp len loc flags v w = Inr (MIXER_CHAN_BUSY, w)"
  by (simp add: mixerAddEvent_def chan_rep_def)

lemma mixerAddEvent_free:
  fixes len flags :: "32 word" and loc :: real
  assumes rep: "chan_rep bs ds w" and v: "v < length bs" and free: "eb_snd_buf (bs ! v) = None"
    and smp: "smp = Some d"
  defines "m \<equiv> volume_share (occupied bs) (length bs) * (1 - sum_list ds)"
    and "b \<equiv> added smp len loc flags (bs ! v)"
  shows "mixerAddEvent smp len loc flags v w =
      Inr (MIXER_SUCCESS, w\<lparr>ebuffs := Ptr (bs[v := b]), dyn_mul := Ptr (ds[v := m]),
             dyn_buf_cnt := of_nat (Suc (occupied bs)), mlock := False\<rparr>)"
    and "chan_rep (bs[v := b]) (ds[v := m]) (w\<lparr>ebuffs := Ptr (bs[v := b]), dyn_mul := Ptr (ds[v := m]),
             dyn_buf_cnt := of_nat (Suc (occupied bs)), mlock := False\<rparr>)"
    and "0 < m"
proof -
  note r = chan_repD [OF rep]
  let ?w1 = "w\<lparr>ebuffs := Ptr (bs[v := b]), dyn_buf_cnt := of_nat (Suc (occupied bs))\<rparr>"
  have occ: "occupied bs < length bs" using occupied_free [OF v free] .
  have "mixerDynVol ?w1 = Inr m"
    using mixerDynVol_eq [of ?w1 ds "occupied bs"] r(2,3,4,5) occ by (simp add: m_def)
  moreover have "dyn_buf_cnt w + 1 = of_nat (Suc (occupied bs))" using r(9) by (simp add: add.commute)
  ultimately show "mixerAddEvent smp len loc flags v w =
      Inr (MIXER_SUCCESS, w\<lparr>ebuffs := Ptr (bs[v := b]), dyn_mul := Ptr (ds[v := m]),
             dyn_buf_cnt := of_nat (Suc (occupied bs)), mlock := False\<rparr>)"
    using r v free by (simp add: mixerAddEvent_def Let_def b_def added_def add.commute)
  have share: "1 / 2 \<le> volume_share (occupied bs) (length bs)"
      "volume_share (occupied bs) (length bs) \<le> 9 / 16"
    using volume_share_bounds [OF r(5) occ] by auto
  have room: "0 < 1 - sum_list ds" using r(8) by simp
  show m0: "0 < m" unfolding m_def using share(1) room by (intro mult_pos_pos) auto
  have "m \<le> 9 / 16 * (1 - sum_list ds)"
    unfolding m_def using share(2) room by (intro mult_right_mono) auto
  then have "sum_list ds + m < 1" using room by (simp add: field_simps)
  moreover have "sum_list (ds[v := m]) = sum_list ds + m"
    using sum_list_update_real [of v ds m] r(4) v r(7) [OF v free] by simp
  moreover have "occupied (bs[v := b]) = Suc (occupied bs)"
    using occupied_update [OF v, of b] free smp by (simp add: busy_def b_def added_def)
  ultimately show "chan_rep (bs[v := b]) (ds[v := m]) (w\<lparr>ebuffs := Ptr (bs[v := b]),
      dyn_mul := Ptr (ds[v := m]), dyn_buf_cnt := of_nat (Suc (occupied bs)), mlock := False\<rparr>)"
    using r v m0 smp by (auto simp: chan_rep_def nth_list_update b_def added_def)
qed

definition cleared :: "EVENT_BUF \<Rightarrow> EVENT_BUF" where
  "cleared b = b\<lparr>eb_snd_buf := None, eb_stereo_pos := 0, eb_pos := 0, eb_len := 0\<rparr>"

lemma mixerRemoveEvent_occupied:
  assumes rep: "chan_rep bs ds w" and j: "j < length bs" and occ: "eb_snd_buf (bs ! j) \<noteq> None"
    and s: "sched w = Ptr ss" "j < length ss" "\<not> tlock w"
  defines "w' \<equiv> w\<lparr>ebuffs := Ptr (bs[j := cleared (bs ! j)]), dyn_mul := Ptr (ds[j := 0]),
             dyn_buf_cnt := of_nat (occupied bs - 1), mlock := False,
             sched := Ptr (ss[j := zero_sched]), tlock := False\<rparr>"
  shows "mixerRemoveEvent j w = Inr w'" and "chan_rep (bs[j := cleared (bs ! j)]) (ds[j := 0]) w'"
proof -
  note r = chan_repD [OF rep]
  have b1: "busy (bs ! j) = 1" using occ by (simp add: busy_def)
  then have "1 \<le> occupied bs" using busy_le_occupied [OF j] by simp
  then have cnt: "dyn_buf_cnt w - 1 = of_nat (occupied bs - 1)" using r(9) by (simp add: of_nat_diff)
  show "mixerRemoveEvent j w = Inr w'"
    using r j s cnt
    by (simp add: mixerRemoveEvent_def engineSchedulerInit_def w'_def zero_sched_def cleared_def)
  have "occupied (bs[j := cleared (bs ! j)]) = occupied bs - 1"
    using occupied_update [OF j, of "cleared (bs ! j)"] b1 by (simp add: busy_def cleared_def)
  moreover have "sum_list (ds[j := 0]) \<le> sum_list ds"
    using sum_list_update_real [of j ds 0] r(4) j r(6) [OF j] by simp
  ultimately show "chan_rep (bs[j := cleared (bs ! j)]) (ds[j := 0]) w'"
    using r j by (auto simp: chan_rep_def nth_list_update w'_def cleared_def)
qed


section \<open>Properties\<close>

text \<open>
  C32.  Volume law.  In a consistent mixer state, adding a sound to a free channel succeeds; its
  multiplier lies between one half and nine sixteenths of the volume not yet taken, no other
  multiplier changes, and the state stays consistent: the multipliers are non-negative and add
  up to less than one, silent channels have multiplier zero, and the counter equals the number of
  busy channels.  On a busy channel nothing changes and \<open>MIXER_CHAN_BUSY\<close> is returned.
\<close>

theorem mixerAddEvent_volume_law:
  assumes "chan_rep bs ds w" and "v < length bs"
  shows "if eb_snd_buf (bs ! v) = None
         then \<exists>w' m. mixerAddEvent (Some d) len loc flags v w = Inr (MIXER_SUCCESS, w') \<and>
                chan_rep (bs[v := added (Some d) len loc flags (bs ! v)]) (ds[v := m]) w' \<and>
                1 / 2 * (1 - sum_list ds) \<le> m \<and> m \<le> 9 / 16 * (1 - sum_list ds)
         else mixerAddEvent (Some d) len loc flags v w = Inr (MIXER_CHAN_BUSY, w)"
proof (cases "eb_snd_buf (bs ! v) = None")
  case True
  note r = chan_repD [OF assms(1)] and a = mixerAddEvent_free [OF assms True refl]
  have "occupied bs < length bs" using occupied_free [OF assms(2) True] .
  note share = volume_share_bounds [OF r(5) this]
  have b: "1 / 2 * (1 - sum_list ds) \<le> volume_share (occupied bs) (length bs) * (1 - sum_list ds)"
    "volume_share (occupied bs) (length bs) * (1 - sum_list ds) \<le> 9 / 16 * (1 - sum_list ds)"
    using share r(8) by (intro mult_right_mono; simp)+
  show ?thesis unfolding if_P [OF True] using a(1,2) b by blast
qed (auto simp: mixerAddEvent_busy [OF assms])

text \<open>A mixer with two idle channels, to instantiate the properties.\<close>

definition idle_world :: world where
  "idle_world = \<lparr>ebuffs = Ptr [zero_event_buf, zero_event_buf], no_ebuffs = 2,
     sbuffs = Ptr [], no_sbuffs = 0, mixer_loaded_states = 0, dyn_mul = Ptr [0, 0], dyn_buf_cnt = 0,
     chunk_size = 2, out_buf = Ptr [0, 0], mlock = False, lin_fade = Ptr [],
     mqueue = mixerQueueInit 4 mixer_queue_static, stable = fresh_table,
     sched = Ptr [zero_sched, zero_sched], tlock = False,
     rand_in = (\<lambda>n. 0), clock_in = (\<lambda>n. \<lparr>tv_sec = 1, tv_usec = 0\<rparr>)\<rparr>"

lemma idle_world_rep: "chan_rep [zero_event_buf, zero_event_buf] [0, 0] idle_world"
  by (auto simp: chan_rep_def idle_world_def occupied_def busy_def zero_event_buf_def less_Suc_eq)

theorem mixerAddEvent_volume_law_witness:
  "\<exists>w' m. mixerAddEvent (Some [5, 6]) 2 0.5 0 1 idle_world = Inr (MIXER_SUCCESS, w') \<and>
     1 / 2 \<le> m \<and> m \<le> 9 / 16 \<and>
     chan_rep [zero_event_buf, added (Some [5, 6]) 2 0.5 0 zero_event_buf] [0, m] w'"
  using mixerAddEvent_volume_law [OF idle_world_rep, of 1 "[5, 6]" 2 "0.5" 0]
  by (auto simp: zero_event_buf_def)

text \<open>
  Removing the sound of a busy channel frees the channel, its multiplier and its scheduler
  entry, touches no other channel, and keeps the state consistent; so a channel that is filled
  and then emptied gives back exactly its share of the volume.
\<close>

theorem mixerRemoveEvent_consistent:
  assumes "chan_rep bs ds w" and "j < length bs" and "eb_snd_buf (bs ! j) \<noteq> None"
    and "sched w = Ptr ss" and "j < length ss" and "\<not> tlock w"
  shows "\<exists>w'. mixerRemoveEvent j w = Inr w' \<and>
           chan_rep (bs[j := cleared (bs ! j)]) (ds[j := 0]) w' \<and>
           sched w' = Ptr (ss[j := zero_sched]) \<and>
           mixerDynTotVol w' = Inr (sum_list ds - ds ! j)"
proof -
  let ?w = "w\<lparr>ebuffs := Ptr (bs[j := cleared (bs ! j)]), dyn_mul := Ptr (ds[j := 0]),
             dyn_buf_cnt := of_nat (occupied bs - 1), mlock := False,
             sched := Ptr (ss[j := zero_sched]), tlock := False\<rparr>"
  note rm = mixerRemoveEvent_occupied [OF assms] and r = chan_repD [OF assms(1)]
  have "mixerDynTotVol ?w = Inr (sum_list (ds[j := 0]))"
    using r by (intro mixerDynTotVol_eq) auto
  then show ?thesis using rm assms(2) r(4) by (auto simp: sum_list_update_real)
qed

definition one_busy :: world where
  "one_busy = idle_world\<lparr>ebuffs := Ptr [zero_event_buf\<lparr>eb_snd_buf := Some [5, 6]\<rparr>, zero_event_buf],
     dyn_mul := Ptr [0.5, 0], dyn_buf_cnt := 1\<rparr>"

lemma one_busy_rep:
  "chan_rep [zero_event_buf\<lparr>eb_snd_buf := Some [5, 6]\<rparr>, zero_event_buf] [0.5, 0] one_busy"
  by (auto simp: one_busy_def chan_rep_def idle_world_def occupied_def busy_def zero_event_buf_def
      less_Suc_eq)

theorem mixerRemoveEvent_consistent_witness:
  "\<exists>w'. mixerRemoveEvent 0 one_busy = Inr w' \<and> mixerDynTotVol w' = Inr 0"
  using mixerRemoveEvent_consistent [OF one_busy_rep, of 0 "[zero_sched, zero_sched]"]
  by (auto simp: one_busy_def idle_world_def zero_event_buf_def)

end
