(* ===== verification/Mixer_Play.thy ===== *)
theory Mixer_Play
  imports Mixer_Channels
begin

text \<open>
  Playing: the invariant of the whole mixer (channels, state sounds, queue, scheduler and sound
  table together) and that mixing a chunk keeps it and never faults, as long as every loaded
  sample has an even, positive length.  The bounds on the mixed signal: the event part of a
  frame is the exact sum of its contributions and stays below three fifths of full scale, so
  that events and one state never wrap.
\<close>

section \<open>Reading the parts of the state\<close>

definition evs :: "world \<Rightarrow> EVENT_BUF list" where
  "evs w = (case ebuffs w of Ptr bs \<Rightarrow> bs | _ \<Rightarrow> [])"

definition muls :: "world \<Rightarrow> real list" where
  "muls w = (case dyn_mul w of Ptr ds \<Rightarrow> ds | _ \<Rightarrow> [])"

definition scheds :: "world \<Rightarrow> engine_sched list" where
  "scheds w = (case sched w of Ptr ss \<Rightarrow> ss | _ \<Rightarrow> [])"

definition outs :: "world \<Rightarrow> 16 word list" where
  "outs w = (case out_buf w of Ptr o' \<Rightarrow> o' | _ \<Rightarrow> [])"

lemmas part_defs = evs_def muls_def scheds_def outs_def

section \<open>The invariant\<close>

text \<open>A sample the mixer can play: whole stereo frames, at least one, all in memory.\<close>

definition sample_ok :: "samples \<Rightarrow> 32 word \<Rightarrow> bool" where
  "sample_ok d len \<longleftrightarrow> 0 < unat len \<and> even (unat len) \<and> unat len \<le> length d"

definition buf_ok :: "EVENT_BUF \<Rightarrow> bool" where
  "buf_ok b \<longleftrightarrow> (case eb_snd_buf b of
      None \<Rightarrow> eb_pos b = 0
    | Some d \<Rightarrow> sample_ok d (eb_len b) \<and> even (unat (eb_pos b)) \<and> unat (eb_pos b) < unat (eb_len b) \<and>
                0 \<le> eb_stereo_pos b \<and> eb_stereo_pos b \<le> 1)"

definition entry_ok :: "EVENT_ENTRY \<Rightarrow> bool" where
  "entry_ok e \<longleftrightarrow> entry_wf e \<and> 0 < unat (snd_cnt e) \<and> unat (snd_cnt e) < 2 ^ 31 \<and>
     (\<forall>i<unat (snd_cnt e). \<exists>d. snds e ! i = Some d \<and> sample_ok d (lens e ! i))"

text \<open>An event whose sound the table resolves to a playable event entry.\<close>

definition event_playable :: "sound_table \<Rightarrow> EVENT \<Rightarrow> bool" where
  "event_playable tab ev \<longleftrightarrow> (\<exists>name ent e. e_sound ev = Some name \<and>
     engineSoundTableRetrieve name tab = Inr (Some ent) \<and> se_type ent = EVENT_T \<and>
     se_data ent = EventData e \<and> entry_ok e)"

definition inputs_ok :: "world \<Rightarrow> bool" where
  "inputs_ok w \<longleftrightarrow> (\<forall>n. 0 \<le> rand_in w n \<and> rand_in w n \<le> 2147483647) \<and>
     (\<forall>n. 0 < TP_IN_FP_SECS (clock_in w n))"

definition ev_inv :: "world \<Rightarrow> bool" where
  "ev_inv w \<longleftrightarrow> chan_rep (evs w) (muls w) w \<and> (\<forall>j<length (evs w). buf_ok (evs w ! j)) \<and>
     sched w = Ptr (scheds w) \<and> length (scheds w) = length (evs w) \<and> \<not> tlock w \<and>
     (\<forall>j<length (evs w). startt (scheds w ! j) = 0 \<longleftrightarrow> eb_snd_buf (evs w ! j) = None) \<and>
     mq_wf (mqueue w) \<and> (\<forall>e. e \<in># mq_bag (mqueue w) \<longrightarrow> event_playable (stable w) (event e)) \<and>
     inputs_ok w"

lemma ev_invD:
  assumes "ev_inv w"
  shows "chan_rep (evs w) (muls w) w" "j < length (evs w) \<Longrightarrow> buf_ok (evs w ! j)"
    "sched w = Ptr (scheds w)" "length (scheds w) = length (evs w)" "\<not> tlock w"
    "j < length (evs w) \<Longrightarrow> startt (scheds w ! j) = 0 \<longleftrightarrow> eb_snd_buf (evs w ! j) = None"
    "mq_wf (mqueue w)" "e \<in># mq_bag (mqueue w) \<Longrightarrow> event_playable (stable w) (event e)" "inputs_ok w"
    "length (muls w) = length (evs w)"
  using assms chan_repD(4) [of "evs w" "muls w" w] by (auto simp: ev_inv_def)

text \<open>The invariant ignores the output buffer and the state channels.\<close>

lemma ev_inv_out [simp]: "ev_inv (w\<lparr>out_buf := o'\<rparr>) \<longleftrightarrow> ev_inv w"
  by (simp add: ev_inv_def chan_rep_def part_defs inputs_ok_def)

lemma ev_inv_sbuffs [simp]: "ev_inv (w\<lparr>sbuffs := b\<rparr>) \<longleftrightarrow> ev_inv w"
  by (simp add: ev_inv_def chan_rep_def part_defs inputs_ok_def)

lemma ev_inv_rand: "ev_inv w \<Longrightarrow> ev_inv (w\<lparr>rand_in := \<lambda>n. rand_in w (Suc n)\<rparr>)"
  by (simp add: ev_inv_def chan_rep_def part_defs inputs_ok_def)

lemma ev_inv_clock: "ev_inv w \<Longrightarrow> ev_inv (w\<lparr>clock_in := \<lambda>n. clock_in w (Suc n)\<rparr>)"
  by (simp add: ev_inv_def chan_rep_def part_defs inputs_ok_def)

text \<open>\<open>only_chan j w w'\<close>: of the mixer's state, at most channel \<open>j\<close> and its bookkeeping differ.\<close>

definition only_chan :: "nat \<Rightarrow> world \<Rightarrow> world \<Rightarrow> bool" where
  "only_chan j w w' \<longleftrightarrow>
     length (evs w') = length (evs w) \<and>
     (\<forall>k. k \<noteq> j \<longrightarrow> evs w' ! k = evs w ! k \<and> muls w' ! k = muls w ! k) \<and>
     sbuffs w' = sbuffs w \<and> no_sbuffs w' = no_sbuffs w \<and> no_ebuffs w' = no_ebuffs w \<and>
     lin_fade w' = lin_fade w \<and> chunk_size w' = chunk_size w \<and> stable w' = stable w"

lemma only_chan_refl [simp]: "only_chan j w w"
  by (simp add: only_chan_def)

lemma only_chan_trans: "only_chan j w w' \<Longrightarrow> only_chan j w' w'' \<Longrightarrow> only_chan j w w''"
  by (simp add: only_chan_def)

section \<open>A queued event takes over a channel\<close>

lemma rand_index:
  fixes cnt :: nat and r :: int
  assumes "0 < cnt" and "cnt < 2 ^ 32" and "0 \<le> r" and "r \<le> 2147483647"
  shows "\<exists>n. to_uint (real cnt * of_int r / (2147483647 + 1)) = Inr n \<and> n < cnt"
proof -
  let ?x = "real cnt * of_int r / (2147483647 + 1)"
  have x0: "0 \<le> ?x" using assms(3) by simp
  have "real cnt * of_int r < real cnt * (2147483647 + 1)"
    using assms(1,4) by (intro mult_strict_left_mono) auto
  then have x1: "?x < real cnt" by (simp add: divide_less_eq)
  obtain k where k: "trunc ?x = k" by simp
  have "0 \<le> k" "k < int cnt"
    using x0 x1 k by (auto simp: trunc_def floor_less_iff)
  moreover have "to_uint ?x = Inr (nat k)"
    using \<open>0 \<le> k\<close> \<open>k < int cnt\<close> assms(2) unfolding to_uint_def k by simp
  ultimately show ?thesis by (intro exI [of _ "nat k"]) auto
qed

lemma playable_lookup:
  assumes "engineSoundTableRetrieve name tab = Inr (Some ent)" and "se_type ent = EVENT_T"
    and "se_data ent = EventData e" and "entry_ok e"
  shows "engineSoundTableDataRetrieve name tab = Inr (EventData e)"
    and "engineGetNoEventSnds name tab = Inr (int (unat (snd_cnt e)))"
    and "n < unat (snd_cnt e) \<Longrightarrow> engineGetEventSnd name (int n) tab = Inr (snds e ! n)"
    and "n < unat (snd_cnt e) \<Longrightarrow> engineGetEventSndLen name (int n) tab = Inr (lens e ! n)"
proof -
  have "sint (snd_cnt e) = int (unat (snd_cnt e))"
    using assms(4) by (intro sint32_small) (simp add: entry_ok_def)
  then show "engineGetNoEventSnds name tab = Inr (int (unat (snd_cnt e)))"
    using assms by (simp add: engineGetNoEventSnds_def)
qed (use assms in \<open>auto simp: engineSoundTableDataRetrieve_def engineGetEventSnd_def
      engineGetEventSndLen_def entry_ok_def entry_wf_def\<close>)


lemma buf_ok_added:
  "buf_ok b \<Longrightarrow> eb_snd_buf b = None \<Longrightarrow> sample_ok d len \<Longrightarrow> 0 \<le> loc \<Longrightarrow> loc \<le> 1 \<Longrightarrow>
   buf_ok (added (Some d) len loc flags b)"
  by (simp add: buf_ok_def added_def sample_ok_def)

text \<open>
  A sound started on a free channel whose scheduler entry is then set to a non-zero start time;
  the clock may be read in between.
\<close>

text \<open>The multiplier the next sound gets.\<close>

definition next_share :: "world \<Rightarrow> real" where
  "next_share w = volume_share (occupied (evs w)) (length (evs w)) * (1 - sum_list (muls w))"

lemma start_event:
  fixes flags :: "32 word"
  assumes inv: "ev_inv w" and j: "j < length (evs w)" and free: "eb_snd_buf (evs w ! j) = None"
    and smp: "sample_ok d len" and loc: "0 \<le> loc" "loc \<le> 1"
  shows "\<exists>w1. mixerAddEvent (Some d) len loc flags j w = Inr (MIXER_SUCCESS, w1) \<and>
      sched w1 = sched w \<and> tlock w1 = tlock w \<and> rand_in w1 = rand_in w \<and> clock_in w1 = clock_in w \<and>
      stable w1 = stable w \<and> mqueue w1 = mqueue w \<and>
      (\<forall>s c. startt s \<noteq> 0 \<longrightarrow> (\<forall>n. 0 < TP_IN_FP_SECS (c n)) \<longrightarrow>
        (let w2 = w1\<lparr>clock_in := c, sched := Ptr ((scheds w)[j := s]), tlock := False\<rparr>
         in ev_inv w2 \<and> only_chan j w w2 \<and> out_buf w2 = out_buf w \<and> evs w2 ! j = added (Some d) len loc flags (evs w ! j) \<and>
            muls w2 ! j = next_share w))"
proof -
  note i = ev_invD [OF inv]
  note a = mixerAddEvent_free(1,2) [OF i(1) j free refl, where loc = loc and len = len and flags = flags]
  let ?b = "added (Some d) len loc flags (evs w ! j)"
  let ?m = "volume_share (occupied (evs w)) (length (evs w)) * (1 - sum_list (muls w))"
  let ?w1 = "w\<lparr>ebuffs := Ptr ((evs w)[j := ?b]), dyn_mul := Ptr ((muls w)[j := ?m]),
             dyn_buf_cnt := of_nat (Suc (occupied (evs w))), mlock := False\<rparr>"
  have bok: "buf_ok ?b" using buf_ok_added [OF i(2) [OF j] free smp loc] .
  have "let w2 = ?w1\<lparr>clock_in := c, sched := Ptr ((scheds w)[j := s]), tlock := False\<rparr>
         in ev_inv w2 \<and> only_chan j w w2 \<and> out_buf w2 = out_buf w \<and> evs w2 ! j = ?b \<and> muls w2 ! j = next_share w"
    if s: "startt s \<noteq> 0" and c: "\<forall>n. 0 < TP_IN_FP_SECS (c n)" for s c
  proof -
    let ?w2 = "?w1\<lparr>clock_in := c, sched := Ptr ((scheds w)[j := s]), tlock := False\<rparr>"
    have parts: "evs ?w2 = (evs w)[j := ?b]" "muls ?w2 = (muls w)[j := ?m]"
      "scheds ?w2 = (scheds w)[j := s]" by (simp_all add: part_defs)
    have "chan_rep (evs ?w2) (muls ?w2) ?w2"
      unfolding parts by (rule chan_rep_frame [OF a(2)]) simp_all
    moreover have "\<forall>k<length (evs ?w2). buf_ok (evs ?w2 ! k)"
      unfolding parts using i(2) bok j by (auto simp: nth_list_update)
    moreover have "\<forall>k<length (evs ?w2). startt (scheds ?w2 ! k) = 0 \<longleftrightarrow> eb_snd_buf (evs ?w2 ! k) = None"
      unfolding parts using i(4,6) s j by (auto simp: nth_list_update added_def)
    moreover have "inputs_ok ?w2" using i(9) c by (simp add: inputs_ok_def)
    ultimately have "ev_inv ?w2"
      using i(4,7,8) parts unfolding ev_inv_def by simp
    moreover have "only_chan j w ?w2" using parts unfolding only_chan_def by simp
    moreover have "evs ?w2 ! j = ?b" "muls ?w2 ! j = next_share w"
      unfolding parts using j i(10) by (simp_all add: next_share_def)
    ultimately show ?thesis by simp
  qed
  with a(1) show ?thesis by (intro exI [of _ ?w1]) simp
qed

lemma ev_inv_dequeued:
  assumes "ev_inv w" and "mq_wf q" and "mq_bag (mqueue w) = add_mset e (mq_bag q)"
  shows "ev_inv (w\<lparr>mqueue := q\<rparr>)"
  using assms by (simp add: ev_inv_def chan_rep_def part_defs inputs_ok_def)

lemma loc_bounds: "0 \<le> real (unat (l :: 8 word)) / 255" "real (unat l) / 255 \<le> 1"
proof -
  have "unat l \<le> 255" using unsigned_less [of l, where ?'a = nat] by simp
  then have "real (unat l) \<le> real 255" by (simp only: of_nat_le_iff)
  then show "real (unat l) / 255 \<le> 1" by simp
  show "0 \<le> real (unat l) / 255" by (intro divide_nonneg_nonneg of_nat_0_le_iff) simp
qed

lemma mixerAddOldEvent_ok:
  assumes inv: "ev_inv w" and j: "j < length (evs w)" and free: "eb_snd_buf (evs w ! j) = None"
    and q: "\<not> mixerQueueEmpty (mqueue w)"
    and e: "mq_array (mqueue w) ! 0 = Some e"
  shows "\<exists>w'. mixerAddOldEvent j w = Inr w' \<and> ev_inv w' \<and> only_chan j w w' \<and> out_buf w' = out_buf w \<and>
           mq_bag (mqueue w) = add_mset e (mq_bag (mqueue w')) \<and>
           (eb_snd_buf (evs w' ! j) \<noteq> None \<longleftrightarrow>
              TP_IN_FP_SECS (clock_in w 0) - TP_IN_FP_SECS (mix_time e) < of_int QUEUE_EXPIRED)"
proof -
  obtain q' where q': "mixerDequeue (mqueue w) = Inr (Some e, q')" "mq_wf q'"
    "mq_bag (mqueue w) = add_mset e (mq_bag q')"
    using mixerDequeue_ok [OF ev_invD(7) [OF inv] q] e by auto
  then have "event_playable (stable w) (event e)" using ev_invD(8) [OF inv] by simp
  then obtain name ent en where p: "e_sound (event e) = Some name"
    "engineSoundTableRetrieve name (stable w) = Inr (Some ent)" "se_type ent = EVENT_T"
    "se_data ent = EventData en" "entry_ok en" by (auto simp: event_playable_def)
  note lk = playable_lookup [OF p(2-5)]
  define w2 where "w2 = w\<lparr>mqueue := q', clock_in := \<lambda>n. clock_in w (Suc n)\<rparr>"
  define w3 where "w3 = w2\<lparr>rand_in := \<lambda>n. rand_in w (Suc n)\<rparr>"
  have inv2: "ev_inv w2"
    using ev_inv_clock [OF ev_inv_dequeued [OF inv q'(2,3)]] by (simp add: w2_def)
  have inv3: "ev_inv w3" using ev_inv_rand [OF inv2] by (simp add: w3_def w2_def)
  have parts: "evs w3 = evs w" "only_chan j w w3" "only_chan j w w2" "out_buf w3 = out_buf w"
    "out_buf w2 = out_buf w" "stable w3 = stable w" "stable w2 = stable w"
    by (simp_all add: w3_def w2_def part_defs only_chan_def)
  show ?thesis
  proof (cases "TP_IN_FP_SECS (clock_in w 0) - TP_IN_FP_SECS (mix_time e) < of_int QUEUE_EXPIRED")
    case False
    then have "mixerAddOldEvent j w = Inr w2"
      using q' p lk by (simp add: mixerAddOldEvent_def gettimeofday_def Let_def w2_def)
    moreover have "mqueue w2 = q'" "evs w2 = evs w" by (simp_all add: w2_def part_defs)
    ultimately show ?thesis using inv2 parts free q'(3) False by auto
  next
    case True
    have r: "0 \<le> rand_in w 0" "rand_in w 0 \<le> 2147483647"
      using ev_invD(9) [OF inv] by (simp_all add: inputs_ok_def)
    have cnt: "0 < unat (snd_cnt en)" "unat (snd_cnt en) < 2 ^ 32"
      using p(5) by (auto simp: entry_ok_def)
    obtain n where n: "to_uint (real (unat (snd_cnt en)) * of_int (rand_in w 0) / (2147483647 + 1)) = Inr n"
      "n < unat (snd_cnt en)" using rand_index [OF cnt r] by blast
    obtain d where d: "snds en ! n = Some d" "sample_ok d (lens en ! n)"
      using p(5) n(2) by (auto simp: entry_ok_def)
    have j3: "j < length (evs w3)" "eb_snd_buf (evs w3 ! j) = None" using j free parts by auto
    obtain w4 where w4: "mixerAddEvent (Some d) (lens en ! n) (real (unat (e_loc (event e))) / 255)
        (e_flags (event e)) j w3 = Inr (MIXER_SUCCESS, w4)" "sched w4 = sched w3" "tlock w4 = tlock w3"
      "clock_in w4 = clock_in w3" "mqueue w4 = mqueue w3"
      "\<And>s c. startt s \<noteq> 0 \<Longrightarrow> \<forall>n. 0 < TP_IN_FP_SECS (c n) \<Longrightarrow>
        let w5 = w4\<lparr>clock_in := c, sched := Ptr ((scheds w3)[j := s]), tlock := False\<rparr>
         in ev_inv w5 \<and> only_chan j w3 w5 \<and> out_buf w5 = out_buf w3 \<and> eb_snd_buf (evs w5 ! j) \<noteq> None"
      using start_event [OF inv3 j3 d(2) loc_bounds, of "e_loc (event e)" "e_flags (event e)"]
      by (auto simp: Let_def added_def)
    let ?t = "TP_IN_FP_SECS (clock_in w4 0)" and ?c = "\<lambda>n. clock_in w4 (Suc n)"
    let ?s = "\<lparr>startt = ?t, priorit = int (prior e), minendt = ?t\<rparr>"
    let ?w5 = "w4\<lparr>clock_in := ?c, sched := Ptr ((scheds w3)[j := ?s]), tlock := False\<rparr>"
    have clk: "0 < TP_IN_FP_SECS (clock_in w3 n)" for n using ev_invD(9) [OF inv3] by (simp add: inputs_ok_def)
    have tpos: "0 < ?t" "\<forall>n. 0 < TP_IN_FP_SECS (?c n)" using clk w4(4) by auto
    have run: "mixerAddOldEvent j w = Inr ?w5"
      using q' p lk True n d w4 ev_invD(3,4,5) [OF inv3] j3
      by (simp add: mixerAddOldEvent_def gettimeofday_def rand_def Let_def w2_def [symmetric]
          w3_def [symmetric] engineSchedulerInit_def)
    moreover have "ev_inv ?w5 \<and> only_chan j w3 ?w5 \<and> out_buf ?w5 = out_buf w3 \<and>
        eb_snd_buf (evs ?w5 ! j) \<noteq> None"
      using w4(6) [of ?s ?c] tpos by (simp add: Let_def)
    moreover have "mqueue ?w5 = q'" using w4(5) by (simp add: w3_def w2_def)
    ultimately show ?thesis
      using parts only_chan_trans [of j w w3 ?w5] q'(3) True by (intro exI [of _ ?w5]) simp
  qed
qed


section \<open>One event channel\<close>

lemma add_output_eq [simp]:
  "out_buf w = Ptr xs \<Longrightarrow> i < length xs \<Longrightarrow>
   add_output i v w = Inr (w\<lparr>out_buf := Ptr (xs[i := xs ! i + word_of_int v])\<rparr>)"
  by (simp add: add_output_def)

text \<open>The largest contribution of an event at full multiplier, \<open>0.6 * 32768\<close>.\<close>

definition EVENT_PEAK :: real where "EVENT_PEAK = 19660.8"

lemma event_sample_ok:
  assumes "unat pos < length d" and "0 \<le> dyn" "dyn \<le> 1" and "0 \<le> st" "st \<le> 1"
  shows "\<exists>v. event_sample d pos dyn st = Inr v \<and> \<bar>of_int v\<bar> \<le> EVENT_PEAK * dyn"
proof -
  let ?x = "of_int (sint (d ! unat pos)) * dyn * 0.6 * st :: real"
  have "\<bar>?x\<bar> = \<bar>of_int (sint (d ! unat pos))\<bar> * (dyn * 0.6 * st)"
    using assms by (simp add: abs_mult)
  also have "\<dots> \<le> 32768 * (dyn * 0.6 * st)"
    using assms abs_sint16 by (intro mult_right_mono) auto
  also have "\<dots> \<le> 32768 * (dyn * 0.6 * 1)"
    using assms by (intro mult_left_mono) auto
  finally have b: "\<bar>?x\<bar> \<le> EVENT_PEAK * dyn" by (simp add: EVENT_PEAK_def)
  also have "\<dots> \<le> EVENT_PEAK * 1" using assms by (intro mult_left_mono) (auto simp: EVENT_PEAK_def)
  finally have "\<bar>?x\<bar> \<le> 32767" by (simp add: EVENT_PEAK_def)
  then have "event_sample d pos dyn st = Inr (trunc ?x)"
    using assms(1) to_short_small(1) [of ?x] by (simp add: event_sample_def aget_uint)
  moreover have "\<bar>of_int (trunc ?x)\<bar> \<le> EVENT_PEAK * dyn" using abs_trunc_le [of ?x] b by linarith
  ultimately show ?thesis by blast
qed

lemma event_sample_exact:
  assumes "unat pos < length d" and "0 \<le> dyn" "dyn \<le> 1" and "0 \<le> st" "st \<le> 1"
  shows "event_sample d pos dyn st = Inr (trunc (of_int (sint (d ! unat pos)) * dyn * 0.6 * st))"
proof -
  obtain v where v: "event_sample d pos dyn st = Inr v" using event_sample_ok [OF assms] by blast
  moreover have "event_sample d pos dyn st = to_short (of_int (sint (d ! unat pos)) * dyn * 0.6 * st)"
    using assms(1) by (simp add: event_sample_def aget_uint)
  ultimately show ?thesis by (simp add: to_short_def split: if_splits)
qed

lemma muls_bounds:
  assumes "ev_inv w" and "j < length (evs w)"
  shows "0 \<le> muls w ! j" and "muls w ! j \<le> 1"
proof -
  note r = chan_repD [OF ev_invD(1) [OF assms(1)]]
  show "0 \<le> muls w ! j" using r(6) assms(2) by simp
  have "muls w ! j \<le> sum_list (muls w)"
    using r(4,6) assms(2) by (intro nth_le_sum_list_real) auto
  then show "muls w ! j \<le> 1" using r(8) by simp
qed

lemma chan_rep_advance:
  assumes "chan_rep bs ds w" and "j < length bs" and "eb_snd_buf b' = eb_snd_buf (bs ! j)"
  shows "chan_rep (bs[j := b']) ds (w\<lparr>ebuffs := Ptr (bs[j := b'])\<rparr>)"
proof -
  have "busy b' = busy (bs ! j)" using assms(3) by (simp add: busy_def)
  then have "occupied (bs[j := b']) = occupied bs" using occupied_update [OF assms(2), of b'] by simp
  with assms show ?thesis by (auto simp: chan_rep_def nth_list_update)
qed

lemma frame_step:
  fixes pos len :: "32 word"
  assumes "even (unat pos)" and "even (unat len)" and "unat pos < unat len"
  shows "unat (pos + 1) = unat pos + 1" and "unat (pos + 2) = unat pos + 2"
    and "pos + 2 \<noteq> len \<Longrightarrow> unat (pos + 2) < unat len"
proof -
  have lt: "unat len < 2 ^ 32" using unsigned_less [of len, where ?'a = nat] by simp
  have two: "unat pos + 2 \<le> unat len" using assms by (elim evenE) simp
  then show "unat (pos + 1) = unat pos + 1" and "unat (pos + 2) = unat pos + 2"
    using lt by (simp_all add: unat_word_ariths)
  then show "pos + 2 \<noteq> len \<Longrightarrow> unat (pos + 2) < unat len"
    using two by (metis le_neq_implies_less word_unat_eq_iff)
qed

text \<open>A sound that is not finished moves one frame on.\<close>

lemma ev_inv_advance:
  assumes inv: "ev_inv w" and j: "j < length (evs w)" and d: "eb_snd_buf (evs w ! j) = Some d"
    and b': "b' = (evs w ! j)\<lparr>eb_pos := eb_pos (evs w ! j) + 2\<rparr>" "eb_pos b' \<noteq> eb_len b'"
  shows "ev_inv (w\<lparr>ebuffs := Ptr ((evs w)[j := b'])\<rparr>)"
proof -
  note i = ev_invD [OF inv]
  have ok: "buf_ok (evs w ! j)" using i(2) j .
  have "buf_ok b'"
    using ok d b' frame_step [of "eb_pos (evs w ! j)" "eb_len (evs w ! j)"]
    by (auto simp: buf_ok_def sample_ok_def)
  moreover have "chan_rep ((evs w)[j := b']) (muls w) (w\<lparr>ebuffs := Ptr ((evs w)[j := b'])\<rparr>)"
    using chan_rep_advance [OF i(1) j] d b' by simp
  ultimately show ?thesis
    using inv j d b' unfolding ev_inv_def
    by (auto simp: part_defs nth_list_update inputs_ok_def)
qed

text \<open>A finished sound is removed.\<close>

lemma remove_finished:
  assumes inv: "ev_inv w" and j: "j < length (evs w)" and d: "eb_snd_buf (evs w ! j) = Some d"
    and b': "eb_snd_buf b' = eb_snd_buf (evs w ! j)"
  shows "\<exists>w'. mixerRemoveEvent j (w\<lparr>ebuffs := Ptr ((evs w)[j := b'])\<rparr>) = Inr w' \<and> ev_inv w' \<and>
           only_chan j w w' \<and> out_buf w' = out_buf w \<and> eb_snd_buf (evs w' ! j) = None"
proof -
  let ?w = "w\<lparr>ebuffs := Ptr ((evs w)[j := b'])\<rparr>" and ?bs = "(evs w)[j := b']"
  note i = ev_invD [OF inv]
  have rep: "chan_rep ?bs (muls w) ?w" using chan_rep_advance [OF i(1) j b'] .
  have pre: "j < length ?bs" "eb_snd_buf (?bs ! j) \<noteq> None" "sched ?w = Ptr (scheds w)"
    "j < length (scheds w)" "\<not> tlock ?w" using j d b' i(3,4,5) by auto
  note rm = mixerRemoveEvent_occupied [OF rep pre]
  let ?w' = "?w\<lparr>ebuffs := Ptr (?bs[j := cleared (?bs ! j)]), dyn_mul := Ptr ((muls w)[j := 0]),
             dyn_buf_cnt := of_nat (occupied ?bs - 1), mlock := False,
             sched := Ptr ((scheds w)[j := zero_sched]), tlock := False\<rparr>"
  have parts: "evs ?w' = (evs w)[j := cleared b']" "muls ?w' = (muls w)[j := 0]"
    "scheds ?w' = (scheds w)[j := zero_sched]" using j by (simp_all add: part_defs)
  have rep': "chan_rep (evs ?w') (muls ?w') ?w'" using rm(2) parts j by simp
  have ok: "\<forall>k<length (evs ?w'). buf_ok (evs ?w' ! k)"
    unfolding parts using i(2) j by (auto simp: nth_list_update buf_ok_def cleared_def)
  have st: "\<forall>k<length (evs ?w'). startt (scheds ?w' ! k) = 0 \<longleftrightarrow> eb_snd_buf (evs ?w' ! k) = None"
    unfolding parts using i(4,6) j by (auto simp: nth_list_update cleared_def zero_sched_def)
  have "inputs_ok ?w'" using i(9) by (simp add: inputs_ok_def)
  then have "ev_inv ?w'" using rep' ok st i(4,7,8) parts unfolding ev_inv_def by simp
  moreover have "only_chan j w ?w'" using parts unfolding only_chan_def by simp
  moreover have "eb_snd_buf (evs ?w' ! j) = None" unfolding parts using j by (simp add: cleared_def)
  ultimately show ?thesis using rm(1) by auto
qed


definition add_frame :: "nat \<Rightarrow> int \<Rightarrow> int \<Rightarrow> 16 word list \<Rightarrow> 16 word list" where
  "add_frame i l r xs = xs[i := xs ! i + word_of_int l, Suc i := xs ! Suc i + word_of_int r]"

lemma add_frame_0 [simp]: "add_frame i 0 0 xs = xs"
  by (simp add: add_frame_def)

lemma length_add_frame [simp]: "length (add_frame i l r xs) = length xs"
  by (simp add: add_frame_def)

text \<open>
  What channel \<open>j\<close> contributes to a frame, as integers: its next two samples, scaled by its share of the volume
  and by its position.
\<close>

definition event_left :: "world \<Rightarrow> nat \<Rightarrow> int" where
  "event_left w j = (let b = evs w ! j in case eb_snd_buf b of None \<Rightarrow> 0
     | Some d \<Rightarrow> trunc (of_int (sint (d ! unat (eb_pos b))) * muls w ! j * EVENT_MULT * eb_stereo_pos b))"

definition event_right :: "world \<Rightarrow> nat \<Rightarrow> int" where
  "event_right w j = (let b = evs w ! j in case eb_snd_buf b of None \<Rightarrow> 0
     | Some d \<Rightarrow> trunc (of_int (sint (d ! unat (eb_pos b + 1))) * muls w ! j * EVENT_MULT * (1 - eb_stereo_pos b)))"

lemmas event_part_defs = event_left_def event_right_def

lemma mix_event_ok:
  assumes inv: "ev_inv w" and j: "j < length (evs w)" and out: "out_buf w = Ptr xs" "Suc i < length xs"
  shows "\<exists>w' l r. mix_event i j w = Inr w' \<and> ev_inv w' \<and> only_chan j w w' \<and>
           out_buf w' = Ptr (add_frame i l r xs) \<and>
           \<bar>of_int l\<bar> \<le> EVENT_PEAK * muls w ! j \<and> \<bar>of_int r\<bar> \<le> EVENT_PEAK * muls w ! j \<and>
           l = event_left w j \<and> r = event_right w j"
proof (cases "eb_snd_buf (evs w ! j)")
  case None
  have "mix_event i j w = Inr w"
    using None j chan_repD(1) [OF ev_invD(1) [OF inv]] by (simp add: mix_event_def)
  moreover have "0 \<le> EVENT_PEAK * muls w ! j"
    using muls_bounds(1) [OF inv j] by (simp add: EVENT_PEAK_def)
  moreover have "event_left w j = 0" "event_right w j = 0" using None by (simp_all add: event_part_defs Let_def)
  ultimately show ?thesis using inv out by (intro exI [of _ w] exI [of _ 0]) auto
next
  case (Some d)
  let ?b = "evs w ! j"
  let ?b' = "?b\<lparr>eb_pos := eb_pos ?b + 2\<rparr>"
  note i = ev_invD [OF inv] and r = chan_repD [OF ev_invD(1) [OF inv]]
  have ok: "sample_ok d (eb_len ?b)" "even (unat (eb_pos ?b))" "unat (eb_pos ?b) < unat (eb_len ?b)"
    "0 \<le> eb_stereo_pos ?b" "eb_stereo_pos ?b \<le> 1"
    using i(2) [OF j] Some by (simp_all add: buf_ok_def)
  have len: "even (unat (eb_len ?b))" "unat (eb_len ?b) \<le> length d" using ok(1) by (auto simp: sample_ok_def)
  note fs = frame_step [OF ok(2) len(1) ok(3)]
  have p1: "unat (eb_pos ?b + 1) < length d"
    using fs(1) ok(2,3) len by (elim evenE) simp
  obtain l where l: "event_sample d (eb_pos ?b) (muls w ! j) (eb_stereo_pos ?b) = Inr l"
    "\<bar>of_int l\<bar> \<le> EVENT_PEAK * muls w ! j"
    using event_sample_ok [of "eb_pos ?b" d "muls w ! j" "eb_stereo_pos ?b"]
      muls_bounds [OF inv j] ok len by auto
  obtain rr where rr: "event_sample d (eb_pos ?b + 1) (muls w ! j) (1 - eb_stereo_pos ?b) = Inr rr"
    "\<bar>of_int rr\<bar> \<le> EVENT_PEAK * muls w ! j"
    using event_sample_ok [OF p1, of "muls w ! j" "1 - eb_stereo_pos ?b"]
      muls_bounds [OF inv j] ok by auto
  have exact: "l = event_left w j" "rr = event_right w j"
    using event_sample_exact [of "eb_pos ?b" d "muls w ! j" "eb_stereo_pos ?b"] l(1)
      event_sample_exact [OF p1, of "muls w ! j" "1 - eb_stereo_pos ?b"] rr(1)
      muls_bounds [OF inv j] ok len Some by (simp_all add: event_part_defs Let_def)
  define w2 where "w2 = w\<lparr>out_buf := Ptr (add_frame i l rr xs)\<rparr>"
  have w2: "ev_inv w2" "evs w2 = evs w" "only_chan j w w2" "out_buf w2 = Ptr (add_frame i l rr xs)"
    using inv by (simp_all add: w2_def part_defs only_chan_def)
  let ?w3 = "w2\<lparr>ebuffs := Ptr ((evs w)[j := ?b'])\<rparr>"
  have run: "mix_event i j w =
      (if eb_pos ?b' = eb_len ?b'
       then bindE (mixerRemoveEvent j ?w3) (\<lambda>w4.
              if \<not> mixerQueueEmpty (mqueue w4) then mixerAddOldEvent j w4 else Inr w4)
       else Inr ?w3)"
    using Some r(1,2,4) j l(1) rr(1) out
    by (simp add: mix_event_def Let_def mixerApplyEventFilters_def w2_def add_frame_def)
  have "\<exists>w'. mix_event i j w = Inr w' \<and> ev_inv w' \<and> only_chan j w2 w' \<and> out_buf w' = out_buf w2"
  proof (cases "eb_pos ?b' = eb_len ?b'")
    case False
    then show ?thesis
      using run ev_inv_advance [of w2 j d ?b'] w2 j Some
      by (simp add: only_chan_def part_defs)
  next
    case True
    have "\<exists>w4. mixerRemoveEvent j ?w3 = Inr w4 \<and> ev_inv w4 \<and> only_chan j w2 w4 \<and>
        out_buf w4 = out_buf w2 \<and> eb_snd_buf (evs w4 ! j) = None"
      using remove_finished [of w2 j d ?b'] w2 j Some by simp
    then obtain w4 where w4: "mixerRemoveEvent j ?w3 = Inr w4" "ev_inv w4" "only_chan j w2 w4"
      "out_buf w4 = out_buf w2" "eb_snd_buf (evs w4 ! j) = None" by blast
    have j4: "j < length (evs w4)" using w4(3) j w2(2) by (simp add: only_chan_def)
    show ?thesis
    proof (cases "mixerQueueEmpty (mqueue w4)")
      case True
      with run w4 \<open>eb_pos ?b' = eb_len ?b'\<close> show ?thesis by auto
    next
      case False
      then obtain e where "mq_array (mqueue w4) ! 0 = Some e"
        using mixerDequeue_ok [OF ev_invD(7) [OF w4(2)]] by metis
      with False mixerAddOldEvent_ok [OF w4(2) j4 w4(5)] obtain w' where
        "mixerAddOldEvent j w4 = Inr w'" "ev_inv w'" "only_chan j w4 w'" "out_buf w' = out_buf w4" by blast
      with run w4 False \<open>eb_pos ?b' = eb_len ?b'\<close> only_chan_trans [of j w2 w4 w'] show ?thesis by auto
    qed
  qed
  then obtain w' where "mix_event i j w = Inr w'" "ev_inv w'" "only_chan j w2 w'" "out_buf w' = out_buf w2"
    by blast
  then show ?thesis using w2 l(2) rr(2) exact only_chan_trans [of j w w2 w'] by auto
qed

section \<open>All event channels of one frame\<close>

text \<open>What the event loop does to a frame: it adds \<open>l\<close> and \<open>r\<close>, and touches no state channel.\<close>

definition same_rest :: "world \<Rightarrow> world \<Rightarrow> bool" where
  "same_rest w w' \<longleftrightarrow> sbuffs w' = sbuffs w \<and> no_sbuffs w' = no_sbuffs w \<and> no_ebuffs w' = no_ebuffs w \<and>
     lin_fade w' = lin_fade w \<and> chunk_size w' = chunk_size w \<and> stable w' = stable w"

lemma add_frame_add:
  assumes "Suc i < length xs"
  shows "add_frame i l' r' (add_frame i l r xs) = add_frame i (l + l') (r + r') xs"
  using assms by (intro nth_equalityI) (auto simp: add_frame_def nth_list_update ac_simps)

lemma mix_events_ok:
  assumes inv: "ev_inv w" and out: "out_buf w = Ptr xs" "Suc i < length xs"
  shows "\<exists>w' l r. foldE (mix_event i) [0..<unat (no_ebuffs w)] w = Inr w' \<and> ev_inv w' \<and> same_rest w w' \<and>
           out_buf w' = Ptr (add_frame i l r xs) \<and>
           \<bar>of_int l\<bar> \<le> EVENT_PEAK * sum_list (muls w) \<and> \<bar>of_int r\<bar> \<le> EVENT_PEAK * sum_list (muls w) \<and>
           l = (\<Sum>j<length (evs w). event_left w j) \<and> r = (\<Sum>j<length (evs w). event_right w j)"
proof -
  let ?n = "length (evs w)"
  note c = chan_repD [OF ev_invD(1) [OF inv]]
  define P where "P j w' \<longleftrightarrow> ev_inv w' \<and> same_rest w w' \<and> length (evs w') = ?n \<and>
      (\<forall>k\<ge>j. muls w' ! k = muls w ! k \<and> evs w' ! k = evs w ! k) \<and>
      (\<exists>l r. out_buf w' = Ptr (add_frame i l r xs) \<and>
         \<bar>of_int l\<bar> \<le> EVENT_PEAK * sum_list (take j (muls w)) \<and>
         \<bar>of_int r\<bar> \<le> EVENT_PEAK * sum_list (take j (muls w)) \<and>
         l = (\<Sum>k<j. event_left w k) \<and> r = (\<Sum>k<j. event_right w k))" for j w'
  have "P 0 w" using inv out by (auto simp: P_def same_rest_def intro!: exI [of _ 0])
  moreover have "\<exists>w2. mix_event i j w1 = Inr w2 \<and> P (Suc j) w2" if j: "j < ?n" and P: "P j w1" for j w1
  proof -
    from P obtain l r where lr: "out_buf w1 = Ptr (add_frame i l r xs)"
      "\<bar>of_int l\<bar> \<le> EVENT_PEAK * sum_list (take j (muls w))"
      "\<bar>of_int r\<bar> \<le> EVENT_PEAK * sum_list (take j (muls w))"
      "l = (\<Sum>k<j. event_left w k)" "r = (\<Sum>k<j. event_right w k)" by (auto simp: P_def)
    obtain w2 l' r' where w2: "mix_event i j w1 = Inr w2" "ev_inv w2" "only_chan j w1 w2"
      "out_buf w2 = Ptr (add_frame i l' r' (add_frame i l r xs))"
      "\<bar>of_int l'\<bar> \<le> EVENT_PEAK * muls w1 ! j" "\<bar>of_int r'\<bar> \<le> EVENT_PEAK * muls w1 ! j"
      "l' = event_left w1 j" "r' = event_right w1 j"
      using mix_event_ok [of w1 j "add_frame i l r xs" i] P j lr(1) out(2) unfolding P_def by auto
    have m: "muls w1 ! j = muls w ! j" "sum_list (take (Suc j) (muls w)) = sum_list (take j (muls w)) + muls w ! j"
      using P j c(4) by (auto simp: P_def take_Suc_conv_app_nth)
    have at: "evs w1 ! j = evs w ! j" using P by (simp add: P_def)
    have "event_left w1 j = event_left w j" "event_right w1 j = event_right w j"
      unfolding event_part_defs m(1) at by simp_all
    then have "l + l' = (\<Sum>k<Suc j. event_left w k)" "r + r' = (\<Sum>k<Suc j. event_right w k)"
      using lr(4,5) w2(7,8) by simp_all
    moreover have "\<bar>of_int (l + l')\<bar> \<le> EVENT_PEAK * sum_list (take (Suc j) (muls w))"
      "\<bar>of_int (r + r')\<bar> \<le> EVENT_PEAK * sum_list (take (Suc j) (muls w))"
      using lr(2,3) w2(5,6) unfolding m by (simp_all add: distrib_left)
    moreover have "out_buf w2 = Ptr (add_frame i (l + l') (r + r') xs)"
      using w2(4) add_frame_add [OF out(2)] by simp
    moreover have "ev_inv w2" "same_rest w w2" "length (evs w2) = ?n"
      "\<forall>k\<ge>Suc j. muls w2 ! k = muls w ! k \<and> evs w2 ! k = evs w ! k"
      using w2(2,3) P by (auto simp: P_def only_chan_def same_rest_def)
    ultimately have "P (Suc j) w2" unfolding P_def by blast
    with w2(1) show ?thesis by blast
  qed
  ultimately obtain w' where "foldE (mix_event i) [0..<?n] w = Inr w'" "P ?n w'"
    using foldE_range_invariant [of P w ?n "mix_event i"] by blast
  then show ?thesis using c(3,4) by (auto simp: P_def)
qed

end
