(* ===== verification/Mixer_Chunk.thy ===== *)
theory Mixer_Chunk
  imports Mixer_Play
begin

text \<open>
  State sounds and whole chunks.  The state channels keep their own invariant (segments loaded,
  position inside the current segment); mixing a frame and a chunk preserves both invariants
  and never faults.  This part covers states without the fade effect; \<open>mixerFadeEffect\<close> itself is
  treated at the end.
\<close>

section \<open>The invariant of the state channels\<close>

definition sbs :: "world \<Rightarrow> STATE_BUF list" where
  "sbs w = (case sbuffs w of Ptr bs \<Rightarrow> bs | _ \<Rightarrow> [])"

text \<open>A state sound: unloaded, or with segments of which the current one is playable or missing.\<close>

definition snd_ok :: "STATE_SND \<Rightarrow> bool" where
  "snd_ok s \<longleftrightarrow> (case ss_snd_buf s of None \<Rightarrow> ss_snd_cnt s = 0 | Some bufs \<Rightarrow>
     length bufs = unat (ss_snd_cnt s) \<and> length (ss_len s) = unat (ss_snd_cnt s) \<and>
     unat (ss_snd_no s) < unat (ss_snd_cnt s) \<and> even (unat (ss_pos s)) \<and>
     (\<forall>i<length bufs. \<forall>d. bufs ! i = Some d \<longrightarrow> sample_ok d (ss_len s ! i)) \<and>
     (bufs ! unat (ss_snd_no s) \<noteq> None \<longrightarrow> unat (ss_pos s) < unat (ss_len s ! unat (ss_snd_no s))))"

definition state_ok :: "STATE_BUF \<Rightarrow> bool" where
  "state_ok b \<longleftrightarrow> 0 \<le> sb_vol b \<and> sb_vol b \<le> 1 \<and> 0 \<le> sb_stereo_pos b \<and> sb_stereo_pos b \<le> 1 \<and>
     sb_filter_flag b AND STATE_LINEAR_FADE_FLAG = 0 \<and>
     (case sb_thresh b of None \<Rightarrow> sb_thresh_cnt b \<le> 0 | Some ts \<Rightarrow>
        sb_thresh_cnt b = int (length ts) \<and> (\<forall>t\<in>set ts. snd_ok (state_snd t)))"

definition st_inv :: "world \<Rightarrow> bool" where
  "st_inv w \<longleftrightarrow> sbuffs w = Ptr (sbs w) \<and> length (sbs w) = unat (no_sbuffs w) \<and>
     (\<forall>b\<in>set (sbs w). state_ok b)"

lemma st_inv_frame:
  "st_inv w \<Longrightarrow> sbuffs w' = sbuffs w \<Longrightarrow> no_sbuffs w' = no_sbuffs w \<Longrightarrow> st_inv w'"
  by (simp add: st_inv_def sbs_def)

section \<open>Choosing the threshold\<close>

definition last_match :: "THRESHOLD list \<Rightarrow> real \<Rightarrow> nat" where
  "last_match ts vol = fold (\<lambda>i x. if in_bounds vol (ts ! i) then i else x) [0..<length ts] 0"

definition selected :: "STATE_BUF \<Rightarrow> real \<Rightarrow> nat option" where
  "selected b vol = (case sb_thresh b of None \<Rightarrow> None | Some ts \<Rightarrow>
     (let k = last_match ts vol in
      if k < length ts \<and> ss_snd_buf (state_snd (ts ! k)) \<noteq> None then Some k else None))"

lemma last_match_less: "ts \<noteq> [] \<Longrightarrow> last_match ts vol < length ts"
proof -
  assume "ts \<noteq> []"
  have "fold (\<lambda>i x. if in_bounds vol (ts ! i) then i else x) is x < n"
    if "x < n" "\<forall>i\<in>set is. i < n" for "is" and x n :: nat
    using that by (induction "is" arbitrary: x) auto
  from this [of 0 "length ts" "[0..<length ts]"] \<open>ts \<noteq> []\<close> show ?thesis by (simp add: last_match_def)
qed

definition thresh_wf :: "STATE_BUF \<Rightarrow> bool" where
  "thresh_wf b \<longleftrightarrow> (\<forall>ts. sb_thresh b = Some ts \<longrightarrow> sb_thresh_cnt b = int (length ts))"

lemma state_ok_thresh: "state_ok b \<Longrightarrow> thresh_wf b"
  by (auto simp: state_ok_def thresh_wf_def)

lemma sndptr_eq:
  assumes sb: "sbuffs w = Ptr bs" and j: "j < length bs" and ok: "thresh_wf (bs ! j)"
  shows "mixerGetStateSndPtr (int j) vol w = Inr (map_option int (selected (bs ! j) vol))"
proof (cases "sb_thresh (bs ! j)")
  case None
  then show ?thesis using sb j by (simp add: mixerGetStateSndPtr_def selected_def)
next
  case (Some ts)
  let ?b = "bs ! j"
  have cnt: "sb_thresh_cnt ?b = int (length ts)" using ok Some by (simp add: thresh_wf_def)
  have th: "i < length ts \<Longrightarrow> get_threshold ?b (int i) = Inr (ts ! i)" for i
    using Some by (simp add: get_threshold_def)
  have "foldE (\<lambda>i index. bindE (get_threshold ?b (int i)) (\<lambda>t.
          Inr (if in_bounds vol t then int i else index))) [0..<length ts] (int x) =
        Inr (int (fold (\<lambda>i x. if in_bounds vol (ts ! i) then i else x) [0..<length ts] x))" for x
  proof -
    have "foldE (\<lambda>i index. bindE (get_threshold ?b (int i)) (\<lambda>t.
          Inr (if in_bounds vol t then int i else index))) is (int x) =
        Inr (int (fold (\<lambda>i x. if in_bounds vol (ts ! i) then i else x) is x))"
      if "\<forall>i\<in>set is. i < length ts" for "is" x
      using that by (induction "is" arbitrary: x) (auto simp: th)
    then show ?thesis by simp
  qed
  from this [of 0] have fold: "foldE (\<lambda>i index. bindE (get_threshold ?b (int i)) (\<lambda>t.
          Inr (if in_bounds vol t then int i else index))) [0..<length ts] 0 =
        Inr (int (last_match ts vol))" by (simp add: last_match_def)
  show ?thesis
    using sb j Some cnt fold th [of "last_match ts vol"]
    by (auto simp: mixerGetStateSndPtr_def selected_def Let_def)
qed

text \<open>The choice ignores what playing changes.\<close>

lemma selected_update:
  assumes "sb_thresh b = Some ts" and "k < length ts"
    and "ss_snd_buf s = None \<longleftrightarrow> ss_snd_buf (state_snd (ts ! k)) = None"
  shows "selected (b\<lparr>sb_thresh := Some (ts[k := (ts ! k)\<lparr>state_snd := s\<rparr>])\<rparr>) vol = selected b vol"
proof -
  let ?ts = "ts[k := (ts ! k)\<lparr>state_snd := s\<rparr>]"
  have "in_bounds vol (?ts ! i) = in_bounds vol (ts ! i)" for i
    using assms(2) by (cases "i = k") (auto simp: in_bounds_def)
  then have "last_match ?ts vol = last_match ts vol" by (simp add: last_match_def)
  then show ?thesis using assms by (auto simp: selected_def Let_def nth_list_update)
qed

lemma selectedD:
  assumes "selected b vol = Some k" and "state_ok b"
  obtains ts where "sb_thresh b = Some ts" "k < length ts" "ss_snd_buf (state_snd (ts ! k)) \<noteq> None"
    "snd_ok (state_snd (ts ! k))"
  using assms by (auto simp: selected_def state_ok_def Let_def split: option.splits if_splits)


section \<open>One state channel\<close>

definition STATE_PEAK :: real where "STATE_PEAK = 13107.2"

lemma state_sample_ok:
  assumes "unat pos < length d" and "0 \<le> vol" "vol \<le> 1" and "0 \<le> st" "st \<le> 1"
  shows "\<exists>v. state_sample d pos vol st = Inr v \<and> \<bar>of_int v\<bar> \<le> STATE_PEAK * vol \<and>
    v = trunc (vol * st * STATE_MULT * of_int (sint (d ! unat pos)))"
proof -
  let ?x = "vol * st * 0.4 * of_int (sint (d ! unat pos)) :: real"
  have "\<bar>?x\<bar> = vol * st * 0.4 * \<bar>of_int (sint (d ! unat pos))\<bar>"
    using assms by (simp add: abs_mult)
  also have "\<dots> \<le> vol * st * 0.4 * 32768"
    using assms abs_sint16 by (intro mult_left_mono) auto
  also have "\<dots> = STATE_PEAK * vol * st" by (simp add: STATE_PEAK_def)
  also have "\<dots> \<le> STATE_PEAK * vol * 1"
    using assms by (intro mult_left_mono) (auto simp: STATE_PEAK_def)
  finally have b: "\<bar>?x\<bar> \<le> STATE_PEAK * vol" by simp
  also have "\<dots> \<le> STATE_PEAK * 1" using assms by (intro mult_left_mono) (auto simp: STATE_PEAK_def)
  finally have "\<bar>?x\<bar> \<le> 32767" by (simp add: STATE_PEAK_def)
  then have "state_sample d pos vol st = Inr (trunc ?x)"
    using assms(1) to_short_small(1) [of ?x] by (simp add: state_sample_def aget_uint)
  moreover have "\<bar>of_int (trunc ?x)\<bar> \<le> STATE_PEAK * vol" using abs_trunc_le [of ?x] b by linarith
  ultimately show ?thesis by blast
qed

text \<open>The state with sound \<open>s\<close> in threshold \<open>k\<close> of channel \<open>j\<close>.\<close>

definition put_snd :: "nat \<Rightarrow> nat \<Rightarrow> STATE_SND \<Rightarrow> STATE_BUF list \<Rightarrow> STATE_BUF list" where
  "put_snd j k s bs = bs[j := (bs ! j)\<lparr>sb_thresh :=
     map_option (\<lambda>ts. ts[k := (ts ! k)\<lparr>state_snd := s\<rparr>]) (sb_thresh (bs ! j))\<rparr>]"

lemma get_state_snd_eq:
  "sbuffs w = Ptr bs \<Longrightarrow> j < length bs \<Longrightarrow> sb_thresh (bs ! j) = Some ts \<Longrightarrow> k < length ts \<Longrightarrow>
   get_state_snd j (int k) w = Inr (state_snd (ts ! k))"
  by (simp add: get_state_snd_def get_threshold_def)

lemma set_state_snd_eq:
  "sbuffs w = Ptr bs \<Longrightarrow> j < length bs \<Longrightarrow> sb_thresh (bs ! j) = Some ts \<Longrightarrow> k < length ts \<Longrightarrow>
   set_state_snd j (int k) s w = Inr (w\<lparr>sbuffs := Ptr (put_snd j k s bs)\<rparr>)"
  by (simp add: set_state_snd_def get_threshold_def put_snd_def)

lemma put_snd_simps:
  assumes "j < length bs" and "sb_thresh (bs ! j) = Some ts" and "k < length ts"
  shows "length (put_snd j k s bs) = length bs"
    "sb_thresh (put_snd j k s bs ! j) = Some (ts[k := (ts ! k)\<lparr>state_snd := s\<rparr>])"
    "sb_vol (put_snd j k s bs ! i) = sb_vol (bs ! i)"
    "put_snd j k s' (put_snd j k s bs) = put_snd j k s' bs"
  using assms by (cases "i = j"; simp add: put_snd_def)+

lemma put_snd_state_ok:
  assumes "\<forall>b\<in>set bs. state_ok b" and "j < length bs" and "sb_thresh (bs ! j) = Some ts"
    and "k < length ts" and "snd_ok s"
  shows "\<forall>b\<in>set (put_snd j k s bs). state_ok b"
proof -
  have ok: "state_ok (bs ! j)" using assms(1,2) by simp
  have "state_ok ((bs ! j)\<lparr>sb_thresh := Some (ts[k := (ts ! k)\<lparr>state_snd := s\<rparr>])\<rparr>)"
    using ok assms(3-5) set_update_subset_insert [of ts k "(ts ! k)\<lparr>state_snd := s\<rparr>"]
    by (auto simp: state_ok_def)
  then show ?thesis
    using assms(1-3) set_update_subset_insert [of bs j] by (fastforce simp: put_snd_def)
qed

lemma filters_off:
  "sbuffs w = Ptr bs \<Longrightarrow> j < length bs \<Longrightarrow> sb_filter_flag (bs ! j) AND STATE_LINEAR_FADE_FLAG = 0 \<Longrightarrow>
   mixerApplyStateFilters x p j w = Inr (x, w)"
  by (simp add: mixerApplyStateFilters_def)

lemma pick_random_ok:
  assumes sb: "sbuffs w = Ptr bs" and j: "j < length bs" and ok: "thresh_wf (bs ! j)"
    and sel: "selected (bs ! j) (sb_vol (bs ! j)) = Some k"
    and ts: "sb_thresh (bs ! j) = Some ts" "k < length ts" "0 < unat (ss_snd_cnt (state_snd (ts ! k)))"
    and inp: "inputs_ok w"
  shows "\<exists>n. mixerPickRndStateSnd j w = Inr (n, w\<lparr>rand_in := \<lambda>m. rand_in w (Suc m)\<rparr>) \<and>
             n < unat (ss_snd_cnt (state_snd (ts ! k)))"
proof -
  let ?c = "unat (ss_snd_cnt (state_snd (ts ! k)))"
  have r: "0 \<le> rand_in w 0" "rand_in w 0 \<le> 2147483647" using inp by (simp_all add: inputs_ok_def)
  have c: "?c < 2 ^ 32" by (rule unat32_less)
  obtain n where n: "to_uint (real ?c * of_int (rand_in w 0) / (2147483647 + 1)) = Inr n" "n < ?c"
    using rand_index [OF ts(3) c r] by blast
  have "mixerPickRndStateSnd j w = Inr (n, w\<lparr>rand_in := \<lambda>m. rand_in w (Suc m)\<rparr>)"
    using sb j n(1) sndptr_eq [OF sb j ok] sel get_state_snd_eq [OF sb j ts(1,2)]
    by (simp add: mixerPickRndStateSnd_def rand_def Let_def)
  with n(2) show ?thesis by blast
qed


lemma snd_ok_step:
  assumes "snd_ok s" and "ss_snd_buf s = Some bufs" and "bufs ! unat (ss_snd_no s) = Some d"
  shows "unat (ss_pos s) < length d" and "unat (ss_pos s + 1) < length d"
    and "unat (ss_snd_no s) < length bufs" and "unat (ss_snd_no s) < length (ss_len s)"
    and "\<not> ss_len s ! unat (ss_snd_no s) \<le> ss_pos s + 2 \<Longrightarrow> snd_ok (s\<lparr>ss_pos := ss_pos s + 2\<rparr>)"
    and "n < unat (ss_snd_cnt s) \<Longrightarrow> snd_ok (s\<lparr>ss_pos := 0, ss_snd_no := of_nat n\<rparr>)"
proof -
  let ?len = "ss_len s ! unat (ss_snd_no s)"
  have ok: "length bufs = unat (ss_snd_cnt s)" "length (ss_len s) = unat (ss_snd_cnt s)"
    "unat (ss_snd_no s) < unat (ss_snd_cnt s)" "even (unat (ss_pos s))"
    "\<And>i d. i < length bufs \<Longrightarrow> bufs ! i = Some d \<Longrightarrow> sample_ok d (ss_len s ! i)"
    "unat (ss_pos s) < unat ?len"
    using assms by (auto simp: snd_ok_def)
  show "unat (ss_snd_no s) < length bufs" "unat (ss_snd_no s) < length (ss_len s)" using ok by auto
  have d: "even (unat ?len)" "unat ?len \<le> length d"
    using ok(5) [of "unat (ss_snd_no s)" d] ok(1,3) assms(3) by (auto simp: sample_ok_def)
  note fs = frame_step [OF ok(4) d(1) ok(6)]
  show "unat (ss_pos s) < length d" using ok(6) d(2) by simp
  show "unat (ss_pos s + 1) < length d" using fs(1) ok(4,6) d by (elim evenE) simp
  show "snd_ok (s\<lparr>ss_pos := ss_pos s + 2\<rparr>)" if "\<not> ?len \<le> ss_pos s + 2"
  proof -
    have "unat (ss_pos s + 2) < unat ?len" using that by (simp add: word_le_nat_alt)
    moreover have "even (unat (ss_pos s + 2))" using fs(2) ok(4) by simp
    ultimately show ?thesis using assms(1,2) by (simp add: snd_ok_def)
  qed
  show "snd_ok (s\<lparr>ss_pos := 0, ss_snd_no := of_nat n\<rparr>)" if "n < unat (ss_snd_cnt s)"
  proof -
    have "unat (of_nat n :: 32 word) = n"
      using that unat32_less [of "ss_snd_cnt s"] by (intro unat_of_nat32) linarith
    then show ?thesis using that ok(1,2,5) assms(2) by (auto simp: snd_ok_def sample_ok_def)
  qed
qed

text \<open>What a state channel may change besides the output.\<close>

definition state_step :: "nat \<Rightarrow> world \<Rightarrow> world \<Rightarrow> bool" where
  "state_step j w w' \<longleftrightarrow> length (sbs w') = length (sbs w) \<and>
     (\<forall>k. k \<noteq> j \<longrightarrow> sbs w' ! k = sbs w ! k) \<and> (\<forall>k. sb_vol (sbs w' ! k) = sb_vol (sbs w ! k)) \<and>
     muls w' = muls w \<and> no_sbuffs w' = no_sbuffs w \<and> no_ebuffs w' = no_ebuffs w \<and>
     chunk_size w' = chunk_size w \<and> lin_fade w' = lin_fade w \<and> stable w' = stable w"

lemma state_step_refl [simp]: "state_step j w w"
  by (simp add: state_step_def)

text \<open>The part of \<open>mix_state\<close> after the two samples are computed.\<close>

lemma mix_state_tail:
  assumes inv: "ev_inv w" and st: "st_inv w" and j: "j < length (sbs w)"
    and sel: "selected (sbs w ! j) (sb_vol (sbs w ! j)) = Some k"
    and ts: "sb_thresh (sbs w ! j) = Some ts" "k < length ts"
    and s: "s = state_snd (ts ! k)" "ss_snd_buf s = Some bufs" "bufs ! unat (ss_snd_no s) = Some d"
      "snd_ok s"
  shows "\<exists>w'. bindE (set_state_snd j (int k) (s\<lparr>ss_pos := ss_pos s + 2\<rparr>) w) (\<lambda>w6.
       bindE (aget (ss_len s) (uint (ss_snd_no s))) (\<lambda>len.
       if ss_pos s + 2 \<ge> len
       then bindE (mixerPickRndStateSnd j w6) (\<lambda>(n, w7).
            set_state_snd j (int k) (s\<lparr>ss_pos := 0, ss_snd_no := of_nat n\<rparr>) w7)
       else Inr w6)) = Inr w' \<and> ev_inv w' \<and> st_inv w' \<and> state_step j w w' \<and> out_buf w' = out_buf w"
proof -
  let ?s6 = "s\<lparr>ss_pos := ss_pos s + 2\<rparr>" and ?bs = "sbs w"
  let ?w6 = "w\<lparr>sbuffs := Ptr (put_snd j k ?s6 ?bs)\<rparr>"
  have sb: "sbuffs w = Ptr ?bs" "\<forall>b\<in>set ?bs. state_ok b" using st by (simp_all add: st_inv_def)
  note step = snd_ok_step [OF s(4,2,3)] and put = put_snd_simps [OF j ts]
  have run: "set_state_snd j (int k) ?s6 w = Inr ?w6" using set_state_snd_eq [OF sb(1) j ts] .
  have len: "aget (ss_len s) (uint (ss_snd_no s)) = Inr (ss_len s ! unat (ss_snd_no s))"
    using step(4) by (simp add: aget_uint)
  have result: "ev_inv (w\<lparr>sbuffs := Ptr (put_snd j k x ?bs), rand_in := r\<rparr>) \<and>
      st_inv (w\<lparr>sbuffs := Ptr (put_snd j k x ?bs), rand_in := r\<rparr>) \<and>
      state_step j w (w\<lparr>sbuffs := Ptr (put_snd j k x ?bs), rand_in := r\<rparr>)"
    if x: "snd_ok x" and r: "\<forall>n. 0 \<le> r n \<and> r n \<le> 2147483647" for x r
  proof -
    have "ev_inv (w\<lparr>sbuffs := Ptr (put_snd j k x ?bs), rand_in := r\<rparr>)"
      using inv r by (simp add: ev_inv_def chan_rep_def part_defs inputs_ok_def)
    moreover have "\<forall>b\<in>set (put_snd j k x ?bs). state_ok b"
      using put_snd_state_ok [OF sb(2) j ts x] .
    moreover have "sbs (w\<lparr>sbuffs := Ptr (put_snd j k x ?bs), rand_in := r\<rparr>) = put_snd j k x ?bs"
      "muls (w\<lparr>sbuffs := Ptr (put_snd j k x ?bs), rand_in := r\<rparr>) = muls w"
      by (simp_all add: sbs_def muls_def)
    moreover have "\<forall>i. i \<noteq> j \<longrightarrow> put_snd j k x ?bs ! i = ?bs ! i" by (simp add: put_snd_def)
    ultimately show ?thesis using st put by (simp add: st_inv_def state_step_def)
  qed
  have rnd: "\<forall>n. 0 \<le> rand_in w n \<and> rand_in w n \<le> 2147483647"
    using ev_invD(9) [OF inv] by (simp add: inputs_ok_def)
  show ?thesis
  proof (cases "ss_len s ! unat (ss_snd_no s) \<le> ss_pos s + 2")
    case False
    have "?w6 = w\<lparr>sbuffs := Ptr (put_snd j k ?s6 ?bs), rand_in := rand_in w\<rparr>" by simp
    with result [OF step(5) [OF False] rnd] run len False show ?thesis by simp
  next
    case True
    let ?b6 = "put_snd j k ?s6 ?bs" and ?ts6 = "ts[k := (ts ! k)\<lparr>state_snd := ?s6\<rparr>]"
    have j6: "sbuffs ?w6 = Ptr ?b6" "j < length ?b6" using put(1) j by simp_all
    have bj: "?b6 ! j = (?bs ! j)\<lparr>sb_thresh := Some ?ts6\<rparr>" using j ts by (simp add: put_snd_def)
    have wf6: "thresh_wf (?b6 ! j)"
      using state_ok_thresh [of "?bs ! j"] sb(2) j ts unfolding bj by (simp add: thresh_wf_def)
    have sel6: "selected (?b6 ! j) (sb_vol (?b6 ! j)) = Some k"
      using selected_update [OF ts, of ?s6] sel s(1) unfolding bj by simp
    have ts6: "sb_thresh (?b6 ! j) = Some ?ts6" "k < length ?ts6" "state_snd (?ts6 ! k) = ?s6"
      using ts by (simp_all add: bj)
    have cnt6: "0 < unat (ss_snd_cnt (state_snd (?ts6 ! k)))"
      unfolding ts6(3) using s(2,4) by (auto simp: snd_ok_def)
    have inp6: "inputs_ok ?w6" using ev_invD(9) [OF inv] by (simp add: inputs_ok_def)
    from pick_random_ok [OF j6 wf6 sel6 ts6(1,2) cnt6 inp6] obtain n where
      n: "mixerPickRndStateSnd j ?w6 = Inr (n, ?w6\<lparr>rand_in := \<lambda>m. rand_in w (Suc m)\<rparr>)"
      "n < unat (ss_snd_cnt s)" unfolding ts6(3) by auto
    let ?s7 = "s\<lparr>ss_pos := 0, ss_snd_no := of_nat n\<rparr>" and ?w7 = "?w6\<lparr>rand_in := \<lambda>m. rand_in w (Suc m)\<rparr>"
    have "set_state_snd j (int k) ?s7 ?w7 = Inr (?w7\<lparr>sbuffs := Ptr (put_snd j k ?s7 ?b6)\<rparr>)"
      using set_state_snd_eq [of ?w7 ?b6 j ?ts6 k ?s7] j6 ts6 by simp
    then have "set_state_snd j (int k) ?s7 ?w7 =
        Inr (w\<lparr>sbuffs := Ptr (put_snd j k ?s7 ?bs), rand_in := \<lambda>m. rand_in w (Suc m)\<rparr>)"
      using put(4) by simp
    moreover have "\<forall>n. 0 \<le> rand_in w (Suc n) \<and> rand_in w (Suc n) \<le> 2147483647" using rnd by simp
    ultimately show ?thesis
      using result [OF step(6) [OF n(2)]] run len True n(1) by simp
  qed
qed


lemma pos_update:
  "(s :: STATE_SND)\<lparr>ss_pos := a, ss_snd_no := m, ss_pos := c\<rparr> = s\<lparr>ss_pos := c, ss_snd_no := m\<rparr>"
  by simp

text \<open>
  What state channel \<open>j\<close> contributes to a frame: nothing, or the next two samples of the sound that its volume selects.
\<close>

definition state_source :: "world \<Rightarrow> nat \<Rightarrow> (samples \<times> 32 word) option" where
  "state_source w j = (let b = sbs w ! j in
     if sb_vol b = 0 then None
     else case (selected b (sb_vol b), sb_thresh b) of
       (Some k, Some ts) \<Rightarrow> (let s = state_snd (ts ! k) in
         case ss_snd_buf s of None \<Rightarrow> None
         | Some bufs \<Rightarrow> map_option (\<lambda>d. (d, ss_pos s)) (bufs ! unat (ss_snd_no s)))
     | _ \<Rightarrow> None)"

definition state_left :: "world \<Rightarrow> nat \<Rightarrow> int" where
  "state_left w j = (let b = sbs w ! j in case state_source w j of None \<Rightarrow> 0
     | Some (d, pos) \<Rightarrow> trunc (sb_vol b * sb_stereo_pos b * STATE_MULT * of_int (sint (d ! unat pos))))"

definition state_right :: "world \<Rightarrow> nat \<Rightarrow> int" where
  "state_right w j = (let b = sbs w ! j in case state_source w j of None \<Rightarrow> 0
     | Some (d, pos) \<Rightarrow> trunc (sb_vol b * (1 - sb_stereo_pos b) * STATE_MULT * of_int (sint (d ! unat (pos + 1)))))"

lemmas state_part_defs = state_left_def state_right_def

lemma mix_state_ok:
  assumes inv: "ev_inv w" and st: "st_inv w" and j: "j < length (sbs w)"
    and out: "out_buf w = Ptr xs" "Suc i < length xs"
  shows "\<exists>w' l r. mix_state i j w = Inr w' \<and> ev_inv w' \<and> st_inv w' \<and> state_step j w w' \<and>
           out_buf w' = Ptr (add_frame i l r xs) \<and>
           \<bar>of_int l\<bar> \<le> STATE_PEAK * sb_vol (sbs w ! j) \<and> \<bar>of_int r\<bar> \<le> STATE_PEAK * sb_vol (sbs w ! j) \<and>
           l = state_left w j \<and> r = state_right w j"
proof -
  let ?b = "sbs w ! j"
  have sb: "sbuffs w = Ptr (sbs w)" and ok: "state_ok ?b" using st j by (simp_all add: st_inv_def)
  note ptr = sndptr_eq [OF sb j state_ok_thresh [OF ok], of "sb_vol ?b"]
  have vol: "0 \<le> sb_vol ?b" "sb_vol ?b \<le> 1" "0 \<le> sb_stereo_pos ?b" "sb_stereo_pos ?b \<le> 1"
    using ok by (simp_all add: state_ok_def)
  have skip: ?thesis if "mix_state i j w = Inr w" "state_source w j = None"
    using that inv st out vol(1)
    by (intro exI [of _ w] exI [of _ 0]) (auto simp: STATE_PEAK_def state_part_defs Let_def)
  show ?thesis
  proof (cases "sb_vol ?b = 0 \<or> selected ?b (sb_vol ?b) = None")
    case True
    then show ?thesis using sb j ptr by (intro skip) (auto simp: mix_state_def state_source_def Let_def)
  next
    case False
    then obtain k where sel: "selected ?b (sb_vol ?b) = Some k" by auto
    obtain ts where ts: "sb_thresh ?b = Some ts" "k < length ts" "ss_snd_buf (state_snd (ts ! k)) \<noteq> None"
      "snd_ok (state_snd (ts ! k))" using selectedD [OF sel ok] .
    define s where "s = state_snd (ts ! k)"
    obtain bufs where bufs: "ss_snd_buf s = Some bufs" using ts(3) by (auto simp: s_def)
    have no: "unat (ss_snd_no s) < length bufs" using ts(4) bufs by (auto simp: s_def [symmetric] snd_ok_def)
    note get = get_state_snd_eq [OF _ j ts(1,2), folded s_def]
    show ?thesis
    proof (cases "bufs ! unat (ss_snd_no s)")
      case None
      then show ?thesis
        using sb j ptr sel False get bufs no
        by (intro skip) (auto simp: mix_state_def snd_segment_def aget_uint state_source_def Let_def ts(1) s_def [symmetric])
    next
      case (Some d)
      note step = snd_ok_step [OF ts(4) [folded s_def] bufs Some]
      obtain l where l: "state_sample d (ss_pos s) (sb_vol ?b) (sb_stereo_pos ?b) = Inr l"
        "\<bar>of_int l\<bar> \<le> STATE_PEAK * sb_vol ?b"
        "l = trunc (sb_vol ?b * sb_stereo_pos ?b * STATE_MULT * of_int (sint (d ! unat (ss_pos s))))"
        using state_sample_ok [OF step(1) vol] by blast
      obtain r where r: "state_sample d (ss_pos s + 1) (sb_vol ?b) (1 - sb_stereo_pos ?b) = Inr r"
        "\<bar>of_int r\<bar> \<le> STATE_PEAK * sb_vol ?b"
        "r = trunc (sb_vol ?b * (1 - sb_stereo_pos ?b) * STATE_MULT * of_int (sint (d ! unat (ss_pos s + 1))))"
        using state_sample_ok [OF step(2) vol(1,2), of "1 - sb_stereo_pos ?b"] vol by auto
      have "state_source w j = Some (d, ss_pos s)"
        using False sel ts(1) bufs Some by (simp add: state_source_def Let_def s_def [symmetric])
      then have exact: "l = state_left w j" "r = state_right w j"
        using l(3) r(3) by (simp_all add: state_part_defs Let_def)
      define w5 where "w5 = w\<lparr>out_buf := Ptr (add_frame i l r xs)\<rparr>"
      have "sbs w5 = sbs w" "muls w5 = muls w" "ev_inv w5"
        using inv by (simp_all add: w5_def sbs_def muls_def)
      moreover from this have "st_inv w5" "sbuffs w5 = Ptr (sbs w)"
        using st sb by (simp_all add: w5_def st_inv_def)
      ultimately have w5: "ev_inv w5" "st_inv w5" "sbs w5 = sbs w" "muls w5 = muls w"
        "sbuffs w5 = Ptr (sbs w)" by simp_all
      have off: "mixerApplyStateFilters x p j w = Inr (x, w)" for x p
        using filters_off [OF sb j] ok by (simp add: state_ok_def)
      have run: "mix_state i j w =
          bindE (set_state_snd j (int k) (s\<lparr>ss_pos := ss_pos s + 2\<rparr>) w5) (\<lambda>w6.
          bindE (aget (ss_len s) (uint (ss_snd_no s))) (\<lambda>len.
          if ss_pos s + 2 \<ge> len
          then bindE (mixerPickRndStateSnd j w6) (\<lambda>(n, w7).
               set_state_snd j (int k) (s\<lparr>ss_pos := 0, ss_snd_no := of_nat n\<rparr>) w7)
          else Inr w6))"
        using sb j ptr sel False get [OF sb] get [OF w5(5)] bufs no Some l(1) r(1) off out
        by (auto simp: mix_state_def snd_segment_def aget_uint w5_def add_frame_def Let_def
            pos_update cong: if_cong)
      have tail: "\<exists>w'. mix_state i j w = Inr w' \<and> ev_inv w' \<and> st_inv w' \<and> state_step j w5 w' \<and>
          out_buf w' = out_buf w5"
        unfolding run
        using mix_state_tail [OF w5(1,2), of j k ts s bufs d] w5(3) j sel ts s_def bufs Some by simp
      then obtain w' where "mix_state i j w = Inr w'" "ev_inv w'" "st_inv w'" "state_step j w5 w'"
        "out_buf w' = out_buf w5" by blast
      moreover from this(4) have "state_step j w w'"
        using w5(3,4) by (simp add: state_step_def w5_def)
      ultimately show ?thesis using l(2) r(2) exact by (auto simp: w5_def)
    qed
  qed
qed


section \<open>One frame\<close>

definition vols :: "world \<Rightarrow> real list" where
  "vols w = map sb_vol (sbs w)"

text \<open>What holds between frames, and what a frame may change.\<close>

definition play_ok :: "world \<Rightarrow> bool" where
  "play_ok w \<longleftrightarrow> ev_inv w \<and> st_inv w"

definition same_sizes :: "world \<Rightarrow> world \<Rightarrow> bool" where
  "same_sizes w w' \<longleftrightarrow> no_sbuffs w' = no_sbuffs w \<and> no_ebuffs w' = no_ebuffs w \<and>
     chunk_size w' = chunk_size w \<and> lin_fade w' = lin_fade w \<and> stable w' = stable w \<and> vols w' = vols w"

lemma mix_states_ok:
  assumes inv: "play_ok w" and out: "out_buf w = Ptr xs" "Suc i < length xs"
  shows "\<exists>w' l r. foldE (mix_state i) [0..<unat (no_sbuffs w)] w = Inr w' \<and> play_ok w' \<and> same_sizes w w' \<and>
           out_buf w' = Ptr (add_frame i l r xs) \<and>
           \<bar>of_int l\<bar> \<le> STATE_PEAK * sum_list (vols w) \<and> \<bar>of_int r\<bar> \<le> STATE_PEAK * sum_list (vols w) \<and>
           l = (\<Sum>j<length (sbs w). state_left w j) \<and> r = (\<Sum>j<length (sbs w). state_right w j)"
proof -
  let ?n = "length (sbs w)"
  have n: "?n = unat (no_sbuffs w)" using inv by (simp add: play_ok_def st_inv_def)
  define P where "P j w' \<longleftrightarrow> play_ok w' \<and> same_sizes w w' \<and> (\<forall>k\<ge>j. sbs w' ! k = sbs w ! k) \<and>
      (\<exists>l r. out_buf w' = Ptr (add_frame i l r xs) \<and>
         \<bar>of_int l\<bar> \<le> STATE_PEAK * sum_list (take j (vols w)) \<and>
         \<bar>of_int r\<bar> \<le> STATE_PEAK * sum_list (take j (vols w)) \<and>
         l = (\<Sum>k<j. state_left w k) \<and> r = (\<Sum>k<j. state_right w k))" for j w'
  have "P 0 w" using inv out by (auto simp: P_def same_sizes_def intro!: exI [of _ 0])
  moreover have "\<exists>w2. mix_state i j w1 = Inr w2 \<and> P (Suc j) w2" if j: "j < ?n" and P: "P j w1" for j w1
  proof -
    from P obtain l r where lr: "out_buf w1 = Ptr (add_frame i l r xs)"
      "\<bar>of_int l\<bar> \<le> STATE_PEAK * sum_list (take j (vols w))"
      "\<bar>of_int r\<bar> \<le> STATE_PEAK * sum_list (take j (vols w))"
      "l = (\<Sum>k<j. state_left w k)" "r = (\<Sum>k<j. state_right w k)" by (auto simp: P_def)
    have v1: "vols w1 = vols w" "play_ok w1" using P by (simp_all add: P_def same_sizes_def)
    have j1: "j < length (sbs w1)" using v1(1) j by (metis length_map vols_def)
    have vj: "sb_vol (sbs w1 ! j) = vols w ! j" using v1(1) j1 by (metis nth_map vols_def)
    obtain w2 l' r' where w2: "mix_state i j w1 = Inr w2" "ev_inv w2" "st_inv w2" "state_step j w1 w2"
      "out_buf w2 = Ptr (add_frame i l' r' (add_frame i l r xs))"
      "\<bar>of_int l'\<bar> \<le> STATE_PEAK * vols w ! j" "\<bar>of_int r'\<bar> \<le> STATE_PEAK * vols w ! j"
      "l' = state_left w1 j" "r' = state_right w1 j"
      using mix_state_ok [of w1 j "add_frame i l r xs" i] v1(2) j1 lr(1) out(2) vj
      unfolding play_ok_def by auto
    have m: "sum_list (take (Suc j) (vols w)) = sum_list (take j (vols w)) + vols w ! j"
      using j by (simp add: take_Suc_conv_app_nth vols_def)
    have at: "sbs w1 ! j = sbs w ! j" using P by (simp add: P_def)
    have "state_left w1 j = state_left w j" "state_right w1 j = state_right w j"
      unfolding state_part_defs state_source_def at by simp_all
    then have "l + l' = (\<Sum>k<Suc j. state_left w k)" "r + r' = (\<Sum>k<Suc j. state_right w k)"
      using lr(4,5) w2(8,9) by simp_all
    moreover have "\<forall>k\<ge>Suc j. sbs w2 ! k = sbs w ! k" using w2(4) P by (simp add: P_def state_step_def)
    moreover have "\<bar>of_int (l + l')\<bar> \<le> STATE_PEAK * sum_list (take (Suc j) (vols w))"
      "\<bar>of_int (r + r')\<bar> \<le> STATE_PEAK * sum_list (take (Suc j) (vols w))"
      using lr(2,3) w2(6,7) unfolding m by (simp_all add: distrib_left)
    moreover have "out_buf w2 = Ptr (add_frame i (l + l') (r + r') xs)"
      using w2(5) add_frame_add [OF out(2)] by simp
    moreover have "vols w2 = vols w1"
      using w2(4) by (intro nth_equalityI) (auto simp: vols_def state_step_def)
    then have "same_sizes w w2" using P w2(4) by (simp add: P_def same_sizes_def state_step_def)
    ultimately have "P (Suc j) w2" using w2(2,3) unfolding P_def play_ok_def by blast
    with w2(1) show ?thesis by blast
  qed
  ultimately obtain w' where "foldE (mix_state i) [0..<?n] w = Inr w'" "P ?n w'"
    using foldE_range_invariant [of P w ?n "mix_state i"] by blast
  then show ?thesis unfolding n [symmetric] by (auto simp: P_def vols_def)
qed

definition frame_peak :: "world \<Rightarrow> real" where
  "frame_peak w = EVENT_PEAK + STATE_PEAK * sum_list (vols w)"

text \<open>The integer sums of all contributions to a frame.\<close>

definition frame_left :: "world \<Rightarrow> int" where
  "frame_left w = (\<Sum>j<length (evs w). event_left w j) + (\<Sum>j<length (sbs w). state_left w j)"

definition frame_right :: "world \<Rightarrow> int" where
  "frame_right w = (\<Sum>j<length (evs w). event_right w j) + (\<Sum>j<length (sbs w). state_right w j)"

lemma mix_frame_ok:
  assumes inv: "play_ok w" and out: "out_buf w = Ptr xs" "Suc i < length xs"
  shows "\<exists>w' l r. mix_frame i w = Inr w' \<and> play_ok w' \<and> same_sizes w w' \<and>
           out_buf w' = Ptr (add_frame i l r xs) \<and> \<bar>of_int l\<bar> < frame_peak w \<and> \<bar>of_int r\<bar> < frame_peak w \<and>
           l = frame_left w \<and> r = frame_right w"
proof -
  have ev: "ev_inv w" and st: "st_inv w" using inv by (simp_all add: play_ok_def)
  obtain w1 l r where w1: "foldE (mix_event i) [0..<unat (no_ebuffs w)] w = Inr w1" "ev_inv w1"
    "same_rest w w1" "out_buf w1 = Ptr (add_frame i l r xs)"
    "\<bar>of_int l\<bar> \<le> EVENT_PEAK * sum_list (muls w)" "\<bar>of_int r\<bar> \<le> EVENT_PEAK * sum_list (muls w)"
    "l = (\<Sum>j<length (evs w). event_left w j)" "r = (\<Sum>j<length (evs w). event_right w j)"
    using mix_events_ok [OF ev out] by blast
  have "sum_list (muls w) < 1" using chan_repD(8) [OF ev_invD(1) [OF ev]] .
  then have peak: "EVENT_PEAK * sum_list (muls w) < EVENT_PEAK" by (simp add: EVENT_PEAK_def)
  have "st_inv w1" using st_inv_frame [OF st] w1(3) by (simp add: same_rest_def)
  then have p1: "play_ok w1" using w1(2) by (simp add: play_ok_def)
  have v1: "vols w1 = vols w" using w1(3) by (simp add: vols_def sbs_def same_rest_def)
  obtain w2 l' r' where w2: "foldE (mix_state i) [0..<unat (no_sbuffs w1)] w1 = Inr w2" "play_ok w2"
    "same_sizes w1 w2" "out_buf w2 = Ptr (add_frame i l' r' (add_frame i l r xs))"
    "\<bar>of_int l'\<bar> \<le> STATE_PEAK * sum_list (vols w)" "\<bar>of_int r'\<bar> \<le> STATE_PEAK * sum_list (vols w)"
    "l' = (\<Sum>j<length (sbs w1). state_left w1 j)" "r' = (\<Sum>j<length (sbs w1). state_right w1 j)"
    using mix_states_ok [OF p1 w1(4), of i, unfolded length_add_frame, OF out(2)] unfolding v1 by blast
  have sb: "sbs w1 = sbs w" using w1(3) by (simp add: sbs_def same_rest_def)
  have "state_left w1 j = state_left w j" "state_right w1 j = state_right w j" for j
    unfolding state_part_defs state_source_def sb by simp_all
  then have "l + l' = frame_left w" "r + r' = frame_right w"
    using w1(7,8) w2(7,8) by (simp_all add: frame_left_def frame_right_def sb)
  moreover have "mix_frame i w = Inr w2" using w1(1) w2(1) by (simp add: mix_frame_def)
  moreover have "same_sizes w w2" using w1(3) w2(3) v1 by (simp add: same_sizes_def same_rest_def)
  moreover have "out_buf w2 = Ptr (add_frame i (l + l') (r + r') xs)"
    using w2(4) add_frame_add [OF out(2)] by simp
  moreover have "\<bar>of_int (l + l')\<bar> < frame_peak w" "\<bar>of_int (r + r')\<bar> < frame_peak w"
    using w1(5,6) w2(5,6) peak unfolding frame_peak_def by simp_all
  ultimately show ?thesis using w2(2) by blast
qed


section \<open>A whole chunk\<close>

lemma add_frame_nth:
  "Suc i < length xs \<Longrightarrow> p \<noteq> i \<Longrightarrow> p \<noteq> Suc i \<Longrightarrow> add_frame i l r xs ! p = xs ! p"
  by (simp add: add_frame_def)

lemma add_frame_zero:
  assumes "Suc i < length xs" and "xs ! i = 0" and "xs ! Suc i = 0"
    and "\<bar>real_of_int l\<bar> < B" and "\<bar>real_of_int r\<bar> < B" and "B \<le> 32768"
  shows "\<bar>real_of_int (sint (add_frame i l r xs ! i))\<bar> < B"
    and "\<bar>real_of_int (sint (add_frame i l r xs ! Suc i))\<bar> < B"
proof -
  have l: "sint (word_of_int l :: 16 word) = l" using assms(4,6) by (intro sint16_of_int) linarith+
  have r: "sint (word_of_int r :: 16 word) = r" using assms(5,6) by (intro sint16_of_int) linarith+
  show "\<bar>real_of_int (sint (add_frame i l r xs ! i))\<bar> < B"
    using assms l by (simp add: add_frame_def)
  show "\<bar>real_of_int (sint (add_frame i l r xs ! Suc i))\<bar> < B"
    using assms r by (simp add: add_frame_def)
qed

lemma add_frame_exact:
  assumes "Suc i < length xs" and "xs ! i = 0" and "xs ! Suc i = 0"
    and "\<bar>real_of_int l\<bar> < 32768" and "\<bar>real_of_int r\<bar> < 32768"
  shows "sint (add_frame i l r xs ! i) = l" and "sint (add_frame i l r xs ! Suc i) = r"
proof -
  have "sint (word_of_int l :: 16 word) = l" using assms(4) by (intro sint16_of_int) linarith+
  moreover have "sint (word_of_int r :: 16 word) = r" using assms(5) by (intro sint16_of_int) linarith+
  ultimately show "sint (add_frame i l r xs ! i) = l" and "sint (add_frame i l r xs ! Suc i) = r"
    using assms by (simp_all add: add_frame_def)
qed

text \<open>The first \<open>k\<close> frames of a chunk, and the integer sums that belong to \<open>n\<close> frames.\<close>

definition frames :: "nat \<Rightarrow> world \<Rightarrow> world result" where
  "frames k w = foldE mix_frame (map ((*) 2) [0..<k]) w"

definition frame_sums :: "nat \<Rightarrow> world \<Rightarrow> int list" where
  "frame_sums n w = concat (map (\<lambda>k. case frames k w of
     Inl e \<Rightarrow> [] | Inr v \<Rightarrow> [frame_left v, frame_right v]) [0..<n])"

lemma frames_Suc: "frames (Suc k) w = bindE (frames k w) (mix_frame (2 * k))"
  by (auto simp: frames_def foldE_append bindE_def split: sum.split)

lemma frame_sums_Suc: "frames k w = Inr v \<Longrightarrow> frame_sums (Suc k) w = frame_sums k w @ [frame_left v, frame_right v]"
  by (simp add: frame_sums_def)

text \<open>The sums of a whole chunk, which is mixed into a cleared buffer.\<close>

definition exact_chunk :: "world \<Rightarrow> int list" where
  "exact_chunk w = (case clear_output w of Inl e \<Rightarrow> [] | Inr w1 \<Rightarrow> frame_sums (chunk_size w div 2) w1)"

text \<open>The frames of a chunk, from the first one on.\<close>

lemma mix_frames_ok:
  assumes inv: "play_ok w" and out: "out_buf w = Ptr xs" "2 * n \<le> length xs"
    and zero: "\<forall>p<2 * n. xs ! p = 0"
  shows "\<exists>w' ys. frames n w = Inr w' \<and> play_ok w' \<and> same_sizes w w' \<and>
           out_buf w' = Ptr ys \<and> length ys = length xs \<and>
           (frame_peak w \<le> 32768 \<longrightarrow> (\<forall>p<2 * n. \<bar>real_of_int (sint (ys ! p))\<bar> < frame_peak w) \<and>
              map sint (take (2 * n) ys) = frame_sums n w)"
proof -
  define P where "P k w' \<longleftrightarrow> frames k w = Inr w' \<and> play_ok w' \<and> same_sizes w w' \<and>
      (\<exists>ys. out_buf w' = Ptr ys \<and> length ys = length xs \<and> (\<forall>p. 2 * k \<le> p \<longrightarrow> p < 2 * n \<longrightarrow> ys ! p = 0) \<and>
         (frame_peak w \<le> 32768 \<longrightarrow> (\<forall>p<2 * k. \<bar>real_of_int (sint (ys ! p))\<bar> < frame_peak w) \<and>
            map sint (take (2 * k) ys) = frame_sums k w))" for k w'
  have "P 0 w" using inv out zero by (auto simp: P_def same_sizes_def frames_def frame_sums_def)
  moreover have "\<exists>w2. mix_frame (2 * k) w1 = Inr w2 \<and> P (Suc k) w2" if k: "k < n" and P: "P k w1" for k w1
  proof -
    from P obtain ys where ys: "out_buf w1 = Ptr ys" "length ys = length xs"
      "\<forall>p. 2 * k \<le> p \<longrightarrow> p < 2 * n \<longrightarrow> ys ! p = 0"
      "frame_peak w \<le> 32768 \<longrightarrow> (\<forall>p<2 * k. \<bar>real_of_int (sint (ys ! p))\<bar> < frame_peak w) \<and>
         map sint (take (2 * k) ys) = frame_sums k w"
      by (auto simp: P_def)
    have p1: "play_ok w1" "same_sizes w w1" "frames k w = Inr w1" using P by (simp_all add: P_def)
    have peak: "frame_peak w1 = frame_peak w" using p1(2) by (simp add: frame_peak_def same_sizes_def)
    have room: "Suc (2 * k) < length ys" using k out(2) ys(2) by simp
    obtain w2 l r where w2: "mix_frame (2 * k) w1 = Inr w2" "play_ok w2" "same_sizes w1 w2"
      "out_buf w2 = Ptr (add_frame (2 * k) l r ys)" "\<bar>of_int l\<bar> < frame_peak w" "\<bar>of_int r\<bar> < frame_peak w"
      "l = frame_left w1" "r = frame_right w1"
      using mix_frame_ok [OF p1(1) ys(1) room] unfolding peak by blast
    let ?zs = "add_frame (2 * k) l r ys"
    have z: "ys ! (2 * k) = 0" "ys ! Suc (2 * k) = 0" using ys(3) k by auto
    have "\<bar>real_of_int (sint (?zs ! p))\<bar> < frame_peak w"
      if B: "frame_peak w \<le> 32768" and p: "p < 2 * Suc k" for p
    proof -
      have "p < 2 * k \<or> p = 2 * k \<or> p = Suc (2 * k)" using p by auto
      then consider "p < 2 * k" | "p = 2 * k" | "p = Suc (2 * k)" by blast
      then show ?thesis
        using add_frame_zero [OF room z w2(5,6) B] add_frame_nth [OF room, of p l r] ys(4) B
        by cases auto
    qed
    moreover have "map sint (take (2 * Suc k) ?zs) = frame_sums (Suc k) w" if B: "frame_peak w \<le> 32768"
    proof -
      have same: "take (2 * k) ?zs = take (2 * k) ys" by (simp add: add_frame_def)
      have "sint (?zs ! (2 * k)) = l" "sint (?zs ! Suc (2 * k)) = r"
        using add_frame_exact [OF room z, of l r] w2(5,6) B by linarith+
      moreover have "2 * Suc k = Suc (Suc (2 * k))" by simp
      moreover have "Suc (2 * k) < length ?zs" using room by simp
      ultimately have "map sint (take (2 * Suc k) ?zs) = map sint (take (2 * k) ?zs) @ [l, r]"
        by (simp only: take_Suc_conv_app_nth Suc_lessD map_append list.map append_assoc append_Cons append_Nil)
      then show ?thesis unfolding same using ys(4) B w2(7,8) frame_sums_Suc [OF p1(3)] by simp
    qed
    moreover have "\<forall>p. 2 * Suc k \<le> p \<longrightarrow> p < 2 * n \<longrightarrow> ?zs ! p = 0"
      using add_frame_nth [OF room] ys(3) by auto
    moreover have "same_sizes w w2" using p1(2) w2(3) by (simp add: same_sizes_def)
    moreover have "frames (Suc k) w = Inr w2" using p1(3) w2(1) by (simp add: frames_Suc)
    ultimately have "P (Suc k) w2" using w2(2,4) ys(2) unfolding P_def by auto
    with w2(1) show ?thesis by blast
  qed
  ultimately obtain w' where "P n w'"
    using foldE_range_invariant [of P w n "\<lambda>k. mix_frame (2 * k)"] by blast
  then show ?thesis by (auto simp: P_def)
qed

definition mixer_ok :: "world \<Rightarrow> bool" where
  "mixer_ok w \<longleftrightarrow> play_ok w \<and> even (chunk_size w) \<and>
     (\<exists>xs. out_buf w = Ptr xs \<and> chunk_size w \<le> length xs)"

lemma mixer_run:
  assumes "mixer_ok w"
  shows "\<exists>chunk w'. mixer w = Inr (chunk, w') \<and> length chunk = chunk_size w \<and> mixer_ok w' \<and>
           same_sizes w w' \<and>
           (frame_peak w \<le> 32768 \<longrightarrow> (\<forall>x\<in>set chunk. \<bar>real_of_int (sint x)\<bar> < frame_peak w) \<and>
              map sint chunk = exact_chunk w)"
proof -
  from assms obtain xs where xs: "out_buf w = Ptr xs" "chunk_size w \<le> length xs" "even (chunk_size w)"
    "play_ok w" by (auto simp: mixer_ok_def)
  obtain n where n: "chunk_size w = 2 * n" using xs(3) by (elim evenE)
  let ?zs = "replicate (chunk_size w) 0 @ drop (chunk_size w) xs" and ?w1 = "w\<lparr>out_buf :=
      Ptr (replicate (chunk_size w) 0 @ drop (chunk_size w) xs)\<rparr>"
  have clear: "clear_output w = Inr ?w1" using xs by (simp add: clear_output_def)
  have p1: "play_ok ?w1"
    using xs(4) st_inv_frame [of w ?w1] by (simp add: play_ok_def)
  have s1: "same_sizes w ?w1" "frame_peak ?w1 = frame_peak w"
    by (simp_all add: same_sizes_def vols_def sbs_def frame_peak_def)
  have zero: "\<forall>p<2 * n. ?zs ! p = 0" using n by (simp add: nth_append)
  have len: "length ?zs = length xs" using xs(2) by simp
  obtain w' ys where w': "frames n ?w1 = Inr w'" "play_ok w'"
    "same_sizes ?w1 w'" "out_buf w' = Ptr ys" "length ys = length xs"
    "frame_peak w \<le> 32768 \<longrightarrow> (\<forall>p<2 * n. \<bar>real_of_int (sint (ys ! p))\<bar> < frame_peak w) \<and>
       map sint (take (2 * n) ys) = frame_sums n ?w1"
    using mix_frames_ok [OF p1, of ?zs n] zero len xs(2) n unfolding s1(2) by auto
  have size: "chunk_size w' = chunk_size w" "same_sizes w w'"
    using w'(3) s1(1) by (simp_all add: same_sizes_def)
  have "mixer w = Inr (take (chunk_size w) ys, w')"
    using clear w'(1,4) size n by (simp add: mixer_def frames_def)
  moreover have "length (take (chunk_size w) ys) = chunk_size w" using w'(5) xs(2) by simp
  moreover have "mixer_ok w'" using w'(2,4,5) xs size by (auto simp: mixer_ok_def)
  moreover have "\<forall>x\<in>set (take (chunk_size w) ys). \<bar>real_of_int (sint x)\<bar> < frame_peak w"
    if "frame_peak w \<le> 32768" using w'(6) that n by (auto simp: in_set_conv_nth)
  moreover have "map sint (take (chunk_size w) ys) = exact_chunk w" if "frame_peak w \<le> 32768"
    using w'(6) that n clear by (simp add: exact_chunk_def)
  ultimately show ?thesis using size(2) by blast
qed


text \<open>Several chunks in a row, as the mixer thread produces them.\<close>

fun play_chunks :: "nat \<Rightarrow> world \<Rightarrow> (16 word list list \<times> world) result" where
  "play_chunks 0 w = Inr ([], w)"
| "play_chunks (Suc n) w =
     bindE (mixer w) (\<lambda>(c, w1). bindE (play_chunks n w1) (\<lambda>(cs, w2). Inr (c # cs, w2)))"

fun exact_chunks :: "nat \<Rightarrow> world \<Rightarrow> int list list" where
  "exact_chunks 0 w = []"
| "exact_chunks (Suc n) w = exact_chunk w # (case mixer w of Inl e \<Rightarrow> [] | Inr (c, w1) \<Rightarrow> exact_chunks n w1)"

lemma play_chunks_run:
  assumes "mixer_ok w" and "frame_peak w \<le> 32768"
  shows "\<exists>cs w'. play_chunks n w = Inr (cs, w') \<and> length cs = n \<and> mixer_ok w' \<and> same_sizes w w' \<and>
    (\<forall>c\<in>set cs. length c = chunk_size w \<and> (\<forall>x\<in>set c. \<bar>real_of_int (sint x)\<bar> < frame_peak w)) \<and>
    map (map sint) cs = exact_chunks n w"
  using assms
proof (induction n arbitrary: w)
  case 0
  then show ?case by (simp add: same_sizes_def)
next
  case (Suc n)
  obtain c w1 where c: "mixer w = Inr (c, w1)" "length c = chunk_size w" "mixer_ok w1" "same_sizes w w1"
    "\<forall>x\<in>set c. \<bar>real_of_int (sint x)\<bar> < frame_peak w" "map sint c = exact_chunk w"
    using mixer_run [OF Suc.prems(1)] Suc.prems(2) by blast
  have peak: "frame_peak w1 = frame_peak w" "chunk_size w1 = chunk_size w"
    using c(4) by (simp_all add: frame_peak_def same_sizes_def)
  obtain cs w2 where cs: "play_chunks n w1 = Inr (cs, w2)" "length cs = n" "mixer_ok w2" "same_sizes w1 w2"
    "\<forall>c\<in>set cs. length c = chunk_size w \<and> (\<forall>x\<in>set c. \<bar>real_of_int (sint x)\<bar> < frame_peak w)"
    "map (map sint) cs = exact_chunks n w1"
    using Suc.IH [OF c(3)] Suc.prems(2) unfolding peak by blast
  have "same_sizes w w2" using c(4) cs(4) by (simp add: same_sizes_def)
  with c cs show ?case by auto
qed

section \<open>Sample states\<close>

lemma idle_world_parts:
  "evs idle_world = [zero_event_buf, zero_event_buf]" "muls idle_world = [0, 0]"
  "scheds idle_world = [zero_sched, zero_sched]" "sbs idle_world = []" "vols idle_world = []"
  by (simp_all add: part_defs sbs_def vols_def idle_world_def)

lemma idle_world_ok: "mixer_ok idle_world"
proof -
  have "ev_inv idle_world"
    unfolding ev_inv_def idle_world_parts
    using idle_world_rep mixerQueueInit_wf [of 4 mixer_queue_static]
    by (auto simp: idle_world_def buf_ok_def zero_event_buf_def zero_sched_def inputs_ok_def
        TP_IN_FP_SECS_def less_Suc_eq)
  moreover have "st_inv idle_world"
    unfolding st_inv_def idle_world_parts by (simp add: idle_world_def)
  ultimately show ?thesis by (simp add: mixer_ok_def play_ok_def idle_world_def)
qed

section \<open>Properties\<close>

text \<open>A world in which a sound of four samples and a state with a single segment of two samples are playing.\<close>

definition chime_buf :: EVENT_BUF where
  "chime_buf = zero_event_buf\<lparr>eb_snd_buf := Some [1000, -2000, 500, 600], eb_len := 4, eb_stereo_pos := 1 / 2\<rparr>"

definition chime_state :: STATE_BUF where
  "chime_state = zero_state_buf\<lparr>sb_thresh := Some [zero_threshold\<lparr>state_snd := zero_state_snd
       \<lparr>ss_snd_buf := Some [Some [400, 800]], ss_len := [2], ss_snd_cnt := 1\<rparr>\<rparr>],
     sb_thresh_cnt := 1, sb_vol := 1 / 2, sb_stereo_pos := 1 / 2\<rparr>"

definition chime_world :: world where
  "chime_world = idle_world\<lparr>ebuffs := Ptr [chime_buf, zero_event_buf], dyn_mul := Ptr [1 / 2, 0], dyn_buf_cnt := 1,
     sched := Ptr [zero_sched\<lparr>startt := 1\<rparr>, zero_sched], sbuffs := Ptr [chime_state], no_sbuffs := 1,
     lin_fade := Ptr [zero_fade]\<rparr>"

lemma chime_world_parts:
  "evs chime_world = [chime_buf, zero_event_buf]" "muls chime_world = [1 / 2, 0]"
  "scheds chime_world = [zero_sched\<lparr>startt := 1\<rparr>, zero_sched]" "sbs chime_world = [chime_state]"
  "vols chime_world = [1 / 2]" "chunk_size chime_world = 2"
  by (simp_all add: chime_world_def part_defs sbs_def vols_def chime_state_def zero_state_buf_def) (simp add: idle_world_def)

lemma chime_world_ok: "mixer_ok chime_world"
proof -
  have ok: "buf_ok chime_buf" by (simp add: buf_ok_def chime_buf_def zero_event_buf_def sample_ok_def)
  have rep: "chan_rep [chime_buf, zero_event_buf] [1 / 2, 0] chime_world"
    by (auto simp: chan_rep_def chime_world_def idle_world_def occupied_def busy_def chime_buf_def
        zero_event_buf_def less_Suc_eq)
  have "ev_inv chime_world"
    unfolding ev_inv_def chime_world_parts
    using rep ok mixerQueueInit_wf [of 4 mixer_queue_static]
    by (auto simp: chime_world_def idle_world_def buf_ok_def zero_event_buf_def zero_sched_def inputs_ok_def
        TP_IN_FP_SECS_def less_Suc_eq chime_buf_def)
  moreover have "snd_ok (zero_state_snd\<lparr>ss_snd_buf := Some [Some [400, 800]], ss_len := [2], ss_snd_cnt := 1\<rparr>)"
    by (simp add: snd_ok_def zero_state_snd_def sample_ok_def)
  then have "state_ok chime_state"
    by (simp add: state_ok_def chime_state_def zero_state_buf_def)
  then have "st_inv chime_world"
    unfolding st_inv_def chime_world_parts by (simp add: chime_world_def)
  ultimately show ?thesis by (simp add: mixer_ok_def play_ok_def chime_world_def idle_world_def)
qed

lemma chime_exact: "exact_chunk chime_world = [190, -220]"
proof -
  let ?w = "chime_world\<lparr>out_buf := Ptr [0, 0]\<rparr>"
  have clear: "clear_output chime_world = Inr ?w"
    by (simp add: clear_output_def chime_world_def idle_world_def numeral_2_eq_2)
  have parts: "evs ?w = [chime_buf, zero_event_buf]" "muls ?w = [1 / 2, 0]" "sbs ?w = [chime_state]"
    using chime_world_parts by (simp_all add: part_defs sbs_def)
  have sel: "selected chime_state (1 / 2) = Some 0"
    by (simp add: selected_def last_match_def chime_state_def zero_state_buf_def zero_state_snd_def zero_threshold_def Let_def)
  have src: "state_source ?w 0 = Some ([400, 800], 0)"
    unfolding state_source_def parts using sel
    by (simp add: Let_def) (simp add: chime_state_def zero_state_buf_def zero_state_snd_def zero_threshold_def)
  have st: "state_left ?w 0 = 40" "state_right ?w 0 = 80"
    unfolding state_part_defs src parts by (simp_all add: Let_def chime_state_def zero_state_buf_def trunc_def)
  have ev: "event_left ?w 0 = 150" "event_right ?w 0 = -300" "event_left ?w 1 = 0" "event_right ?w 1 = 0"
    unfolding event_part_defs parts by (simp_all add: Let_def chime_buf_def zero_event_buf_def trunc_def)
  have "frame_left ?w = 190" "frame_right ?w = -220"
    unfolding frame_left_def frame_right_def parts using st ev by (simp_all add: lessThan_Suc)
  then show ?thesis
    by (simp add: exact_chunk_def clear chime_world_parts frame_sums_def frames_def)
qed

text \<open>
  C4.  The mixer thread.  From a consistent state whose states do not ask for fades and are in sum not louder than
  full volume, any number of consecutive calls of \<open>mixer\<close> return; each produces a chunk of
  \<open>chunk_size\<close> samples and leaves a consistent state (channels, multipliers, counter, scheduler,
  queue, state sounds).  Every sample is exactly the integer sum of what the channels and the states contribute
  to its frame (\<open>exact_chunks\<close>), so that no addition has wrapped; and it stays below \<open>0.6 * 32768\<close> plus
  \<open>0.4 * 32768\<close> times the summed volume of the states.
\<close>

theorem mixer_runs_forever:
  assumes "mixer_ok w" and "sum_list (vols w) \<le> 1"
  shows "\<exists>cs w'. play_chunks n w = Inr (cs, w') \<and> length cs = n \<and> mixer_ok w' \<and>
    map (map sint) cs = exact_chunks n w \<and>
    (\<forall>c\<in>set cs. length c = chunk_size w \<and>
       (\<forall>x\<in>set c. \<bar>real_of_int (sint x)\<bar> < 19660.8 + 13107.2 * sum_list (vols w)))"
proof -
  have "frame_peak w = 19660.8 + 13107.2 * sum_list (vols w)"
    by (simp add: frame_peak_def EVENT_PEAK_def STATE_PEAK_def)
  with assms play_chunks_run [of w n] show ?thesis by auto
qed

theorem mixer_runs_forever_witness:
  "\<exists>c cs w'. play_chunks 3 chime_world = Inr (c # cs, w') \<and> length cs = 2 \<and> mixer_ok w' \<and>
     map sint c = [190, -220]"
proof -
  obtain cs w' where r: "play_chunks 3 chime_world = Inr (cs, w')" "length cs = 3" "mixer_ok w'"
    "map (map sint) cs = exact_chunks 3 chime_world"
    using mixer_runs_forever [OF chime_world_ok, of 3] by (auto simp: chime_world_parts)
  then show ?thesis by (cases cs) (auto simp: numeral_3_eq_3 chime_exact)
qed

text \<open>
  C33.  Queue service.  When a channel becomes free, the next queued event leaves the queue, and it
  is started on the channel exactly if it is younger than five million seconds: the age, in
  seconds, is compared with a number of clock ticks.
\<close>

theorem mixerAddOldEvent_expiry:
  assumes "ev_inv w" and "j < length (evs w)" and "eb_snd_buf (evs w ! j) = None"
    and "\<not> mixerQueueEmpty (mqueue w)" and "mq_array (mqueue w) ! 0 = Some e"
  shows "\<exists>w'. mixerAddOldEvent j w = Inr w' \<and> ev_inv w' \<and>
    mq_bag (mqueue w) = add_mset e (mq_bag (mqueue w')) \<and>
    (eb_snd_buf (evs w' ! j) \<noteq> None \<longleftrightarrow>
       TP_IN_FP_SECS (clock_in w 0) - TP_IN_FP_SECS (mix_time e) < 5000000)"
  using mixerAddOldEvent_ok [OF assms] by auto

definition bell_entry :: sound_entry where
  "bell_entry = \<lparr>se_name = ''ab'', se_data = EventData \<lparr>snds = [Some [5, 6]], lens = [2], snd_cnt = 1\<rparr>,
     se_type = EVENT_T\<rparr>"

definition bell_event :: ENGINE_EVENT where
  "bell_event = \<lparr>event = zero_event\<lparr>e_sound := Some ''ab''\<rparr>, mix_time = \<lparr>tv_sec = 0, tv_usec = 0\<rparr>\<rparr>"

definition bell_world :: world where
  "bell_world = idle_world\<lparr>stable := Ptr ((replicate 256 [])[195 := [bell_entry]]),
     mqueue := \<lparr>mq_heap = Ptr [Some bell_event, None], mq_top = 1, mq_queueSize = 2, mq_qlock = False\<rparr>\<rparr>"

lemma bell_playable: "event_playable (stable bell_world) (event bell_event)"
proof -
  have wf: "table_wf (stable bell_world)" by (simp add: table_wf_def bell_world_def)
  have "bucket (slot ''ab'') (stable bell_world) = [bell_entry]"
    by (simp add: bucket_def bell_world_def hash_eval)
  then have "engineSoundTableRetrieve ''ab'' (stable bell_world) = Inr (Some bell_entry)"
    by (simp add: retrieve_eq [OF wf] hash_eval) (simp add: bell_entry_def)
  then show ?thesis
    by (auto simp: event_playable_def bell_event_def bell_entry_def entry_ok_def entry_wf_def sample_ok_def)
qed

lemma bell_world_inv: "ev_inv bell_world"
proof -
  have parts: "evs bell_world = [zero_event_buf, zero_event_buf]" "muls bell_world = [0, 0]"
    "scheds bell_world = [zero_sched, zero_sched]"
    by (simp_all add: bell_world_def part_defs idle_world_def)
  have "ev_inv idle_world" using idle_world_ok by (simp add: mixer_ok_def play_ok_def)
  moreover have "mq_wf (mqueue bell_world)" "mq_bag (mqueue bell_world) = {#bell_event#}"
    by (auto simp: bell_world_def mq_wf_def mq_bag_def mq_array_def filled_def less_Suc_eq)
  ultimately show ?thesis
    unfolding ev_inv_def parts idle_world_parts
    using bell_playable chan_rep_frame [OF idle_world_rep, of bell_world]
    by (auto simp: bell_world_def idle_world_def inputs_ok_def)
qed

theorem mixerAddOldEvent_expiry_witness:
  "\<exists>w'. mixerAddOldEvent 1 bell_world = Inr w' \<and> mq_bag (mqueue w') = {#} \<and>
     eb_snd_buf (evs w' ! 1) \<noteq> None"
proof -
  have parts: "evs bell_world = [zero_event_buf, zero_event_buf]"
    by (simp add: bell_world_def part_defs idle_world_def)
  have q: "\<not> mixerQueueEmpty (mqueue bell_world)" "mq_array (mqueue bell_world) ! 0 = Some bell_event"
    "mq_bag (mqueue bell_world) = {#bell_event#}"
    by (simp_all add: bell_world_def mixerQueueEmpty_def mq_array_def mq_bag_def)
  have "TP_IN_FP_SECS (clock_in bell_world 0) - TP_IN_FP_SECS (mix_time bell_event) < 5000000"
    by (simp add: bell_world_def idle_world_def bell_event_def TP_IN_FP_SECS_def)
  with mixerAddOldEvent_expiry [OF bell_world_inv _ _ q(1,2), of 1] show ?thesis
    by (auto simp: parts zero_event_buf_def q(3))
qed


section \<open>Where the mixer leaves its bounds\<close>

text \<open>
  A sound of odd length is never finished: its position, which moves by two, steps over the
  length.  \<open>odd_at m j w\<close>: channel \<open>j\<close> plays such a sound and is at frame \<open>m\<close>.
\<close>

definition odd_at :: "samples \<Rightarrow> nat \<Rightarrow> nat \<Rightarrow> nat \<Rightarrow> world \<Rightarrow> bool" where
  "odd_at d n m j w \<longleftrightarrow> j < length (evs w) \<and> ebuffs w = Ptr (evs w) \<and> dyn_mul w = Ptr (muls w) \<and>
     length (muls w) = length (evs w) \<and> 0 \<le> muls w ! j \<and> muls w ! j \<le> 1 \<and>
     out_buf w = Ptr (outs w) \<and> length (outs w) = n \<and>
     eb_snd_buf (evs w ! j) = Some d \<and> odd (length d) \<and> length d < 2 ^ 32 \<and>
     eb_len (evs w ! j) = of_nat (length d) \<and> unat (eb_pos (evs w ! j)) = 2 * m \<and> 2 * m < length d \<and>
     0 \<le> eb_stereo_pos (evs w ! j) \<and> eb_stereo_pos (evs w ! j) \<le> 1"

lemma odd_at_step:
  assumes at: "odd_at d n m j w" and i: "Suc i < n"
  shows "if Suc (2 * m) < length d then \<exists>w'. mix_event i j w = Inr w' \<and> odd_at d n (Suc m) j w'
         else mix_event i j w = Inl OutOfBounds"
proof -
  let ?b = "evs w ! j"
  note a = at [unfolded odd_at_def]
  have pos: "unat (eb_pos ?b) < length d" using a by simp
  have p1: "unat (eb_pos ?b + 1) = Suc (2 * m)" and p2: "Suc (2 * m) < length d \<Longrightarrow> unat (eb_pos ?b + 2) = 2 * Suc m"
    using a by (auto simp: unat_word_ariths)
  obtain l where l: "event_sample d (eb_pos ?b) (muls w ! j) (eb_stereo_pos ?b) = Inr l"
    using event_sample_ok [OF pos] a by blast
  show ?thesis
  proof (cases "Suc (2 * m) < length d")
    case False
    then have "event_sample d (eb_pos ?b + 1) (muls w ! j) (1 - eb_stereo_pos ?b) = Inl OutOfBounds"
      by (simp add: event_sample_def aget_uint p1)
    then show ?thesis using False a l by (simp add: mix_event_def)
  next
    case True
    obtain r where r: "event_sample d (eb_pos ?b + 1) (muls w ! j) (1 - eb_stereo_pos ?b) = Inr r"
      using event_sample_ok [of "eb_pos ?b + 1" d "muls w ! j" "1 - eb_stereo_pos ?b"] p1 True a by auto
    let ?b' = "?b\<lparr>eb_pos := eb_pos ?b + 2\<rparr>"
    let ?w = "w\<lparr>out_buf := Ptr (add_frame i l r (outs w)), ebuffs := Ptr ((evs w)[j := ?b'])\<rparr>"
    have "unat (eb_len ?b) = length d" using a by (simp add: unat_of_nat32)
    then have neq: "eb_pos ?b + 2 \<noteq> eb_len ?b" using p2 [OF True] a by (metis dvd_triv_left)
    have run: "mix_event i j w = Inr ?w"
      using a l r i neq
      by (simp add: mix_event_def Let_def mixerApplyEventFilters_def add_frame_def)
    have parts: "evs ?w = (evs w)[j := ?b']" "muls ?w = muls w" "outs ?w = add_frame i l r (outs w)"
      by (simp_all add: part_defs)
    have "2 * Suc m < length d" using True a by (metis Suc_lessI dvd_triv_left mult_Suc_right plus_1_eq_Suc add_2_eq_Suc)
    then have "odd_at d n (Suc m) j ?w"
      unfolding odd_at_def parts using a p2 [OF True] by simp
    with run True show ?thesis by auto
  qed
qed

text \<open>
  Sounds of odd length.  A channel that plays a sound with an odd number of samples reads
  past the end of the sound exactly when the last, incomplete frame is due, after
  \<open>(length d - 1) / 2\<close> correct frames; the test for the end of the sound never succeeds.
\<close>

theorem odd_sound_overruns:
  assumes "odd_at d n m j w" and "\<forall>i\<in>set is. Suc i < n" and "2 * (m + length is) = Suc (length d)"
  shows "foldE (\<lambda>i. mix_event i j) is w = Inl OutOfBounds"
  using assms
proof (induction "is" arbitrary: m w)
  case Nil
  then show ?case by (simp add: odd_at_def)
next
  case (Cons i "is")
  show ?case
  proof (cases "Suc (2 * m) < length d")
    case True
    then obtain w' where "mix_event i j w = Inr w'" "odd_at d n (Suc m) j w'"
      using odd_at_step [OF Cons.prems(1), of i] Cons.prems(2) by auto
    with Cons.IH [of "Suc m" w'] Cons.prems show ?thesis by simp
  next
    case False
    then show ?thesis using odd_at_step [OF Cons.prems(1), of i] Cons.prems(2) by simp
  qed
qed

theorem odd_sound_overruns_witness:
  "foldE (\<lambda>i. mix_event i 0) [0, 0]
     (idle_world\<lparr>ebuffs := Ptr [zero_event_buf\<lparr>eb_snd_buf := Some [5, 6, 7], eb_len := 3\<rparr>]
        , dyn_mul := Ptr [0.5]\<rparr>) = Inl OutOfBounds"
  by (rule odd_sound_overruns [where d = "[5, 6, 7]" and n = 2 and m = 0])
    (auto simp: odd_at_def part_defs idle_world_def zero_event_buf_def)

text \<open>
  Bounds of the fade table and the thresholds.  Indices below the table size are accepted and
  store the value, larger indices are rejected, but the index equal to the size passes the test
  and writes outside the array: one record behind \<open>lin_fade\<close>, one threshold behind \<open>thresh\<close>.
\<close>

theorem mixer_bounds_off_by_one:
  assumes "lin_fade w = Ptr fs" and "length fs = unat (no_sbuffs w)"
    and "sbuffs w = Ptr bs" and "st < length bs" and "sb_thresh (bs ! st) = Some ts"
    and "sb_thresh_cnt (bs ! st) = int (length ts)" and "length ts < 2 ^ 31" and "\<not> mlock w"
  shows "mixerSetFadeTime j t w =
      (if j < length fs then Inr (MIXER_SUCCESS, w\<lparr>lin_fade := Ptr (fs[j := (fs ! j)\<lparr>fade_time := t\<rparr>])\<rparr>)
       else if j = length fs then Inl OutOfBounds else Inr (MIXER_ERROR, w)) \<and>
    (k < length ts \<longrightarrow>
       (\<exists>w'. mixerAddStateThreshold True st k lb hb cnt w = Inr (MIXER_SUCCESS, w'))) \<and>
    (k = length ts \<longrightarrow> mixerAddStateThreshold True st k lb hb cnt w = Inl OutOfBounds) \<and>
    (k > length ts \<longrightarrow> mixerAddStateThreshold True st k lb hb cnt w = Inr (MIXER_OUT_OF_BOUNDS, w))"
proof -
  have u: "thresh_cnt_u (bs ! st) = length ts"
    using assms(6,7) by (simp add: thresh_cnt_u_def unat_of_nat32)
  have "mixerSetFadeTime j t w =
      (if j < length fs then Inr (MIXER_SUCCESS, w\<lparr>lin_fade := Ptr (fs[j := (fs ! j)\<lparr>fade_time := t\<rparr>])\<rparr>)
       else if j = length fs then Inl OutOfBounds else Inr (MIXER_ERROR, w))"
    using assms(1,2) by (auto simp: mixerSetFadeTime_def pa_get_def aget_uint)
  then show ?thesis
    using assms(3-5,8) u by (auto simp: mixerAddStateThreshold_def Let_def)
qed

definition state_world :: world where
  "state_world = idle_world\<lparr>sbuffs := Ptr [zero_state_buf\<lparr>sb_thresh := Some [zero_threshold],
     sb_thresh_cnt := 1\<rparr>], no_sbuffs := 1, lin_fade := Ptr [zero_fade]\<rparr>"

theorem mixer_bounds_off_by_one_witness:
  "mixerSetFadeTime 1 2 state_world = Inl OutOfBounds \<and>
   mixerAddStateThreshold True 0 1 0 1 3 state_world = Inl OutOfBounds"
  using mixer_bounds_off_by_one [of state_world "[zero_fade]"
      "[zero_state_buf\<lparr>sb_thresh := Some [zero_threshold], sb_thresh_cnt := 1\<rparr>]" 0 "[zero_threshold]"
      1 2 1 0 1 3]
  by (simp add: state_world_def idle_world_def)

text \<open>
  Start-up.  In the state the program starts in, with the output pointer \<open>NULL\<close>, \<open>mixerInit\<close>
  reads through that pointer, because it passes \<open>*output\<close> instead of its size to \<open>calloc\<close>; and a
  scheduler call before the table exists keeps the lock, so the next one never returns.
\<close>

theorem mixer_startup_faults:
  assumes "out_buf w = Null" and "sched w = Null" and "\<not> tlock w"
  shows "mixerInit ebuf sbuf w = Inl NullDeref \<and>
    (\<exists>w'. engineSchedulerInit i s p e w = Inr (ENGINE_NOT_YET_ALLOC, w') \<and>
          engineSchedulerInit i' s' p' e' w' = Inl Deadlock)"
  using assms by (simp add: mixerInit_def pa_get_def engineSchedulerInit_def threadLock_def)

theorem mixer_startup_faults_witness:
  "mixerInit 12 4 (idle_world\<lparr>out_buf := Null, sched := Null\<rparr>) = Inl NullDeref"
  using mixer_startup_faults [of "idle_world\<lparr>out_buf := Null, sched := Null\<rparr>" 12 4]
  by (simp add: idle_world_def)

end
