(* ===== verification/Thread_Sync.thy ===== *)
theory Thread_Sync
  imports Peep_Prelude
begin

text \<open>
  thread.c: the counting semaphores the engine queue blocks on, the signal mask of the
  worker threads and their life.  The POSIX calls are the standard ones: \<open>sem_wait\<close> takes one unit or
  waits (a signal handler may end the wait with an error), \<open>sem_trywait\<close> takes one unit or
  fails, \<open>sem_post\<close> adds one unit and fails at \<open>SEM_VALUE_MAX\<close>.  Mutexes are in the prelude.
\<close>

section \<open>Semaphores\<close>

definition SEM_VALUE_MAX :: nat where
  "SEM_VALUE_MAX = 2147483647"

datatype acquire = Returned int nat | Blocks

text \<open>A \<open>sem_t *\<close> points to the semaphore's count.\<close>

type_synonym sem_ptr = "nat ptr"

text \<open>
  \<open>semaphoreCreate\<close>: \<open>malloc_ok\<close> and \<open>init_ok\<close> say whether \<open>malloc\<close> and \<open>sem_init\<close> succeed;
  the result is the new semaphore or \<open>NULL\<close>.
\<close>

definition semaphoreCreate :: "bool \<Rightarrow> bool \<Rightarrow> nat \<Rightarrow> sem_ptr" where
  "semaphoreCreate malloc_ok init_ok value =
     (if \<not> malloc_ok then Null else if \<not> init_ok then Null else Ptr value)"

text \<open>\<open>eintr\<close>: a signal handler ends the wait if there is one.\<close>

definition semaphoreAcquire :: "nat \<Rightarrow> bool \<Rightarrow> bool \<Rightarrow> acquire" where
  "semaphoreAcquire sem blocking eintr =
     (if blocking
      then (if 0 < sem then Returned 1 (sem - 1)
            else if eintr then Returned 0 sem
            else Blocks)
      else (if 0 < sem then Returned 1 (sem - 1) else Returned 0 sem))"

definition semaphoreRelease :: "nat \<Rightarrow> int \<times> nat" where
  "semaphoreRelease sem = (if sem < SEM_VALUE_MAX then (1, sem + 1) else (0, sem))"

text \<open>The memory is released on both paths; the caller's pointer then dangles.\<close>

definition semaphoreDestroy :: "sem_ptr \<Rightarrow> bool \<Rightarrow> int \<times> sem_ptr" where
  "semaphoreDestroy sem destroy_ok =
     (if sem \<noteq> Null \<and> \<not> destroy_ok then (0, Freed)
      else (1, if sem = Null then Null else Freed))"

lemma semaphore_conservation:
  "semaphoreAcquire sem blocking eintr = Returned r sem' \<Longrightarrow> int sem = int sem' + r"
  by (auto simp: semaphoreAcquire_def split: if_splits)

lemma semaphoreAcquire_result:
  "semaphoreAcquire sem blocking eintr = Returned r sem' \<Longrightarrow>
     (r = 1 \<and> sem = Suc sem') \<or> (r = 0 \<and> sem = 0 \<and> sem' = 0)"
  by (auto simp: semaphoreAcquire_def split: if_splits)

lemma semaphoreAcquire_blocks_iff:
  "semaphoreAcquire sem blocking eintr = Blocks \<longleftrightarrow> blocking \<and> sem = 0 \<and> \<not> eintr"
  by (auto simp: semaphoreAcquire_def)

section \<open>Signals\<close>

datatype signal = SIGINT | SIGHUP | SIGALRM

definition threadBlockSignals :: "signal set \<Rightarrow> signal set" where
  "threadBlockSignals old_mask = old_mask \<union> {SIGINT, SIGHUP}"

lemma threadBlockSignals_SIGALRM: "SIGALRM \<in> threadBlockSignals m \<longleftrightarrow> SIGALRM \<in> m"
  by (simp add: threadBlockSignals_def)

section \<open>Threads\<close>

text \<open>
  A thread runs, has been asked to end, or has ended.  A request takes effect at the next cancellation
  point only: \<open>threadCheckCancelled\<close> and sleeping are such points.  A handle is \<open>None\<close> before the
  thread is started.
\<close>

datatype thread_state = Running | CancelPending | Ended

definition startThread :: "bool \<Rightarrow> thread_state option \<Rightarrow> int \<times> thread_state option" where
  "startThread create_ok handle = (if create_ok then (0, Some Running) else (1, handle))"

fun threadKill :: "thread_state \<Rightarrow> thread_state" where
  "threadKill Running = CancelPending"
| "threadKill t = t"

fun threadCheckCancelled :: "thread_state \<Rightarrow> thread_state" where
  "threadCheckCancelled CancelPending = Ended"
| "threadCheckCancelled t = t"

definition threadSleep :: "thread_state \<Rightarrow> thread_state" where
  "threadSleep t = threadCheckCancelled t"

lemma killed_thread_ends: "threadCheckCancelled (threadKill t) = Ended"
  by (cases t) auto

end
