(* ===== verification/Engine_Queue.thy ===== *)
theory Engine_Queue
  imports Event_Types Thread_Sync Buffer_Specs
begin

text \<open>
  engine_queue.c: the buffer between the server threads and the engine thread, a doubly linked
  list on the heap with a counting semaphore.  The model keeps the pointers: cells in a heap,
  \<open>head\<close>, \<open>tail\<close>, and the next address \<open>malloc\<close> returns.  Shown: every operation keeps the list
  well formed and frees exactly what it unlinks, the semaphore counts the elements, and the
  structure refines a stack, not a queue: \<open>engineDequeue\<close> returns the newest event.
\<close>

section \<open>State (engine_queue.h, engine_queue.c)\<close>

record ENGINE_QUEUE_ELEMENT =
  incoming_event :: EVENT
  el_next :: "nat option"
  el_prev :: "nat option"

record engine_queue =
  eq_mem :: "ENGINE_QUEUE_ELEMENT heap"
  eq_brk :: nat
  eq_head :: "nat option"
  eq_tail :: "nat option"
  eq_semaphore :: sem_ptr

definition engine_queue_static :: engine_queue where
  "engine_queue_static =
     \<lparr>eq_mem = Map.empty, eq_brk = 0, eq_head = None, eq_tail = None, eq_semaphore = Null\<rparr>"

section \<open>Operations\<close>

definition engineQueueInit :: "bool \<Rightarrow> bool \<Rightarrow> engine_queue \<Rightarrow> int \<times> engine_queue" where
  "engineQueueInit malloc_ok init_ok q =
     (let q' = q\<lparr>eq_semaphore := semaphoreCreate malloc_ok init_ok 0\<rparr>
      in if eq_semaphore q' = Null then (0, q') else (1, q'))"

text \<open>The semaphore's memory is released, the pointer stays; no cell of the list is freed.\<close>

definition engineQueueDestroy :: "bool \<Rightarrow> engine_queue \<Rightarrow> engine_queue" where
  "engineQueueDestroy destroy_ok q =
     (if eq_semaphore q \<noteq> Null
      then q\<lparr>eq_semaphore := snd (semaphoreDestroy (eq_semaphore q) destroy_ok)\<rparr> else q)"

text \<open>The loop \<open>while (cur_pos->next != NULL) cur_pos = cur_pos->next\<close>.\<close>

partial_function (option) last_node :: "ENGINE_QUEUE_ELEMENT heap \<Rightarrow> nat \<Rightarrow> nat result option" where
  "last_node m cur_pos =
     (case m cur_pos of
        None \<Rightarrow> Some (Inl UseAfterFree)
      | Some n \<Rightarrow> (case el_next n of None \<Rightarrow> Some (Inr cur_pos) | Some a \<Rightarrow> last_node m a))"

definition eq_release :: "engine_queue \<Rightarrow> engine_queue result" where
  "eq_release q =
     bindE (pget (eq_semaphore q)) (\<lambda>s.
     Inr (q\<lparr>eq_semaphore := Ptr (snd (semaphoreRelease s))\<rparr>))"

text \<open>Its \<open>malloc\<close> is taken to succeed; the code does not test it.\<close>

definition engineEnqueue :: "EVENT \<Rightarrow> engine_queue \<Rightarrow> engine_queue result" where
  "engineEnqueue d q =
     (let new = eq_brk q in
      bindE
       (case eq_head q of
          None \<Rightarrow>
            Inr (q\<lparr>eq_mem := (eq_mem q)(new \<mapsto> \<lparr>incoming_event = d, el_next = None, el_prev = None\<rparr>),
                   eq_brk := Suc new, eq_head := Some new, eq_tail := Some new\<rparr>)
        | Some h \<Rightarrow>
            bindE (loopE (last_node (eq_mem q) h)) (\<lambda>cur_pos.
            bindE (deref (eq_mem q) (Some cur_pos)) (\<lambda>n.
            Inr (q\<lparr>eq_mem := (eq_mem q)(cur_pos \<mapsto> n\<lparr>el_next := Some new\<rparr>,
                      new \<mapsto> \<lparr>incoming_event = d, el_next = None, el_prev = Some cur_pos\<rparr>),
                   eq_brk := Suc new, eq_tail := Some new\<rparr>))))
       eq_release)"

text \<open>
  \<open>Inr None\<close>: the call waits on the semaphore.  The value \<open>semaphoreAcquire\<close> returns is
  ignored, as in the code, so an interrupted wait goes on to read \<open>tail\<close>.
\<close>

definition engineDequeue :: "bool \<Rightarrow> engine_queue \<Rightarrow> (EVENT \<times> engine_queue) option result" where
  "engineDequeue eintr q =
     bindE (pget (eq_semaphore q)) (\<lambda>s.
         (case semaphoreAcquire s True eintr of
            Blocks \<Rightarrow> Inr None
          | Returned r s' \<Rightarrow>
              bindE (deref (eq_mem q) (eq_tail q)) (\<lambda>t.
              case el_prev t of
                Some p \<Rightarrow>
                  bindE (deref (eq_mem q) (Some p)) (\<lambda>n.
                  bindE (free_cell (eq_mem q) (el_next n)) (\<lambda>m.
                  bindE (deref m (Some p)) (\<lambda>n'.
                  Inr (Some (incoming_event t,
                    q\<lparr>eq_mem := m(p \<mapsto> n'\<lparr>el_next := None\<rparr>), eq_tail := Some p,
                      eq_semaphore := Ptr s'\<rparr>)))))
              | None \<Rightarrow>
                  bindE (free_cell (eq_mem q) (eq_tail q)) (\<lambda>m.
                  Inr (Some (incoming_event t,
                    q\<lparr>eq_mem := m, eq_tail := None, eq_head := None,
                      eq_semaphore := Ptr s'\<rparr>))))))"

definition engineQueueEmpty :: "engine_queue \<Rightarrow> bool" where
  "engineQueueEmpty q \<longleftrightarrow> eq_head q = None"

section \<open>The representation\<close>

text \<open>\<open>eq_cell as i e\<close>: the cell at position \<open>i\<close> of the list with addresses \<open>as\<close>.\<close>

definition eq_cell :: "nat list \<Rightarrow> nat \<Rightarrow> EVENT \<Rightarrow> ENGINE_QUEUE_ELEMENT" where
  "eq_cell as i e = \<lparr>incoming_event = e,
     el_next = (if Suc i < length as then Some (as ! Suc i) else None),
     el_prev = (if i = 0 then None else Some (as ! (i - 1)))\<rparr>"

text \<open>
  \<open>eq_rep q as xs\<close>: \<open>q\<close> is a doubly linked list with the cells \<open>as\<close> holding the events \<open>xs\<close>,
  from \<open>head\<close> to \<open>tail\<close>; no other cell is allocated and the semaphore is the length.
\<close>

definition eq_rep :: "engine_queue \<Rightarrow> nat list \<Rightarrow> EVENT list \<Rightarrow> bool" where
  "eq_rep q as xs \<longleftrightarrow>
     distinct as \<and> length xs = length as \<and> dom (eq_mem q) = set as \<and>
     (\<forall>a\<in>set as. a < eq_brk q) \<and>
     (\<forall>i<length as. eq_mem q (as ! i) = Some (eq_cell as i (xs ! i))) \<and>
     eq_head q = (if as = [] then None else Some (as ! 0)) \<and>
     eq_tail q = (if as = [] then None else Some (as ! (length as - 1))) \<and>
     eq_semaphore q = Ptr (length as)"

definition eq_rel :: "engine_queue \<Rightarrow> EVENT list \<Rightarrow> bool" where
  "eq_rel q xs \<longleftrightarrow> (\<exists>as. eq_rep q as xs)"

lemma eq_rel_init: "eq_rel (snd (engineQueueInit True True engine_queue_static)) []"
  by (auto simp: eq_rel_def eq_rep_def engineQueueInit_def engine_queue_static_def
      semaphoreCreate_def)

lemma eq_rel_empty_iff: "eq_rel q xs \<Longrightarrow> engineQueueEmpty q \<longleftrightarrow> xs = []"
  by (auto simp: eq_rel_def eq_rep_def engineQueueEmpty_def split: if_splits)

lemma eq_rel_semaphore: "eq_rel q xs \<Longrightarrow> eq_semaphore q = Ptr (length xs)"
  by (auto simp: eq_rel_def eq_rep_def)

lemma eq_rel_cells: "eq_rel q xs \<Longrightarrow> card (dom (eq_mem q)) = length xs"
  by (auto simp: eq_rel_def eq_rep_def distinct_card)

lemma last_node_rep:
  assumes "eq_rep q as xs" and "i < length as"
  shows "last_node (eq_mem q) (as ! i) = Some (Inr (as ! (length as - 1)))"
  using assms(2)
proof (induction "length as - i" arbitrary: i rule: less_induct)
  case less
  have cell: "eq_mem q (as ! i) = Some (eq_cell as i (xs ! i))"
    using assms(1) less.prems by (simp add: eq_rep_def)
  show ?case
  proof (cases "Suc i < length as")
    case True
    with less.hyps [of "Suc i"] less.prems have
      "last_node (eq_mem q) (as ! Suc i) = Some (Inr (as ! (length as - 1)))" by simp
    with True show ?thesis
      by (subst last_node.simps) (simp add: cell, simp add: eq_cell_def)
  next
    case False
    then have nx: "el_next (eq_cell as i (xs ! i)) = None" by (simp add: eq_cell_def)
    have "last_node (eq_mem q) (as ! i) = Some (Inr (as ! i))"
      by (subst last_node.simps) (simp add: cell nx)
    moreover from False less.prems have "i = length as - 1" by simp
    ultimately show ?thesis by simp
  qed
qed

text \<open>Where the cells of a list extended, or shortened, at its end lie.\<close>

lemma eq_cell_snoc_before:
  assumes "Suc i < length as"
  shows "eq_cell (as @ [a]) i e = eq_cell as i e"
proof -
  have "(as @ [a]) ! Suc i = as ! Suc i" using assms by (rule nth_snoc)
  moreover have "(as @ [a]) ! (i - 1) = as ! (i - 1)" by (rule nth_snoc) (use assms in linarith)
  ultimately show ?thesis using assms by (simp add: eq_cell_def)
qed

lemma eq_cell_snoc_end:
  assumes "Suc i = length as"
  shows "eq_cell (as @ [a]) i e = eq_cell as i e\<lparr>el_next := Some a\<rparr>"
proof -
  have "(as @ [a]) ! Suc i = a" using assms by (simp only: nth_append_length)
  moreover have "(as @ [a]) ! (i - 1) = as ! (i - 1)" by (rule nth_snoc) (use assms in linarith)
  ultimately show ?thesis using assms by (simp add: eq_cell_def)
qed

lemma eq_cell_last:
  "eq_cell (as @ [a]) (length as) e =
     \<lparr>incoming_event = e, el_next = None,
      el_prev = (if as = [] then None else Some (as ! (length as - 1)))\<rparr>"
  by (auto simp: eq_cell_def nth_append)

lemma eq_repD:
  assumes "eq_rep q as xs"
  shows "distinct as" "length xs = length as" "dom (eq_mem q) = set as"
    "a \<in> set as \<Longrightarrow> a < eq_brk q"
    "i < length as \<Longrightarrow> eq_mem q (as ! i) = Some (eq_cell as i (xs ! i))"
    "as \<noteq> [] \<Longrightarrow> eq_head q = Some (as ! 0)"
    "as \<noteq> [] \<Longrightarrow> eq_tail q = Some (as ! (length as - 1))"
    "as = [] \<Longrightarrow> eq_head q = None" "as = [] \<Longrightarrow> eq_tail q = None"
    "eq_semaphore q = Ptr (length as)"
  using assms by (auto simp: eq_rep_def)

text \<open>The heap with the cell \<open>new\<close> linked after the last one, and with the last cell unlinked.\<close>

definition eq_link :: "engine_queue \<Rightarrow> nat list \<Rightarrow> EVENT list \<Rightarrow> EVENT \<Rightarrow> ENGINE_QUEUE_ELEMENT heap" where
  "eq_link q as xs d =
     (let m = (if as = [] then eq_mem q
               else (eq_mem q)(as ! (length as - 1) \<mapsto>
                 eq_cell as (length as - 1) (xs ! (length as - 1))\<lparr>el_next := Some (eq_brk q)\<rparr>))
      in m(eq_brk q \<mapsto> \<lparr>incoming_event = d, el_next = None,
             el_prev = (if as = [] then None else Some (as ! (length as - 1)))\<rparr>))"

lemma eq_rep_snoc:
  assumes rep: "eq_rep q as xs" and mem: "eq_mem q' = eq_link q as xs d"
    and rest: "eq_brk q' = Suc (eq_brk q)" "eq_tail q' = Some (eq_brk q)"
      "eq_head q' = (if as = [] then Some (eq_brk q) else eq_head q)"
      "eq_semaphore q' = Ptr (Suc (length as))"
  shows "eq_rep q' (as @ [eq_brk q]) (xs @ [d])"
proof -
  note r = eq_repD [OF rep]
  have fresh: "eq_brk q \<notin> set as" using r(4) by blast
  have cell: "eq_mem q' ((as @ [eq_brk q]) ! i) =
      Some (eq_cell (as @ [eq_brk q]) i ((xs @ [d]) ! i))" if "i < Suc (length as)" for i
  proof (cases "i = length as")
    case True
    then show ?thesis
      using r(2) by (simp add: mem eq_link_def Let_def eq_cell_last nth_append)
  next
    case False
    with that have i: "i < length as" by simp
    then have ne: "as \<noteq> []" by auto
    have nb: "as ! i \<noteq> eq_brk q" using fresh nth_mem [OF i] by metis
    have xi: "(xs @ [d]) ! i = xs ! i" and ai: "(as @ [eq_brk q]) ! i = as ! i"
      using i r(2) by (simp_all add: nth_append)
    show ?thesis
    proof (cases "Suc i = length as")
      case True
      then have "i = length as - 1" by simp
      then have "eq_mem q' (as ! i) = Some (eq_cell as i (xs ! i)\<lparr>el_next := Some (eq_brk q)\<rparr>)"
        using nb ne by (simp add: mem eq_link_def)
      then show ?thesis by (simp only: xi ai eq_cell_snoc_end [OF True])
    next
      case False
      then have "as ! i \<noteq> as ! (length as - 1)" using nth_last_index [OF r(1) i] by simp
      then show ?thesis
        using nb ne i False r(5) [OF i] eq_cell_snoc_before [of i as "eq_brk q" "xs ! i"]
        by (simp add: mem eq_link_def xi ai)
    qed
  qed
  have "dom (eq_mem q') = insert (eq_brk q) (dom (eq_mem q))"
    using r(3) nth_mem [of "length as - 1" as] by (auto simp: mem eq_link_def Let_def)
  with cell fresh r(1,2,3,4,6) rest show ?thesis
    by (auto simp: eq_rep_def nth_append less_Suc_eq)
qed

definition eq_unlink :: "engine_queue \<Rightarrow> nat list \<Rightarrow> nat \<Rightarrow> EVENT list \<Rightarrow> ENGINE_QUEUE_ELEMENT heap" where
  "eq_unlink q as a xs =
     (let m = (eq_mem q)(a := None)
      in if as = [] then m
         else m(as ! (length as - 1) \<mapsto> eq_cell as (length as - 1) (xs ! (length as - 1))))"

lemma eq_rep_butlast:
  assumes rep: "eq_rep q (as @ [a]) (xs @ [d])" and mem: "eq_mem q' = eq_unlink q as a xs"
    and rest: "eq_brk q' = eq_brk q" "eq_semaphore q' = Ptr (length as)"
      "eq_tail q' = (if as = [] then None else Some (as ! (length as - 1)))"
      "eq_head q' = (if as = [] then None else eq_head q)"
  shows "eq_rep q' as xs"
proof -
  note r = eq_repD [OF rep]
  have len: "length xs = length as" and fresh: "a \<notin> set as" and dist: "distinct as"
    using r(1,2) by auto
  have cell: "eq_mem q' (as ! i) = Some (eq_cell as i (xs ! i))" if i: "i < length as" for i
  proof -
    have na: "as ! i \<noteq> a" using fresh nth_mem [OF i] by metis
    have ne: "as \<noteq> []" using i by auto
    have old: "eq_mem q (as ! i) = Some (eq_cell (as @ [a]) i (xs ! i))"
      using r(5) [of i] i len by (simp add: nth_append)
    show ?thesis
    proof (cases "Suc i = length as")
      case True
      then have "i = length as - 1" by simp
      then show ?thesis using na ne by (simp add: mem eq_unlink_def)
    next
      case False
      then have "as ! i \<noteq> as ! (length as - 1)" using nth_last_index [OF dist i] by simp
      then show ?thesis
        using na ne i False old by (simp add: mem eq_unlink_def eq_cell_snoc_before)
    qed
  qed
  have "dom (eq_mem q') = dom (eq_mem q) - {a}"
    using r(3) fresh nth_mem [of "length as - 1" as] by (auto simp: mem eq_unlink_def Let_def)
  with cell dist len fresh r(3,4,6) rest show ?thesis
    by (auto simp: eq_rep_def nth_append)
qed

section \<open>What the operations do to the represented list\<close>

lemma engineEnqueue_rep:
  assumes rep: "eq_rep q as xs" and room: "length xs < SEM_VALUE_MAX"
  shows "\<exists>q'. engineEnqueue d q = Inr q' \<and> eq_rep q' (as @ [eq_brk q]) (xs @ [d])"
proof -
  note r = eq_repD [OF rep]
  have rel: "semaphoreRelease (length as) = (1, Suc (length as))"
    using room r(2) by (simp add: semaphoreRelease_def)
  show ?thesis
  proof (cases "as = []")
    case True
    then have "engineEnqueue d q = Inr (q\<lparr>eq_mem := eq_link q as xs d, eq_brk := Suc (eq_brk q),
        eq_head := Some (eq_brk q), eq_tail := Some (eq_brk q),
        eq_semaphore := Ptr (Suc (length as))\<rparr>)"
      using r(8,10) rel by (simp add: engineEnqueue_def eq_release_def eq_link_def Let_def)
    then show ?thesis
      by (intro exI conjI, assumption) (rule eq_rep_snoc [OF rep], simp_all add: True)
  next
    case False
    then have 0: "0 < length as" and l: "length as - 1 < length as" by auto
    have "last_node (eq_mem q) (as ! 0) = Some (Inr (as ! (length as - 1)))"
      using last_node_rep [OF rep 0] .
    then have "engineEnqueue d q = Inr (q\<lparr>eq_mem := eq_link q as xs d, eq_brk := Suc (eq_brk q),
        eq_tail := Some (eq_brk q), eq_semaphore := Ptr (Suc (length as))\<rparr>)"
      using False r(6,10) r(5) [OF l] rel
      by (simp add: engineEnqueue_def eq_release_def eq_link_def Let_def)
    then show ?thesis
      by (intro exI conjI, assumption) (rule eq_rep_snoc [OF rep], simp_all add: False)
  qed
qed

lemma engineDequeue_rep:
  assumes rep: "eq_rep q (as @ [a]) (xs @ [d])"
  shows "\<exists>q'. engineDequeue eintr q = Inr (Some (d, q')) \<and> eq_rep q' as xs"
proof -
  note r = eq_repD [OF rep]
  have len: "length xs = length as" and fresh: "a \<notin> set as" using r(1,2) by auto
  have acq: "semaphoreAcquire (Suc (length as)) True eintr = Returned 1 (length as)"
    by (simp add: semaphoreAcquire_def)
  have t: "eq_tail q = Some a" using r(7) by (simp add: nth_append)
  have ta: "eq_mem q a = Some (eq_cell (as @ [a]) (length as) d)"
    using r(5) [of "length as"] len by (simp add: nth_append)
  show ?thesis
  proof (cases "as = []")
    case True
    then have "engineDequeue eintr q = Inr (Some (d, q\<lparr>eq_mem := eq_unlink q as a xs,
        eq_tail := None, eq_head := None, eq_semaphore := Ptr (length as)\<rparr>))"
      using r(10) acq ta by (simp add: engineDequeue_def t eq_cell_def eq_unlink_def)
    then show ?thesis
      by (intro exI conjI, assumption) (rule eq_rep_butlast [OF rep], simp_all add: True)
  next
    case False
    let ?p = "as ! (length as - 1)"
    have l: "length as - 1 < length as" using False by simp
    have pa: "?p \<noteq> a" using fresh nth_mem [OF l] by metis
    have pc: "eq_mem q ?p =
        Some (eq_cell as (length as - 1) (xs ! (length as - 1))\<lparr>el_next := Some a\<rparr>)"
      using r(5) [of "length as - 1"] l len False eq_cell_snoc_end [of "length as - 1" as]
      by (simp add: nth_append)
    have upd: "eq_cell as (length as - 1) x\<lparr>el_next := Some a, el_next := None\<rparr> =
        eq_cell as (length as - 1) x" for x
      using False by (simp add: eq_cell_def)
    have "engineDequeue eintr q = Inr (Some (d, q\<lparr>eq_mem := eq_unlink q as a xs,
        eq_tail := Some ?p, eq_semaphore := Ptr (length as)\<rparr>))"
      using False r(10) acq ta pc pa upd
      by (simp add: engineDequeue_def t eq_cell_last eq_unlink_def)
    then show ?thesis
      by (intro exI conjI, assumption) (rule eq_rep_butlast [OF rep], simp_all add: False)
  qed
qed

lemma engineEnqueue_rel:
  "eq_rel q xs \<Longrightarrow> length xs < SEM_VALUE_MAX \<Longrightarrow>
   \<exists>q'. engineEnqueue d q = Inr q' \<and> eq_rel q' (xs @ [d])"
  unfolding eq_rel_def using engineEnqueue_rep by blast

lemma engineDequeue_rel:
  assumes "eq_rel q (xs @ [d])"
  shows "\<exists>q'. engineDequeue eintr q = Inr (Some (d, q')) \<and> eq_rel q' xs"
proof -
  from assms obtain as where rep: "eq_rep q as (xs @ [d])" by (auto simp: eq_rel_def)
  with eq_repD(2) [OF rep] obtain as' a where "as = as' @ [a]"
    by (cases as rule: rev_cases) auto
  with rep engineDequeue_rep show ?thesis unfolding eq_rel_def by blast
qed

lemma engineDequeue_empty:
  assumes "eq_rel q []"
  shows "engineDequeue False q = Inr None" and "engineDequeue True q = Inl NullDeref"
  using assms
  by (auto simp: eq_rel_def eq_rep_def engineDequeue_def semaphoreAcquire_def)

section \<open>The engine queue is a LIFO buffer\<close>

interpretation eq: lifo_buffer engineEnqueue "engineDequeue False" eq_rel SEM_VALUE_MAX
proof
  fix q xs e
  assume "eq_rel q xs" and "length xs < SEM_VALUE_MAX"
  then show "\<exists>q'. engineEnqueue e q = Inr q' \<and> eq_rel q' (xs @ [e])" by (rule engineEnqueue_rel)
next
  fix q xs e
  assume "eq_rel q (xs @ [e])"
  then show "\<exists>q'. engineDequeue False q = Inr (Some (e, q')) \<and> eq_rel q' xs"
    by (rule engineDequeue_rel)
next
  fix q
  assume "eq_rel q []"
  then show "engineDequeue False q = Inr None" by (rule engineDequeue_empty)
qed

abbreviation eq_initial :: engine_queue where
  "eq_initial \<equiv> snd (engineQueueInit True True engine_queue_static)"

text \<open>
  C10.  Refinement.  From the initialised queue, every sequence of at most \<open>SEM_VALUE_MAX\<close>
  calls of \<open>engineEnqueue\<close> and \<open>engineDequeue\<close> runs without a fault, returns what the same
  sequence returns on a stack, leaves the heap holding exactly one cell per buffered event
  (no leak), and leaves the semaphore equal to the number of events.
\<close>

theorem engine_queue_refines_stack:
  assumes "length ops \<le> SEM_VALUE_MAX"
  shows "\<exists>q'. run_ops engineEnqueue (engineDequeue False) ops eq_initial
                = Inr (fst (stack_run ops []), q') \<and>
              eq_rel q' (snd (stack_run ops [])) \<and>
              card (dom (eq_mem q')) = length (snd (stack_run ops [])) \<and>
              eq_semaphore q' = Ptr (length (snd (stack_run ops [])))"
proof -
  from eq.run_refines [OF eq_rel_init, of ops] assms obtain q' where
    "run_ops engineEnqueue (engineDequeue False) ops eq_initial = Inr (fst (stack_run ops []), q')"
    "eq_rel q' (snd (stack_run ops []))" by auto
  then show ?thesis using eq_rel_cells eq_rel_semaphore by blast
qed

theorem engine_queue_refines_stack_witness:
  "\<exists>q'. run_ops engineEnqueue (engineDequeue False)
          [Put zero_event, Put (zero_event\<lparr>e_prior := 3\<rparr>), Take, Take, Take] eq_initial
        = Inr ([Some (zero_event\<lparr>e_prior := 3\<rparr>), Some zero_event, None], q') \<and>
        eq_rel q' [] \<and> card (dom (eq_mem q')) = 0 \<and> eq_semaphore q' = Ptr 0"
  using engine_queue_refines_stack
    [of "[Put zero_event, Put (zero_event\<lparr>e_prior := 3\<rparr>), Take, Take, Take]"]
  by (simp add: SEM_VALUE_MAX_def)

text \<open>
  Ordering.  Events that arrive in a burst reach the engine thread in the reverse of their
  order of arrival: enqueueing \<open>es\<close> and then dequeueing \<open>length es\<close> times yields \<open>rev es\<close> and
  gives back the earlier contents.
\<close>

theorem engine_queue_burst_reversed:
  assumes "eq_rel q xs" and "length xs + 2 * length es \<le> SEM_VALUE_MAX"
  shows "\<exists>q'. run_ops engineEnqueue (engineDequeue False)
                (map Put es @ replicate (length es) Take) q = Inr (map Some (rev es), q') \<and>
              eq_rel q' xs"
  using assms by (rule eq.burst_reversed)

theorem engine_queue_burst_reversed_witness:
  "\<exists>q'. run_ops engineEnqueue (engineDequeue False)
          [Put (zero_event\<lparr>e_prior := 1\<rparr>), Put (zero_event\<lparr>e_prior := 2\<rparr>), Take, Take] eq_initial
        = Inr ([Some (zero_event\<lparr>e_prior := 2\<rparr>), Some (zero_event\<lparr>e_prior := 1\<rparr>)], q') \<and>
        eq_rel q' []"
  using engine_queue_burst_reversed
    [OF eq_rel_init, of "[zero_event\<lparr>e_prior := 1\<rparr>, zero_event\<lparr>e_prior := 2\<rparr>]"]
  by (simp add: SEM_VALUE_MAX_def)

text \<open>
  The result of the semaphore wait is ignored: a wait that a signal interrupts on an empty
  queue reads through the \<open>NULL\<close> tail, while an uninterrupted one waits, and neither depends on
  how the queue became empty.
\<close>

theorem engine_dequeue_interrupted:
  assumes "eq_rel q []"
  shows "engineDequeue True q = Inl NullDeref \<and> engineDequeue False q = Inr None"
  using engineDequeue_empty [OF assms] by simp

theorem engine_dequeue_interrupted_witness:
  "engineDequeue True eq_initial = Inl NullDeref \<and> engineDequeue False eq_initial = Inr None"
  using engine_dequeue_interrupted [OF eq_rel_init] .

end
