(* ===== verification/Playback.thy ===== *)
theory Playback
  imports Event_Types
begin

text \<open>
  playback.c: the event log.  The file is its header and the list of the records behind it; a
  stream is at the beginning of a record, \<open>pos\<close> counts records, and the byte offset of a record is
  \<open>record_offset\<close>.  Shown: what the file holds after any number of recorded events (the log wraps
  once and then grows without bound), that the search for the oldest event is right on every
  log of at least two events that wrapped at most once, and that it reads an uninitialised record on
  a log of one event.
\<close>

section \<open>Data (playback.h)\<close>

definition MAX_PLAYBACK_EVENTS :: nat where "MAX_PLAYBACK_EVENTS = 3200"

text \<open>The sizes of \<open>struct playback_h\<close> and \<open>playback_t\<close> on a 64-bit Linux.\<close>

definition header_size :: int where "header_size = 56"
definition record_size :: int where "record_size = 40"

definition record_offset :: "nat \<Rightarrow> int" where
  "record_offset n = header_size + record_size * int n"

datatype playback_mode_t = PLAY_MODE | RECORD_MODE

record playback_h =
  major_ver :: int
  minor_ver :: int
  max_events :: nat
  written :: nat
  start_pos :: int
  start_t :: timeval
  end_t :: timeval

record playback =
  pb_open :: bool
  pb_file_header :: "playback_h option"
  pb_recs :: "ENGINE_EVENT list"
  pb_pos :: nat
  pb_eof :: bool
  pb_header :: playback_h
  event_cnt :: nat
  pb_mode :: playback_mode_t
  use_playback :: int
  loopback_flag :: bool

definition zero_time :: timeval where
  "zero_time = \<lparr>tv_sec = 0, tv_usec = 0\<rparr>"

definition playback_static :: playback where
  "playback_static = \<lparr>pb_open = False, pb_file_header = None, pb_recs = [], pb_pos = 0, pb_eof = False,
     pb_header = \<lparr>major_ver = 0, minor_ver = 0, max_events = 0, written = 0, start_pos = 0,
       start_t = zero_time, end_t = zero_time\<rparr>,
     event_cnt = 0, pb_mode = PLAY_MODE, use_playback = 0, loopback_flag = False\<rparr>"

section \<open>Operations\<close>

definition playbackModeOn :: "int option \<Rightarrow> playback \<Rightarrow> int \<times> playback" where
  "playbackModeOn t p =
     (let p' = (case t of Some v \<Rightarrow> p\<lparr>use_playback := v\<rparr> | None \<Rightarrow> p) in (use_playback p', p'))"

definition playbackSetMode :: "playback_mode_t option \<Rightarrow> playback \<Rightarrow> playback_mode_t \<times> playback" where
  "playbackSetMode m p =
     (let p' = (case m of Some v \<Rightarrow> p\<lparr>pb_mode := v\<rparr> | None \<Rightarrow> p) in (pb_mode p', p'))"

text \<open>
  \<open>contents\<close> is the file found on disk, \<open>None\<close> when \<open>fopen\<close> fails.  In play mode the program then shuts
  down (the first component of the result is \<open>None\<close>); in record mode the code calls \<open>shutdown\<close>, the function of the
  C library for sockets, which returns, and goes on to write through the \<open>NULL\<close> stream.  A file too short
  for a header makes the read fail, and \<open>write_ok\<close> says whether the first write succeeds.  A record on disk holds the
  address of the sound's name, not the name: the \<open>e_sound\<close> of a record in \<open>contents\<close> is whatever that
  address refers to in the process that reads it.
\<close>

definition playbackFileInit ::
  "bool \<Rightarrow> (playback_h option \<times> ENGINE_EVENT list) option \<Rightarrow> timeval \<Rightarrow> playback
   \<Rightarrow> (int option \<times> playback) result" where
  "playbackFileInit write_ok contents now p =
     (case fst (playbackSetMode None p) of
        PLAY_MODE \<Rightarrow>
          (case contents of
             None \<Rightarrow> Inr (None, p)
           | Some (None, recs) \<Rightarrow> Inr (Some 0, p\<lparr>pb_open := True\<rparr>)
           | Some (Some h, recs) \<Rightarrow>
               Inr (Some 1, p\<lparr>pb_open := True, pb_file_header := Some h, pb_recs := recs, pb_pos := 0,
                          pb_eof := False, pb_header := h\<rparr>))
      | RECORD_MODE \<Rightarrow>
          (case contents of
             None \<Rightarrow> Inl NullDeref
           | Some _ \<Rightarrow>
               let h = \<lparr>major_ver = 1, minor_ver = 1, max_events = MAX_PLAYBACK_EVENTS, written = 0,
                        start_pos = header_size, start_t = now, end_t = zero_time\<rparr>;
                   p1 = p\<lparr>pb_open := True, pb_file_header := None, pb_recs := [], pb_pos := 0,
                          pb_eof := False, pb_header := h\<rparr> in
               if write_ok then Inr (Some 1, p1\<lparr>pb_file_header := Some h\<rparr>) else Inr (Some 0, p1)))"

text \<open>\<open>fread\<close> and \<open>fwrite\<close> of one record, and \<open>fseek\<close> to a record.\<close>

definition read_rec :: "playback \<Rightarrow> ENGINE_EVENT option \<times> playback" where
  "read_rec p = (if pb_pos p < length (pb_recs p)
                 then (Some (pb_recs p ! pb_pos p), p\<lparr>pb_pos := Suc (pb_pos p)\<rparr>)
                 else (None, p\<lparr>pb_eof := True\<rparr>))"

definition write_rec :: "ENGINE_EVENT \<Rightarrow> playback \<Rightarrow> playback" where
  "write_rec r p =
     p\<lparr>pb_recs := take (pb_pos p) (pb_recs p) @ [r] @ drop (Suc (pb_pos p)) (pb_recs p),
       pb_pos := Suc (pb_pos p)\<rparr>"

definition seek_rec :: "nat \<Rightarrow> playback \<Rightarrow> playback" where
  "seek_rec n p = p\<lparr>pb_pos := n, pb_eof := False\<rparr>"

text \<open>\<open>io_ok = False\<close> stands for a failing \<open>fwrite\<close> or \<open>fseek\<close>.\<close>

definition playbackRecordEvent :: "bool \<Rightarrow> timeval \<Rightarrow> ENGINE_EVENT \<Rightarrow> playback \<Rightarrow> (int \<times> playback) result" where
  "playbackRecordEvent io_ok now e p =
     (if \<not> pb_open p then Inl NullDeref
      else
        let r = e\<lparr>mix_time := now\<rparr> in
        if event_cnt p \<noteq> MAX_PLAYBACK_EVENTS
        then (if io_ok then Inr (1, (write_rec r p)\<lparr>event_cnt := event_cnt p + 1\<rparr>) else Inr (0, p))
        else
          let p1 = p\<lparr>loopback_flag := True\<rparr> in
          (if io_ok then Inr (1, (write_rec r (seek_rec 0 p1))\<lparr>event_cnt := event_cnt p + 1\<rparr>)
           else Inr (0, p1)))"

text \<open>
  The search for the oldest event.  \<open>prev\<close> is read once and never updated.  A failing \<open>fread\<close>
  leaves \<open>cur\<close> as it was, uninitialised before the first successful read.
\<close>

partial_function (option) first_offset_loop ::
  "ENGINE_EVENT option \<Rightarrow> ENGINE_EVENT option \<Rightarrow> int \<Rightarrow> playback \<Rightarrow> (int \<times> playback) result option" where
  "first_offset_loop prev cur initial_pos p =
     (if pb_eof p then Some (Inr (initial_pos, p))
      else let (r, p1) = read_rec p; cur1 = (if r = None then cur else r) in
           case (cur1, prev) of
             (Some c, Some pr) \<Rightarrow>
               if TP_IN_FP_SECS (mix_time c) < TP_IN_FP_SECS (mix_time pr)
               then Some (Inr (record_offset (pb_pos p1) - record_size, p1))
               else first_offset_loop prev cur1 initial_pos p1
           | _ \<Rightarrow> Some (Inl UninitRead))"

definition playbackFindFirstOffset :: "playback \<Rightarrow> (int \<times> playback) result" where
  "playbackFindFirstOffset p =
     (if \<not> pb_open p then Inl NullDeref
      else let initial_pos = record_offset (pb_pos p); (prev, p1) = read_rec p
           in loopE (first_offset_loop prev None initial_pos p1))"

text \<open>The search for the first event not earlier than \<open>t\<close>, from record \<open>start\<close> round the file.\<close>

partial_function (option) find_time_loop ::
  "timeval \<Rightarrow> nat \<Rightarrow> ENGINE_EVENT option \<Rightarrow> playback \<Rightarrow> (int \<times> playback) result option" where
  "find_time_loop t start rc p =
     (let (r, p1) = read_rec p; rc1 = (if r = None then rc else r) in
      case rc1 of
        None \<Rightarrow> Some (Inl UninitRead)
      | Some e \<Rightarrow>
          if TP_IN_FP_SECS (mix_time e) \<ge> TP_IN_FP_SECS t
          then Some (Inr (record_offset (pb_pos p1) - record_size, p1))
          else let p2 = (if pb_eof p1 then seek_rec 0 p1 else p1) in
               if pb_pos p2 \<noteq> start then find_time_loop t start rc1 p2 else Some (Inr (0, p2)))"

definition playbackFindTime :: "timeval \<Rightarrow> nat \<Rightarrow> playback \<Rightarrow> (int \<times> playback) result" where
  "playbackFindTime t start p =
     (if \<not> pb_open p then Inl NullDeref else loopE (find_time_loop t start None (seek_rec start p)))"

definition playbackFileShutdown :: "bool \<Rightarrow> timeval \<Rightarrow> playback \<Rightarrow> playback result" where
  "playbackFileShutdown seek_ok now p =
     (case pb_mode p of
        RECORD_MODE \<Rightarrow>
          if \<not> pb_open p then Inl NullDeref else
          let h = (pb_header p)\<lparr>written := event_cnt p, end_t := now,
                    start_pos := (if loopback_flag p then record_offset (pb_pos p) else header_size)\<rparr>
          in Inr (if seek_ok then p\<lparr>pb_header := h, pb_file_header := Some h\<rparr> else p\<lparr>pb_header := h\<rparr>)
      | PLAY_MODE \<Rightarrow> Inr p)"


section \<open>What the log holds\<close>

fun record_all :: "(timeval \<times> ENGINE_EVENT) list \<Rightarrow> playback \<Rightarrow> playback result" where
  "record_all [] p = Inr p"
| "record_all ((now, e) # xs) p =
     bindE (playbackRecordEvent True now e p) (\<lambda>(r, p1). record_all xs p1)"

lemma record_all_append:
  "record_all (xs @ ys) p = bindE (record_all xs p) (record_all ys)"
  by (induction xs p rule: record_all.induct)
    (auto simp: bindE_assoc split_beta intro!: bindE_cong)

definition stamped :: "(timeval \<times> ENGINE_EVENT) list \<Rightarrow> ENGINE_EVENT list" where
  "stamped xs = map (\<lambda>(t, e). e\<lparr>mix_time := t\<rparr>) xs"

lemma stamped_snoc [simp]: "stamped (xs @ [(t, e)]) = stamped xs @ [e\<lparr>mix_time := t\<rparr>]"
  by (simp add: stamped_def)

lemma length_stamped [simp]: "length (stamped xs) = length xs"
  by (simp add: stamped_def)

definition log_contents :: "ENGINE_EVENT list \<Rightarrow> ENGINE_EVENT list" where
  "log_contents s = (if length s \<le> MAX_PLAYBACK_EVENTS then s
     else drop MAX_PLAYBACK_EVENTS s @
          drop (length s - MAX_PLAYBACK_EVENTS) (take MAX_PLAYBACK_EVENTS s))"

definition log_rep :: "playback \<Rightarrow> ENGINE_EVENT list \<Rightarrow> bool" where
  "log_rep p s \<longleftrightarrow> pb_open p \<and> pb_recs p = log_contents s \<and> event_cnt p = length s \<and>
     pb_pos p = (if length s \<le> MAX_PLAYBACK_EVENTS then length s else length s - MAX_PLAYBACK_EVENTS) \<and>
     \<not> pb_eof p"

lemma log_rep_step:
  assumes rep: "log_rep p s"
  shows "\<exists>p'. playbackRecordEvent True now e p = Inr (1, p') \<and> log_rep p' (s @ [e\<lparr>mix_time := now\<rparr>])"
proof -
  let ?M = MAX_PLAYBACK_EVENTS and ?r = "e\<lparr>mix_time := now\<rparr>"
  have M: "0 < ?M" by (simp add: MAX_PLAYBACK_EVENTS_def)
  note r = rep [unfolded log_rep_def]
  consider (lt) "length s < ?M" | (eq) "length s = ?M" | (gt) "length s > ?M" by linarith
  then show ?thesis
  proof cases
    case lt
    then show ?thesis
      using r by (auto simp: playbackRecordEvent_def write_rec_def Let_def log_rep_def log_contents_def)
  next
    case eq
    then have "log_contents (s @ [?r]) = ?r # drop 1 s"
      using M by (simp add: log_contents_def)
    with eq r show ?thesis
      by (auto simp: playbackRecordEvent_def write_rec_def seek_rec_def Let_def log_rep_def log_contents_def)
  next
    case gt
    have "drop (Suc (length s - ?M)) (drop ?M s @ drop (length s - ?M) (take ?M s)) =
        drop (Suc (length s) - ?M) (take ?M s)"
      using gt by (simp add: Suc_diff_le)
    then have "take (length s - ?M) (log_contents s) @ [?r] @ drop (Suc (length s - ?M)) (log_contents s) =
        log_contents (s @ [?r])"
      using gt by (simp add: log_contents_def)
    with gt r show ?thesis
      by (auto simp: playbackRecordEvent_def write_rec_def Let_def log_rep_def)
  qed
qed

lemma record_all_log:
  assumes "log_rep p []"
  shows "\<exists>p'. record_all xs p = Inr p' \<and> log_rep p' (stamped xs)"
  using assms
proof (induction xs rule: rev_induct)
  case Nil
  then show ?case by (simp add: stamped_def)
next
  case (snoc x xs)
  obtain t e where x: "x = (t, e)" by (cases x)
  from snoc obtain p1 where p1: "record_all xs p = Inr p1" "log_rep p1 (stamped xs)" by blast
  from log_rep_step [OF p1(2), of t e] obtain p2 where
    "playbackRecordEvent True t e p1 = Inr (1, p2)" "log_rep p2 (stamped xs @ [e\<lparr>mix_time := t\<rparr>])" by blast
  with p1(1) show ?case by (auto simp: record_all_append x)
qed

lemma init_log:
  "\<exists>p. playbackFileInit True (Some c) now (playback_static\<lparr>pb_mode := RECORD_MODE\<rparr>) = Inr (Some 1, p) \<and>
     log_rep p []"
  by (simp add: playbackFileInit_def playbackSetMode_def playback_static_def log_rep_def log_contents_def
      Let_def)

section \<open>The oldest event\<close>

abbreviation secs :: "ENGINE_EVENT \<Rightarrow> real" where
  "secs e \<equiv> TP_IN_FP_SECS (mix_time e)"

lemma first_offset_loop_eq:
  assumes "\<not> pb_eof p" and "pb_pos p \<le> length (pb_recs p)"
    and "pb_pos p < length (pb_recs p) \<or> (\<exists>c. cur = Some c \<and> \<not> secs c < secs f)"
  shows "\<exists>p'. first_offset_loop (Some f) cur i p =
    Some (Inr (let ys = drop (pb_pos p) (pb_recs p); m = length (takeWhile (\<lambda>e. \<not> secs e < secs f) ys)
               in if m < length ys then record_offset (pb_pos p + m) else i, p'))"
  using assms
proof (induction "length (pb_recs p) - pb_pos p" arbitrary: p cur)
  case 0
  then obtain c where c: "cur = Some c" "\<not> secs c < secs f" by auto
  have r: "read_rec p = (None, p\<lparr>pb_eof := True\<rparr>)" using "0.hyps" "0.prems" by (simp add: read_rec_def)
  have "first_offset_loop (Some f) cur i (p\<lparr>pb_eof := True\<rparr>) = Some (Inr (i, p\<lparr>pb_eof := True\<rparr>))"
    by (subst first_offset_loop.simps) simp
  then have "first_offset_loop (Some f) cur i p = Some (Inr (i, p\<lparr>pb_eof := True\<rparr>))"
    using "0.prems"(1) c by (subst first_offset_loop.simps) (simp add: r)
  then show ?case using "0.hyps" "0.prems" by auto
next
  case (Suc n)
  let ?e = "pb_recs p ! pb_pos p" and ?p1 = "p\<lparr>pb_pos := Suc (pb_pos p)\<rparr>"
  have lt: "pb_pos p < length (pb_recs p)" using Suc.hyps(2) by linarith
  have r: "read_rec p = (Some ?e, ?p1)" using lt by (simp add: read_rec_def)
  have dr: "drop (pb_pos p) (pb_recs p) = ?e # drop (Suc (pb_pos p)) (pb_recs p)"
    using lt by (simp add: Cons_nth_drop_Suc)
  show ?case
  proof (cases "secs ?e < secs f")
    case True
    then have "first_offset_loop (Some f) cur i p = Some (Inr (record_offset (pb_pos p), ?p1))"
      using Suc.prems(1) by (subst first_offset_loop.simps)
        (simp add: r record_offset_def algebra_simps)
    with True show ?thesis unfolding dr by simp
  next
    case False
    then have step: "first_offset_loop (Some f) cur i p = first_offset_loop (Some f) (Some ?e) i ?p1"
      using Suc.prems(1) by (subst first_offset_loop.simps) (simp add: r)
    have "\<exists>p'. first_offset_loop (Some f) (Some ?e) i ?p1 =
        Some (Inr (let ys = drop (pb_pos ?p1) (pb_recs ?p1);
                       m = length (takeWhile (\<lambda>e. \<not> secs e < secs f) ys)
                   in if m < length ys then record_offset (pb_pos ?p1 + m) else i, p'))"
      using Suc.hyps(2) Suc.prems(1) lt False by (intro Suc.hyps(1)) auto
    with False step show ?thesis unfolding dr by (auto simp: Let_def)
  qed
qed

lemma find_first_offset:
  assumes "pb_open p" and "\<not> pb_eof p" and "pb_pos p = 0" and "pb_recs p = f # ys" and "ys \<noteq> []"
  shows "\<exists>p'. playbackFindFirstOffset p =
    Inr (let m = length (takeWhile (\<lambda>e. \<not> secs e < secs f) ys)
         in if m < length ys then record_offset (Suc m) else record_offset 0, p')"
proof -
  let ?p = "p\<lparr>pb_pos := Suc 0\<rparr>"
  have "read_rec p = (Some f, ?p)" using assms by (simp add: read_rec_def)
  then show ?thesis
    using first_offset_loop_eq [of ?p None f "record_offset 0"] assms
    by (auto simp: playbackFindFirstOffset_def Let_def)
qed


section \<open>Properties\<close>

text \<open>The recorder right after the log file was created.\<close>

definition fresh_log :: playback where
  "fresh_log =
     (case playbackFileInit True (Some (None, [])) zero_time (playback_static\<lparr>pb_mode := RECORD_MODE\<rparr>) of
        Inr (r, p) \<Rightarrow> p | Inl e \<Rightarrow> playback_static)"

lemma fresh_log_rep: "log_rep fresh_log []"
  using init_log [of "(None, [])" zero_time] by (auto simp: fresh_log_def)

lemma length_log_contents: "length (log_contents s) = max (min (length s) 3200) (length s - 3200)"
  by (auto simp: log_contents_def MAX_PLAYBACK_EVENTS_def)

text \<open>
  C26.  Log contents.  After any sequence of recorded events the log holds, in file order, all of
  them as long as there are at most 3200; beyond that, the events from the 3201st on followed by
  the old ones not yet overwritten.  So the file is no ring of at most 3200 events, as the manual has it: its length is
  \<open>max (min n 3200) (n - 3200)\<close>, which grows without bound past 6400 events.
\<close>

theorem playback_log_contents:
  "\<exists>p. record_all xs fresh_log = Inr p \<and> event_cnt p = length xs \<and>
       pb_recs p = log_contents (stamped xs) \<and>
       length (pb_recs p) = max (min (length xs) 3200) (length xs - 3200)"
  using record_all_log [OF fresh_log_rep, of xs] by (auto simp: log_rep_def length_log_contents)

lemma takeWhile_none: "(\<forall>x\<in>set xs. P x) \<Longrightarrow> \<not> P y \<Longrightarrow> takeWhile P (xs @ y # zs) = xs"
  by (induction xs) auto

lemma log_oldest:
  assumes mono: "\<And>i j. i < j \<Longrightarrow> j < length s \<Longrightarrow> secs (s ! i) < secs (s ! j)"
    and len: "2 \<le> length s" "length s < 6400"
  shows "\<exists>f ys. log_contents s = f # ys \<and> ys \<noteq> [] \<and>
    (let m = length (takeWhile (\<lambda>e. \<not> secs e < secs f) ys);
         k = (if m < length ys then Suc m else 0)
     in k = length s - 3200 \<and> k < length (log_contents s) \<and> log_contents s ! k = s ! k)"
proof (cases "length s \<le> 3200")
  case True
  then have c: "log_contents s = s" by (simp add: log_contents_def MAX_PLAYBACK_EVENTS_def)
  obtain f ys where s: "s = f # ys" "ys \<noteq> []" using len(1) by (cases s) (auto simp: Suc_le_length_iff)
  have "\<forall>e\<in>set ys. \<not> secs e < secs f"
    using mono [of 0 "Suc _"] s by (fastforce simp: in_set_conv_nth)
  then have "takeWhile (\<lambda>e. \<not> secs e < secs f) ys = ys" by (simp add: takeWhile_eq_all_conv)
  then have "length (takeWhile (\<lambda>e. \<not> secs e < secs f) ys) = length ys" by (simp only:)
  then show ?thesis using c s True by (intro exI [of _ f] exI [of _ ys]) (simp add: Let_def)
next
  case False
  let ?n = "length s"
  define B where "B = drop (Suc (?n - 3200)) (take 3200 s)"
  have c: "log_contents s = drop 3200 s @ drop (?n - 3200) (take 3200 s)"
    using False by (simp add: log_contents_def MAX_PLAYBACK_EVENTS_def)
  have B: "drop (?n - 3200) (take 3200 s) = s ! (?n - 3200) # B"
    using False len(2) by (simp add: B_def Cons_nth_drop_Suc [symmetric])
  have A: "drop 3200 s = s ! 3200 # drop 3201 s"
    using False by (simp add: Cons_nth_drop_Suc [symmetric])
  have "\<forall>e\<in>set (drop 3201 s). \<not> secs e < secs (s ! 3200)"
  proof
    fix e assume "e \<in> set (drop 3201 s)"
    then obtain i where "i < ?n - 3201" "e = s ! (3201 + i)" by (auto simp: in_set_conv_nth)
    moreover from this(1) have "3201 + i < ?n" by linarith
    ultimately show "\<not> secs e < secs (s ! 3200)" using mono [of 3200 "3201 + i"] by simp
  qed
  moreover have "secs (s ! (?n - 3200)) < secs (s ! 3200)" using mono False len(2) by simp
  ultimately have tw: "takeWhile (\<lambda>e. \<not> secs e < secs (s ! 3200)) (drop 3201 s @ s ! (?n - 3200) # B) =
      drop 3201 s" by (intro takeWhile_none) auto
  have len': "Suc (?n - 3201) = ?n - 3200" "length (drop 3200 s) = ?n - 3200" using False by simp_all
  then have "(drop 3200 s @ s ! (?n - 3200) # B) ! (?n - 3200) = s ! (?n - 3200)"
    by (metis nth_append_length)
  then show ?thesis
    unfolding c B using tw len'
    by (intro exI [of _ "s ! 3200"] exI [of _ "drop 3201 s @ s ! (?n - 3200) # B"])
      (simp add: A Let_def)
qed

text \<open>
  A log of exactly one event: the search compares it with a record that was never read.
\<close>

lemma single_event_uninit:
  assumes "pb_open p" and "\<not> pb_eof p" and "pb_pos p = 0" and "pb_recs p = [f]"
  shows "playbackFindFirstOffset p = Inl UninitRead"
proof -
  let ?p = "p\<lparr>pb_pos := Suc 0\<rparr>"
  have "read_rec p = (Some f, ?p)" "read_rec ?p = (None, ?p\<lparr>pb_eof := True\<rparr>)"
    using assms by (simp_all add: read_rec_def)
  moreover from this(2) have "first_offset_loop (Some f) None (record_offset 0) ?p = Some (Inl UninitRead)"
    using assms by (subst first_offset_loop.simps) simp
  ultimately show ?thesis using assms by (simp add: playbackFindFirstOffset_def)
qed

text \<open>
  C27.  Search for the oldest event.  A log of one to 6399 events, each with a later time stamp than
  the one before: with one event the search compares it with a record that was never read; with more
  it returns the offset of the oldest event that is still in the file, which is the first record
  while there are at most 3200 events, and after that the record with the number of events beyond 3200
  in front of it, holding the event with that number.
\<close>

theorem playback_finds_oldest:
  assumes "\<And>i j. i < j \<Longrightarrow> j < length xs \<Longrightarrow> TP_IN_FP_SECS (fst (xs ! i)) < TP_IN_FP_SECS (fst (xs ! j))"
    and "1 \<le> length xs" and "length xs < 6400"
  shows "\<exists>p. record_all xs fresh_log = Inr p \<and>
    (if length xs = 1 then playbackFindFirstOffset (seek_rec 0 p) = Inl UninitRead
     else \<exists>q. playbackFindFirstOffset (seek_rec 0 p) = Inr (record_offset (length xs - 3200), q) \<and>
       length xs - 3200 < length (pb_recs p) \<and>
       pb_recs p ! (length xs - 3200) = stamped xs ! (length xs - 3200))"
proof -
  obtain p where p: "record_all xs fresh_log = Inr p" "log_rep p (stamped xs)"
    using record_all_log [OF fresh_log_rep] by blast
  have sk: "pb_open (seek_rec 0 p)" "\<not> pb_eof (seek_rec 0 p)" "pb_pos (seek_rec 0 p) = 0"
    "pb_recs (seek_rec 0 p) = log_contents (stamped xs)" using p(2) by (simp_all add: log_rep_def seek_rec_def)
  show ?thesis
  proof (cases "length xs = 1")
    case True
    then obtain f where "stamped xs = [f]" by (auto simp: stamped_def length_Suc_conv)
    then have "pb_recs (seek_rec 0 p) = [f]" using sk(4) by (simp add: log_contents_def MAX_PLAYBACK_EVENTS_def)
    with single_event_uninit [OF sk(1-3)] p(1) True show ?thesis by simp
  next
    case False
    have "secs (stamped xs ! i) < secs (stamped xs ! j)" if "i < j" "j < length (stamped xs)" for i j
      using assms(1) [of i j] that by (simp add: stamped_def split_beta)
    moreover have "2 \<le> length (stamped xs)" "length (stamped xs) < 6400" using assms(2,3) False by simp_all
    ultimately obtain f ys where fy: "log_contents (stamped xs) = f # ys" "ys \<noteq> []"
      "let m = length (takeWhile (\<lambda>e. \<not> secs e < secs f) ys); k = (if m < length ys then Suc m else 0)
       in k = length (stamped xs) - 3200 \<and> k < length (log_contents (stamped xs)) \<and>
          log_contents (stamped xs) ! k = stamped xs ! k"
      using log_oldest [of "stamped xs"] by blast
    from find_first_offset [OF sk(1-3) sk(4) [unfolded fy(1)] fy(2)] obtain q where
      "playbackFindFirstOffset (seek_rec 0 p) =
        Inr (record_offset (if length (takeWhile (\<lambda>e. \<not> secs e < secs f) ys) < length ys
                            then Suc (length (takeWhile (\<lambda>e. \<not> secs e < secs f) ys)) else 0), q)"
      by (auto simp: Let_def split: if_splits)
    moreover have "pb_recs p = log_contents (stamped xs)" using p(2) by (simp add: log_rep_def)
    ultimately show ?thesis using p(1) fy(3) False by (auto simp: Let_def simp del: One_nat_def)
  qed
qed

text \<open>A log of 3205 events, one a second: the search finds the sixth record.\<close>

definition ticks :: "(timeval \<times> ENGINE_EVENT) list" where
  "ticks = map (\<lambda>i. (\<lparr>tv_sec = int i, tv_usec = 0\<rparr>, engineEngineEventCreate)) [0..<3205]"

theorem playback_finds_oldest_witness:
  "\<exists>p q. record_all ticks fresh_log = Inr p \<and>
    playbackFindFirstOffset (seek_rec 0 p) = Inr (record_offset 5, q) \<and>
    pb_recs p ! 5 = engineEngineEventCreate\<lparr>mix_time := \<lparr>tv_sec = 5, tv_usec = 0\<rparr>\<rparr>"
proof -
  have "i < j \<Longrightarrow> j < length ticks \<Longrightarrow> TP_IN_FP_SECS (fst (ticks ! i)) < TP_IN_FP_SECS (fst (ticks ! j))" for i j
    by (simp add: ticks_def TP_IN_FP_SECS_def)
  moreover have "length ticks = 3205" by (simp add: ticks_def)
  moreover have "stamped ticks ! 5 = engineEngineEventCreate\<lparr>mix_time := \<lparr>tv_sec = 5, tv_usec = 0\<rparr>\<rparr>"
    by (simp add: stamped_def ticks_def)
  ultimately show ?thesis using playback_finds_oldest [of ticks] by auto
qed

end
