(* ===== verification/Engine.thy ===== *)
theory Engine
  imports Mixer_Chunk Engine_Queue Playback
begin

text \<open>
  engine.c: initialisation, the handler of one incoming event and shutdown.  \<open>engineIO\<close> either
  starts the event on a free channel, or puts it into the mixer queue, or drops it, or adjusts a
  state sound.  Shown: the choice of the channel (the first idle one, round robin), that busy
  channels are never interrupted, what happens when none is idle, and that the invariant of the
  mixer is kept on every path.
\<close>

section \<open>State\<close>

abbreviation (input) EVENT_QUEUE_ENTRIES :: nat where "EVENT_QUEUE_ENTRIES \<equiv> 64"

record engine =
  en_w :: world
  en_pb :: playback
  en_q :: engine_queue
  en_lastc :: int

section \<open>Initialisation\<close>

definition engineInit :: "bool \<Rightarrow> nat \<Rightarrow> nat \<Rightarrow> engine \<Rightarrow> engine result" where
  "engineInit alloc_ok countEbuf countSbuf s =
     bindE (mixerInit countEbuf countSbuf (en_w s)) (\<lambda>w.
     let w1 = w\<lparr>sched := Ptr (replicate countEbuf zero_sched)\<rparr>;
         (rc, tab) = engineInitSoundTable alloc_ok;
         (rc2, q) = engineQueueInit True True (en_q s) in
     Inr (s\<lparr>en_w := w1\<lparr>stable := tab, mqueue := mixerQueueInit EVENT_QUEUE_ENTRIES (mqueue w1),
                       tlock := False\<rparr>, en_q := q\<rparr>))"

section \<open>Choosing a channel\<close>

text \<open>
  The loop over the channels.  The two conditions on \<open>bestc = 0\<close>, meant to find the channel with
  the lowest priority, are kept; \<open>bestc\<close> is \<open>-1\<close> whenever they are reached.
\<close>

fun channel_loop :: "int \<Rightarrow> nat list \<Rightarrow> int \<Rightarrow> world \<Rightarrow> (int \<times> world) result" where
  "channel_loop lastc [] bestc w = Inr (bestc, w)"
| "channel_loop lastc (ind # inds) bestc w =
     (let c = uint ((word_of_int lastc + of_nat ind) mod no_ebuffs w) in
      bindE (pa_get (sched w) c) (\<lambda>sc.
      if startt sc = 0 then Inr (c, w)
      else
        let (tp, w1) = gettimeofday w in
        if bestc = 0
        then bindE (pa_get (sched w) bestc) (\<lambda>sb.
             if priorit sb < priorit sc then channel_loop lastc inds c w1
             else if priorit sb = priorit sc \<and> startt sb > startt sc
             then channel_loop lastc inds c w1
             else channel_loop lastc inds bestc w1)
        else channel_loop lastc inds bestc w1))"

section \<open>The handler\<close>

fun as_state_entry :: "entry_data \<Rightarrow> STATE_ENTRY result" where
  "as_state_entry (StateData st) = Inr st"
| "as_state_entry (EventData ev) = Inl UninitRead"
| "as_state_entry NoData = Inl NullDeref"

definition sound_data :: "EVENT \<Rightarrow> world \<Rightarrow> entry_data result" where
  "sound_data ev w = (case e_sound ev of None \<Rightarrow> Inl NullDeref
     | Some name \<Rightarrow> engineSoundTableDataRetrieve name (stable w))"

text \<open>Recording the event, when playback is on and in record mode; a failure is only logged.\<close>

definition record_incoming :: "bool \<Rightarrow> EVENT \<Rightarrow> engine \<Rightarrow> engine result" where
  "record_incoming io_ok ev s =
     (if fst (playbackModeOn None (en_pb s)) \<noteq> 0 \<and> fst (playbackSetMode None (en_pb s)) = RECORD_MODE
      then let (now, w) = gettimeofday (en_w s) in
           bindE (playbackRecordEvent io_ok now (engineEngineEventCreate\<lparr>event := ev\<rparr>) (en_pb s))
             (\<lambda>(r, p). Inr (s\<lparr>en_w := w, en_pb := p\<rparr>))
      else Inr s)"

text \<open>The event is queued or, if the queue is full, dropped; its sound string is not freed.\<close>

definition queue_event :: "EVENT \<Rightarrow> world \<Rightarrow> world result" where
  "queue_event ev w =
     (if mixerQueueFull (mqueue w) then Inr w
      else let (tp, w1) = gettimeofday w in
           bindE (mixerEnqueue (engineEngineEventCreate\<lparr>event := ev, mix_time := tp\<rparr>) (mqueue w1))
             (\<lambda>q. Inr (w1\<lparr>mqueue := q\<rparr>)))"

text \<open>The event is mixed in on channel \<open>bestc\<close>.\<close>

definition start_on :: "int \<Rightarrow> EVENT \<Rightarrow> world \<Rightarrow> world result" where
  "start_on bestc ev w =
     bindE (pa_get (sched w) bestc) (\<lambda>sb.
     bindE (if startt sb \<noteq> 0 then mixerInterrupt (nat bestc) w else Inr w) (\<lambda>w1.
     bindE (sound_data ev w1) (\<lambda>dat.
     bindE (as_event_entry dat) (\<lambda>entry.
     let (r, w2) = rand w1 in
     bindE (to_int32 (real (unat (snd_cnt entry)) * of_int r / (of_int RAND_MAX + 1))) (\<lambda>next_snd.
     bindE (aget (snds entry) next_snd) (\<lambda>smp.
     bindE (aget (lens entry) next_snd) (\<lambda>len.
     bindE (mixerAddEvent smp len (real (unat (e_loc ev)) / 255) (e_flags ev) (nat bestc) w2) (\<lambda>(rc, w3).
     let (tp, w4) = gettimeofday w3 in
     bindE (threadLock (tlock w4)) (\<lambda>l.
     bindE (pa_get (sched w4) bestc) (\<lambda>sc.
     bindE (pa_set (sched w4) bestc
              (sc\<lparr>startt := TP_IN_FP_SECS tp, priorit := int (unat (e_prior ev))\<rparr>)) (\<lambda>ss.
     Inr (w4\<lparr>sched := ss, tlock := threadUnlock l\<rparr>))))))))))))"

text \<open>A state event sets the fade time, unless its dither is 255, and the state's parameters.\<close>

definition set_state :: "EVENT \<Rightarrow> world \<Rightarrow> world result" where
  "set_state ev w =
     bindE (sound_data ev w) (\<lambda>dat.
     bindE (as_state_entry dat) (\<lambda>entry.
     let j = unat (word_of_int (mixer_index entry) :: 32 word) in
     bindE (mixerGetFadeTime j w) (\<lambda>fade.
     bindE (if e_dither ev \<noteq> 255
            then mixerSetFadeTime j (real (unat (e_dither ev)) / (255 / MAX_FADE_TIME)) w
            else Inr (MIXER_SUCCESS, w)) (\<lambda>(rc, w1).
     mixerSetStateSnd (int j) (real (unat (e_vol ev)) / 255) (real (unat (e_loc ev)) / 255)
       (e_flags ev) w1))))"

text \<open>The second component tells whether the handler frees the sound string of the event.\<close>

definition engineIO :: "bool \<Rightarrow> EVENT \<Rightarrow> engine \<Rightarrow> (engine \<times> bool) result" where
  "engineIO io_ok ev s =
     bindE (record_incoming io_ok ev s) (\<lambda>s1.
     if e_type ev = event_type_code EVENT_T
     then bindE (channel_loop (en_lastc s1) [0..<unat (no_ebuffs (en_w s1))] (- 1) (en_w s1)) (\<lambda>(bestc, w).
          if bestc = - 1
          then bindE (queue_event ev w) (\<lambda>w1. Inr (s1\<lparr>en_w := w1\<rparr>, False))
          else bindE (start_on bestc ev w) (\<lambda>w1.
               Inr (s1\<lparr>en_w := w1,
                       en_lastc := uint ((word_of_int bestc + 1) mod no_ebuffs w1)\<rparr>, True)))
     else if e_type ev = event_type_code STATE_T
     then bindE (set_state ev (en_w s1)) (\<lambda>w. Inr (s1\<lparr>en_w := w\<rparr>, True))
     else Inr (s1, True))"

text \<open>Shutdown frees the scheduler, the table and both queues.\<close>

definition engineShutdown :: "engine \<Rightarrow> engine result" where
  "engineShutdown s =
     bindE (pfree (sched (en_w s))) (\<lambda>sc.
     bindE (engineSoundTableDestroy (stable (en_w s))) (\<lambda>(fs, tab).
     bindE (mixerQueueDestroy (mqueue (en_w s))) (\<lambda>(es, q).
     Inr (s\<lparr>en_w := (en_w s)\<lparr>sched := sc, stable := tab, mqueue := q\<rparr>,
            en_q := engineQueueDestroy True (en_q s)\<rparr>))))"

section \<open>The channel that is chosen\<close>

text \<open>The first idle channel of \<open>n\<close>, going round from channel \<open>l\<close>.\<close>

definition round_robin :: "EVENT_BUF list \<Rightarrow> nat \<Rightarrow> nat option" where
  "round_robin bs l = List.find (\<lambda>c. eb_snd_buf (bs ! c) = None) (map (\<lambda>i. (l + i) mod length bs) [0..<length bs])"

lemma round_robin_Some:
  "round_robin bs l = Some c \<Longrightarrow> c < length bs \<and> eb_snd_buf (bs ! c) = None"
  by (auto simp: round_robin_def find_Some_iff intro!: mod_less_divisor)

lemma round_robin_None:
  assumes "round_robin bs l = None" and "c < length bs" and "l < length bs"
  shows "eb_snd_buf (bs ! c) \<noteq> None"
proof -
  let ?n = "length bs" and ?i = "(c + length bs - l) mod length bs"
  have "(l + ?i) mod ?n = (l + (c + ?n - l)) mod ?n" by (simp add: mod_add_right_eq)
  also have "\<dots> = c" using assms(2,3) by simp
  finally have "(l + ?i) mod ?n = c" .
  moreover have "?i < ?n" using assms(2) by (intro mod_less_divisor) linarith
  ultimately have "c \<in> set (map (\<lambda>i. (l + i) mod ?n) [0..<?n])" by force
  moreover have "\<forall>x\<in>set (map (\<lambda>i. (l + i) mod ?n) [0..<?n]). eb_snd_buf (bs ! x) \<noteq> None"
    using assms(1) unfolding round_robin_def find_None_iff by metis
  ultimately show ?thesis by (rule bspec [rotated])
qed

definition later :: "nat \<Rightarrow> world \<Rightarrow> world" where
  "later k w = w\<lparr>clock_in := \<lambda>n. clock_in w (k + n)\<rparr>"

lemma later_0 [simp]: "later 0 w = w"
  by (simp add: later_def)

lemma chan_index:
  fixes n :: "32 word"
  assumes "l < unat n" and "i < unat n" and "unat n \<le> 2 ^ 31"
  shows "uint ((word_of_int (int l) + of_nat i) mod n) = int ((l + i) mod unat n)"
proof -
  have "unat (of_nat (l + i) :: 32 word) = l + i" using assms by (intro unat_of_nat32) simp
  then have "unat ((of_nat (l + i) :: 32 word) mod n) = (l + i) mod unat n" by (simp add: unat_mod_distrib)
  then have "uint ((of_nat (l + i) :: 32 word) mod n) = int ((l + i) mod unat n)" by (simp only: uint_nat)
  then show ?thesis by simp
qed


text \<open>The loop finds it, reading the clock once for every busy channel it passes.\<close>

lemma channel_loop_eq:
  assumes inv: "ev_inv w" and l: "l < length (evs w)" and small: "length (evs w) \<le> 2 ^ 31"
    and inds: "set inds \<subseteq> {..<length (evs w)}"
  shows "\<exists>k. channel_loop (int l) inds (- 1) (later k0 w) =
    Inr (case List.find (\<lambda>c. eb_snd_buf (evs w ! c) = None) (map (\<lambda>i. (l + i) mod length (evs w)) inds) of
           Some c \<Rightarrow> int c | None \<Rightarrow> - 1, later k w)"
  using inds
proof (induction inds arbitrary: k0)
  case (Cons i inds)
  let ?n = "length (evs w)" and ?c = "(l + i) mod length (evs w)"
  note v = ev_invD [OF inv] and n = chan_repD(3) [OF ev_invD(1) [OF inv]]
  have i: "i < ?n" using Cons.prems by simp
  then have c: "?c < ?n" by (intro mod_less_divisor) linarith
  have ci: "uint ((word_of_int (int l) + of_nat i) mod no_ebuffs (later k0 w)) = int ?c"
    using chan_index [of l "no_ebuffs w" i] l i small n by (simp add: later_def)
  have sc: "sched (later k0 w) = Ptr (scheds w)" using v(3) by (simp add: later_def)
  have idle: "startt (scheds w ! ?c) = 0 \<longleftrightarrow> eb_snd_buf (evs w ! ?c) = None" using v(6) [OF c] .
  have nxt: "(later k0 w)\<lparr>clock_in := \<lambda>n. clock_in (later k0 w) (Suc n)\<rparr> = later (Suc k0) w"
    by (simp add: later_def)
  obtain k where "channel_loop (int l) inds (- 1) (later (Suc k0) w) =
    Inr (case List.find (\<lambda>c. eb_snd_buf (evs w ! c) = None) (map (\<lambda>i. (l + i) mod ?n) inds) of
           Some c \<Rightarrow> int c | None \<Rightarrow> - 1, later k w)"
    using Cons.IH [of "Suc k0"] Cons.prems by auto
  then show ?case
    using ci sc idle c v(4) nxt
    by (auto simp: Let_def gettimeofday_def simp del: of_nat_mod zmod_int)
qed auto

lemma channel_choice:
  assumes "ev_inv w" and "l < length (evs w)" and "length (evs w) \<le> 2 ^ 31"
  shows "\<exists>k. channel_loop (int l) [0..<unat (no_ebuffs w)] (- 1) w =
    Inr (case round_robin (evs w) l of Some c \<Rightarrow> int c | None \<Rightarrow> - 1, later k w)"
proof -
  have "set [0..<length (evs w)] \<subseteq> {..<length (evs w)}" by auto
  from channel_loop_eq [OF assms this, of 0] show ?thesis
    using chan_repD(3) [OF ev_invD(1) [OF assms(1)]] by (simp add: round_robin_def)
qed

lemma later_inv: "ev_inv w \<Longrightarrow> ev_inv (later k w)"
  by (simp add: later_def ev_inv_def chan_rep_def part_defs inputs_ok_def)

lemma later_parts [simp]:
  "evs (later k w) = evs w" "muls (later k w) = muls w" "scheds (later k w) = scheds w"
  "mqueue (later k w) = mqueue w" "stable (later k w) = stable w" "out_buf (later k w) = out_buf w"
  "same_rest (later k w) w' \<longleftrightarrow> same_rest w w'" "same_rest w (later k w)"
  by (simp_all add: later_def part_defs same_rest_def)


section \<open>Queueing and starting an event\<close>

definition stamp :: "EVENT \<Rightarrow> timeval \<Rightarrow> ENGINE_EVENT" where
  "stamp ev tp = engineEngineEventCreate\<lparr>event := ev, mix_time := tp\<rparr>"

lemma queue_event_ok:
  assumes inv: "ev_inv w" and play: "event_playable (stable w) ev"
  shows "if mixerQueueFull (mqueue w) then queue_event ev w = Inr w
    else \<exists>w'. queue_event ev w = Inr w' \<and> ev_inv w' \<and> evs w' = evs w \<and> muls w' = muls w \<and>
           out_buf w' = out_buf w \<and> same_rest w w' \<and>
           mq_bag (mqueue w') = add_mset (stamp ev (clock_in w 0)) (mq_bag (mqueue w))"
proof (cases "mixerQueueFull (mqueue w)")
  case False
  note v = ev_invD [OF inv]
  have "mq_top (mqueue w) < mq_queueSize (mqueue w)"
    using v(7) False by (auto simp: mq_wf_def filled_def mixerQueueFull_def)
  with mixerEnqueue_ok [OF v(7)] obtain q where
    q: "mixerEnqueue (stamp ev (clock_in w 0)) (mqueue w) = Inr q" "mq_wf q"
    "mq_bag q = add_mset (stamp ev (clock_in w 0)) (mq_bag (mqueue w))" by blast
  let ?w = "(later 1 w)\<lparr>mqueue := q\<rparr>"
  have "queue_event ev w = Inr ?w"
    using False q(1) by (simp add: queue_event_def gettimeofday_def Let_def stamp_def later_def)
  moreover have "ev_inv ?w"
    using later_inv [OF inv, of 1] q(2,3) play v(8)
    by (auto simp: ev_inv_def chan_rep_def part_defs inputs_ok_def later_def stamp_def)
  ultimately show ?thesis using False q(3)
    by (auto simp: later_def part_defs same_rest_def intro!: exI [of _ ?w])
qed (simp add: queue_event_def)

lemma start_on_ok:
  assumes inv: "ev_inv w" and c: "c < length (evs w)" and free: "eb_snd_buf (evs w ! c) = None"
    and ev: "e_sound ev = Some name" "engineSoundTableRetrieve name (stable w) = Inr (Some ent)"
      "se_type ent = EVENT_T" "se_data ent = EventData e" "entry_ok e"
  shows "\<exists>w' n. start_on (int c) ev w = Inr w' \<and> ev_inv w' \<and> only_chan c w w' \<and> out_buf w' = out_buf w \<and>
     mqueue w' = mqueue w \<and> n < unat (snd_cnt e) \<and>
     evs w' ! c = added (snds e ! n) (lens e ! n) (real (unat (e_loc ev)) / 255) (e_flags ev) (evs w ! c) \<and>
     muls w' ! c = next_share w"
proof -
  note v = ev_invD [OF inv]
  have st0: "startt (scheds w ! c) = 0" using v(6) [OF c] free by simp
  have dat: "sound_data ev w = Inr (EventData e)"
    using ev playable_lookup(1) [OF ev(2-5)] by (simp add: sound_data_def)
  have r: "0 \<le> rand_in w 0" "rand_in w 0 \<le> 2147483647" using v(9) by (simp_all add: inputs_ok_def)
  have cnt: "0 < unat (snd_cnt e)" "unat (snd_cnt e) < 2 ^ 31" using ev(5) by (auto simp: entry_ok_def)
  then have "unat (snd_cnt e) < 2 ^ 32" by simp
  from rand_index [OF cnt(1) this r] obtain n where
    n0: "to_uint (real (unat (snd_cnt e)) * of_int (rand_in w 0) / (2147483647 + 1)) = Inr n"
    "n < unat (snd_cnt e)" by blast
  then have n: "to_int32 (real (unat (snd_cnt e)) * of_int (rand_in w 0) / (of_int 2147483647 + 1)) = Inr (int n)"
    using cnt(2) by (auto simp: to_uint_def to_int32_def split: if_splits)
  obtain d where d: "snds e ! n = Some d" "sample_ok d (lens e ! n)" and
    len: "n < length (snds e)" "n < length (lens e)"
    using ev(5) n0(2) by (auto simp: entry_ok_def entry_wf_def)
  define w2 where "w2 = w\<lparr>rand_in := \<lambda>n. rand_in w (Suc n)\<rparr>"
  have w2: "ev_inv w2" "evs w2 = evs w" "muls w2 = muls w" "scheds w2 = scheds w" "only_chan c w w2"
    "out_buf w2 = out_buf w" "mqueue w2 = mqueue w" "next_share w2 = next_share w"
    using ev_inv_rand [OF inv] by (simp_all add: w2_def part_defs only_chan_def next_share_def)
  obtain w3 where w3: "mixerAddEvent (Some d) (lens e ! n) (real (unat (e_loc ev)) / 255) (e_flags ev) c w2 =
      Inr (MIXER_SUCCESS, w3)" "sched w3 = sched w2" "tlock w3 = tlock w2" "clock_in w3 = clock_in w2"
    "mqueue w3 = mqueue w2"
    "\<And>s f. startt s \<noteq> 0 \<Longrightarrow> \<forall>n. 0 < TP_IN_FP_SECS (f n) \<Longrightarrow>
        let w5 = w3\<lparr>clock_in := f, sched := Ptr ((scheds w2)[c := s]), tlock := False\<rparr>
         in ev_inv w5 \<and> only_chan c w2 w5 \<and> out_buf w5 = out_buf w2 \<and>
            evs w5 ! c = added (Some d) (lens e ! n) (real (unat (e_loc ev)) / 255) (e_flags ev) (evs w2 ! c) \<and>
            muls w5 ! c = next_share w2"
    using start_event [OF w2(1) _ _ d(2) loc_bounds, of c "e_loc ev" "e_flags ev"] c free w2(2) by auto
  let ?s = "(scheds w ! c)\<lparr>startt := TP_IN_FP_SECS (clock_in w 0), priorit := int (unat (e_prior ev))\<rparr>"
  let ?w5 = "w3\<lparr>clock_in := \<lambda>n. clock_in w (Suc n), sched := Ptr ((scheds w2)[c := ?s]), tlock := False\<rparr>"
  have clk: "clock_in w3 = clock_in w" "sched w3 = Ptr (scheds w)" "\<not> tlock w3"
    using w3(2-4) v(3,5) by (simp_all add: w2_def)
  have "0 < TP_IN_FP_SECS (clock_in w n)" for n using v(9) by (simp add: inputs_ok_def)
  then have tp: "TP_IN_FP_SECS (clock_in w 0) \<noteq> 0" "\<forall>n. 0 < TP_IN_FP_SECS (clock_in w (Suc n))"
    by (auto simp: less_le)
  have "start_on (int c) ev w = Inr ?w5"
    using v(3,4) st0 c dat n d len w3(1) clk w2(4)
    by (simp add: start_on_def rand_def gettimeofday_def Let_def w2_def [symmetric])
  moreover have "ev_inv ?w5 \<and> only_chan c w2 ?w5 \<and> out_buf ?w5 = out_buf w2 \<and>
      evs ?w5 ! c = added (Some d) (lens e ! n) (real (unat (e_loc ev)) / 255) (e_flags ev) (evs w ! c) \<and> muls ?w5 ! c = next_share w"
    using w3(6) [of ?s "\<lambda>n. clock_in w (Suc n)"] tp w2(2,8) by (simp add: Let_def)
  moreover have "mqueue ?w5 = mqueue w" using w3(5) w2(7) by simp
  ultimately show ?thesis
    using n0(2) d(1) w2(5,6) only_chan_trans [of c w w2 ?w5] by (intro exI [of _ ?w5] exI [of _ n]) simp
qed


section \<open>Properties\<close>

text \<open>An engine whose mixer is consistent, with playback off.\<close>

definition engine_ok :: "engine \<Rightarrow> bool" where
  "engine_ok s \<longleftrightarrow> ev_inv (en_w s) \<and> length (evs (en_w s)) \<le> 2 ^ 31 \<and> use_playback (en_pb s) = 0 \<and>
     0 \<le> en_lastc s \<and> nat (en_lastc s) < length (evs (en_w s))"

lemma record_incoming_off: "use_playback (en_pb s) = 0 \<Longrightarrow> record_incoming io_ok ev s = Inr s"
  by (simp add: record_incoming_def playbackModeOn_def)

lemma next_lastc:
  fixes n :: "32 word"
  assumes "c < unat n" and "unat n \<le> 2 ^ 31"
  shows "uint ((word_of_int (int c) + 1) mod n) = int (Suc c mod unat n)"
proof -
  have "unat (of_nat (Suc c) :: 32 word) = Suc c" using assms by (intro unat_of_nat32) simp
  then have "unat ((of_nat (Suc c) :: 32 word) mod n) = Suc c mod unat n" by (simp only: unat_mod)
  then have "uint ((of_nat (Suc c) :: 32 word) mod n) = int (Suc c mod unat n)" by (simp only: uint_nat)
  then show ?thesis by (simp add: add.commute)
qed

lemma engineIO_event:
  assumes ok: "engine_ok s" and t: "e_type ev = event_type_code EVENT_T"
    and ev: "e_sound ev = Some name" "engineSoundTableRetrieve name (stable (en_w s)) = Inr (Some ent)"
      "se_type ent = EVENT_T" "se_data ent = EventData e" "entry_ok e"
  shows "case round_robin (evs (en_w s)) (nat (en_lastc s)) of
      Some c \<Rightarrow> \<exists>w n. engineIO io_ok ev s = Inr (s\<lparr>en_w := w,
            en_lastc := int (Suc c mod length (evs (en_w s)))\<rparr>, True) \<and> ev_inv w \<and>
          only_chan c (en_w s) w \<and> mqueue w = mqueue (en_w s) \<and> out_buf w = out_buf (en_w s) \<and>
          n < unat (snd_cnt e) \<and>
          evs w ! c = added (snds e ! n) (lens e ! n) (real (unat (e_loc ev)) / 255) (e_flags ev)
                        (evs (en_w s) ! c) \<and> muls w ! c = next_share (en_w s)
    | None \<Rightarrow> \<exists>w tp. engineIO io_ok ev s = Inr (s\<lparr>en_w := w\<rparr>, False) \<and> ev_inv w \<and>
          evs w = evs (en_w s) \<and> muls w = muls (en_w s) \<and> same_rest (en_w s) w \<and> out_buf w = out_buf (en_w s) \<and>
          mq_bag (mqueue w) = (if mixerQueueFull (mqueue (en_w s)) then mq_bag (mqueue (en_w s))
             else add_mset (stamp ev tp) (mq_bag (mqueue (en_w s))))"
proof -
  let ?w = "en_w s" and ?l = "nat (en_lastc s)"
  have inv: "ev_inv ?w" and l: "?l < length (evs ?w)" "int ?l = en_lastc s"
    and small: "length (evs ?w) \<le> 2 ^ 31" using ok by (simp_all add: engine_ok_def)
  note n = chan_repD(3) [OF ev_invD(1) [OF inv]]
  have rec: "record_incoming io_ok ev s = Inr s"
    using ok by (simp add: engine_ok_def record_incoming_off)
  obtain k where loop: "channel_loop (en_lastc s) [0..<unat (no_ebuffs ?w)] (- 1) ?w =
    Inr (case round_robin (evs ?w) ?l of Some c \<Rightarrow> int c | None \<Rightarrow> - 1, later k ?w)"
    using channel_choice [OF inv l(1) small] l(2) by auto
  have linv: "ev_inv (later k ?w)" using later_inv [OF inv] .
  show ?thesis
  proof (cases "round_robin (evs ?w) ?l")
    case None
    have play: "event_playable (stable (later k ?w)) ev" using ev by (auto simp: event_playable_def)
    have io: "engineIO io_ok ev s = bindE (queue_event ev (later k ?w)) (\<lambda>w1. Inr (s\<lparr>en_w := w1\<rparr>, False))"
      using rec loop None t by (simp add: engineIO_def)
    show ?thesis
    proof (cases "mixerQueueFull (mqueue ?w)")
      case True
      then show ?thesis using queue_event_ok [OF linv play] io None linv by auto
    next
      case False
      then show ?thesis using queue_event_ok [OF linv play] io None
        by auto
    qed
  next
    case (Some c)
    then have c: "c < length (evs ?w)" "eb_snd_buf (evs ?w ! c) = None" by (auto dest: round_robin_Some)
    obtain w n' where w: "start_on (int c) ev (later k ?w) = Inr w" "ev_inv w" "only_chan c (later k ?w) w"
      "mqueue w = mqueue ?w" "out_buf w = out_buf ?w" "n' < unat (snd_cnt e)"
      "evs w ! c = added (snds e ! n') (lens e ! n') (real (unat (e_loc ev)) / 255) (e_flags ev) (evs ?w ! c)"
      "muls w ! c = next_share ?w"
      using start_on_ok [OF linv, of c ev name ent e] c ev by (auto simp: next_share_def)
    have oc: "only_chan c ?w w" using w(3) by (simp add: only_chan_def later_def part_defs)
    then have "no_ebuffs w = no_ebuffs ?w" by (simp add: only_chan_def)
    then have "uint ((word_of_int (int c) + 1) mod no_ebuffs w) = int (Suc c mod length (evs ?w))"
      using next_lastc [of c "no_ebuffs ?w"] c(1) n small by simp
    then have "engineIO io_ok ev s = Inr (s\<lparr>en_w := w, en_lastc := int (Suc c mod length (evs ?w))\<rparr>, True)"
      using rec loop Some t w(1) by (simp add: engineIO_def)
    with w oc Some show ?thesis by auto
  qed
qed

text \<open>
  C3.  Handling an event.  In a consistent engine with playback off, \<open>engineIO\<close> on an event whose
  sound is loaded returns in one of three ways.  If some channel is idle, the event starts, with one of its samples, on the
  first idle channel in round-robin order, the search resumes behind it the next time, no other
  channel changes and the queue is untouched.  If none is idle, no channel changes: the event joins the queue
  with a time stamp, or is dropped when the queue is full.  The invariant is kept in all cases; in
  particular a playing sound is never interrupted, whatever the priorities.
\<close>

theorem engineIO_event_spec:
  assumes "engine_ok s" and "e_type ev = event_type_code EVENT_T" and "e_sound ev = Some name"
    and "engineSoundTableRetrieve name (stable (en_w s)) = Inr (Some ent)"
    and "se_type ent = EVENT_T" and "se_data ent = EventData e" and "entry_ok e"
  shows "\<exists>s' freed. engineIO io_ok ev s = Inr (s', freed) \<and> engine_ok s' \<and>
    (case round_robin (evs (en_w s)) (nat (en_lastc s)) of
       Some c \<Rightarrow> freed \<and> en_lastc s' = int (Suc c mod length (evs (en_w s))) \<and>
         only_chan c (en_w s) (en_w s') \<and> mqueue (en_w s') = mqueue (en_w s) \<and>
         (\<exists>n<unat (snd_cnt e). evs (en_w s') ! c = added (snds e ! n) (lens e ! n)
            (real (unat (e_loc ev)) / 255) (e_flags ev) (evs (en_w s) ! c))
     | None \<Rightarrow> \<not> freed \<and> en_lastc s' = en_lastc s \<and> evs (en_w s') = evs (en_w s) \<and>
         (\<exists>tp. mq_bag (mqueue (en_w s')) =
            (if mixerQueueFull (mqueue (en_w s)) then mq_bag (mqueue (en_w s))
             else add_mset (stamp ev tp) (mq_bag (mqueue (en_w s))))))"
proof (cases "round_robin (evs (en_w s)) (nat (en_lastc s))")
  case None
  with engineIO_event [OF assms, of io_ok] obtain w tp where
    w: "engineIO io_ok ev s = Inr (s\<lparr>en_w := w\<rparr>, False)" "ev_inv w" "evs w = evs (en_w s)"
    "mq_bag (mqueue w) = (if mixerQueueFull (mqueue (en_w s)) then mq_bag (mqueue (en_w s))
       else add_mset (stamp ev tp) (mq_bag (mqueue (en_w s))))" by auto
  then have "engine_ok (s\<lparr>en_w := w\<rparr>)" using assms(1) by (simp add: engine_ok_def)
  with w None show ?thesis by auto
next
  case (Some c)
  with engineIO_event [OF assms, of io_ok] obtain w n where
    w: "engineIO io_ok ev s = Inr (s\<lparr>en_w := w, en_lastc := int (Suc c mod length (evs (en_w s)))\<rparr>, True)"
    "ev_inv w" "only_chan c (en_w s) w" "mqueue w = mqueue (en_w s)" "n < unat (snd_cnt e)"
    "evs w ! c = added (snds e ! n) (lens e ! n) (real (unat (e_loc ev)) / 255) (e_flags ev)
       (evs (en_w s) ! c)" by auto
  have "c < length (evs (en_w s))" using round_robin_Some [OF Some] by simp
  then have "0 < length (evs (en_w s))" by linarith
  then have "engine_ok (s\<lparr>en_w := w, en_lastc := int (Suc c mod length (evs (en_w s)))\<rparr>)"
    using assms(1) w(2,3) by (simp add: engine_ok_def only_chan_def nat_mod_distrib)
  with w Some show ?thesis by auto
qed


definition bell_engine :: engine where
  "bell_engine = \<lparr>en_w = bell_world, en_pb = playback_static, en_q = engine_queue_static, en_lastc = 1\<rparr>"

lemma bell_engine_ok: "engine_ok bell_engine"
proof -
  have "length (evs bell_world) = 2"
    by (simp add: bell_world_def part_defs idle_world_def)
  then show ?thesis
    using bell_world_inv by (simp add: engine_ok_def bell_engine_def playback_static_def)
qed

lemma bell_lookup:
  "engineSoundTableRetrieve ''ab'' (stable (en_w bell_engine)) = Inr (Some bell_entry)"
  "se_type bell_entry = EVENT_T"
  "se_data bell_entry = EventData \<lparr>snds = [Some [5, 6]], lens = [2], snd_cnt = 1\<rparr>"
  "entry_ok \<lparr>snds = [Some [5, 6]], lens = [2], snd_cnt = 1\<rparr>"
proof -
  have wf: "table_wf (stable bell_world)" by (simp add: table_wf_def bell_world_def)
  have "bucket (slot ''ab'') (stable bell_world) = [bell_entry]"
    by (simp add: bucket_def bell_world_def hash_eval)
  then show "engineSoundTableRetrieve ''ab'' (stable (en_w bell_engine)) = Inr (Some bell_entry)"
    by (simp add: bell_engine_def retrieve_eq [OF wf] hash_eval) (simp add: bell_entry_def)
  show "se_type bell_entry = EVENT_T"
    "se_data bell_entry = EventData \<lparr>snds = [Some [5, 6]], lens = [2], snd_cnt = 1\<rparr>"
    by (simp_all add: bell_entry_def)
  show "entry_ok \<lparr>snds = [Some [5, 6]], lens = [2], snd_cnt = 1\<rparr>"
    by (simp add: entry_ok_def entry_wf_def sample_ok_def)
qed

theorem engineIO_event_spec_witness:
  "\<exists>s'. engineIO True (zero_event\<lparr>e_sound := Some ''ab''\<rparr>) bell_engine = Inr (s', True) \<and> engine_ok s' \<and>
     eb_snd_buf (evs (en_w s') ! 1) = Some [5, 6] \<and> en_lastc s' = 0"
proof -
  have parts: "evs bell_world = [zero_event_buf, zero_event_buf]"
    by (simp add: bell_world_def part_defs idle_world_def)
  have rr: "round_robin (evs (en_w bell_engine)) (nat (en_lastc bell_engine)) = Some 1"
    by (simp add: round_robin_def bell_engine_def parts zero_event_buf_def upt_rec)
  have sp: "e_type (zero_event\<lparr>e_sound := Some ''ab''\<rparr>) = event_type_code EVENT_T"
    "e_sound (zero_event\<lparr>e_sound := Some ''ab''\<rparr>) = Some ''ab''"
    by (simp_all add: zero_event_def event_type_code_def)
  show ?thesis
    using engineIO_event_spec [OF bell_engine_ok sp bell_lookup, of True] rr
    by (auto simp: bell_engine_def parts added_def)
qed

lemma engineIO_state:
  assumes "use_playback (en_pb s) = 0" and "e_type ev = event_type_code STATE_T"
    and "e_sound ev = Some name" and "engineSoundTableRetrieve name (stable (en_w s)) = Inr (Some ent)"
    and "se_data ent = StateData \<lparr>mixer_index = int j\<rparr>" and "j < length bs"
    and "sbuffs (en_w s) = Ptr bs" and "lin_fade (en_w s) = Ptr fs"
    and "length fs = length bs" and "unat (no_sbuffs (en_w s)) = length bs"
  shows "engineIO io_ok ev s = Inr (s\<lparr>en_w := (en_w s)
      \<lparr>lin_fade := Ptr (if e_dither ev = 255 then fs
          else fs[j := (fs ! j)\<lparr>fade_time := real (unat (e_dither ev)) * 2 / 255\<rparr>]),
       sbuffs := Ptr (bs[j := (bs ! j)\<lparr>sb_vol := real (unat (e_vol ev)) / 255,
          sb_stereo_pos := real (unat (e_loc ev)) / 255, sb_filter_flag := e_flags ev\<rparr>])\<rparr>\<rparr>, True)"
proof -
  have "j < 2 ^ 32" using assms(6,10) unat32_less [of "no_sbuffs (en_w s)"] by linarith
  then have j: "unat (of_nat j :: 32 word) = j" by (rule unat_of_nat32)
  have dat: "sound_data ev (en_w s) = Inr (StateData \<lparr>mixer_index = int j\<rparr>)"
    using assms(3-5) by (simp add: sound_data_def engineSoundTableDataRetrieve_def)
  have ne: "e_type ev \<noteq> event_type_code EVENT_T" using assms(2) by simp
  have fade: "real (unat (e_dither ev)) / (255 / 2) = real (unat (e_dither ev)) * 2 / 255" by simp
  have uj: "uint (of_nat j :: 32 word) = int j" using j by (metis uint_nat)
  have w: "(en_w s)\<lparr>lin_fade := Ptr fs, sbuffs := X\<rparr> = (en_w s)\<lparr>sbuffs := X\<rparr>" for X
    using assms(8) by (cases "en_w s") simp
  have "set_state ev (en_w s) = Inr ((en_w s)
      \<lparr>lin_fade := Ptr (if e_dither ev = 255 then fs
          else fs[j := (fs ! j)\<lparr>fade_time := real (unat (e_dither ev)) * 2 / 255\<rparr>]),
       sbuffs := Ptr (bs[j := (bs ! j)\<lparr>sb_vol := real (unat (e_vol ev)) / 255,
          sb_stereo_pos := real (unat (e_loc ev)) / 255, sb_filter_flag := e_flags ev\<rparr>])\<rparr>)"
    using assms(6-10) dat j uj fade w
    by (cases "e_dither ev = 255")
      (simp_all add: set_state_def mixerGetFadeTime_def mixerSetFadeTime_def mixerSetStateSnd_def)
  then show ?thesis
    using assms(1,2) ne by (simp add: engineIO_def record_incoming_off)
qed

text \<open>
  C34.  Handling a state.  A state event for a loaded state sets its volume, position and flags to
  the scaled bytes of the event; it sets the fade time to \<open>dither * 2 / 255\<close> seconds unless dither
  is 255, in which case the old time is kept.  Nothing else changes and the sound string is
  freed.
\<close>

theorem engineIO_state_spec:
  assumes "use_playback (en_pb s) = 0" and "e_type ev = event_type_code STATE_T"
    and "e_sound ev = Some name" and "engineSoundTableRetrieve name (stable (en_w s)) = Inr (Some ent)"
    and "se_data ent = StateData \<lparr>mixer_index = int j\<rparr>" and "j < length bs"
    and "sbuffs (en_w s) = Ptr bs" and "lin_fade (en_w s) = Ptr fs"
    and "length fs = length bs" and "unat (no_sbuffs (en_w s)) = length bs"
  shows "engineIO io_ok ev s = Inr (s\<lparr>en_w := (en_w s)
      \<lparr>lin_fade := Ptr (if e_dither ev = 255 then fs
          else fs[j := (fs ! j)\<lparr>fade_time := real (unat (e_dither ev)) * 2 / 255\<rparr>]),
       sbuffs := Ptr (bs[j := (bs ! j)\<lparr>sb_vol := real (unat (e_vol ev)) / 255,
          sb_stereo_pos := real (unat (e_loc ev)) / 255, sb_filter_flag := e_flags ev\<rparr>])\<rparr>\<rparr>, True)"
  using assms by (rule engineIO_state)

definition state_engine :: engine where
  "state_engine = bell_engine\<lparr>en_w := state_world\<lparr>stable := Ptr ((replicate 256 [])[195 := [state_sound ''ab'' 0]])\<rparr>\<rparr>"

theorem engineIO_state_spec_witness:
  "\<exists>s'. engineIO True (zero_event\<lparr>e_type := 1, e_sound := Some ''ab'', e_vol := 255, e_dither := 51\<rparr>)
      state_engine = Inr (s', True) \<and> sb_vol (sbs (en_w s') ! 0) = 1 \<and> sbs (en_w s') \<noteq> []"
proof -
  let ?ev = "zero_event\<lparr>e_type := 1, e_sound := Some ''ab'', e_vol := 255, e_dither := 51\<rparr>"
  have wf: "table_wf (stable (en_w state_engine))" by (simp add: table_wf_def state_engine_def)
  have "bucket (slot ''ab'') (stable (en_w state_engine)) = [state_sound ''ab'' 0]"
    by (simp add: bucket_def state_engine_def hash_eval)
  then have lk: "engineSoundTableRetrieve ''ab'' (stable (en_w state_engine)) = Inr (Some (state_sound ''ab'' 0))"
    by (simp add: retrieve_eq [OF wf] hash_eval) (simp add: state_sound_def)
  show ?thesis
    using engineIO_state_spec [of state_engine ?ev "''ab''" "state_sound ''ab'' 0" 0
        "[zero_state_buf\<lparr>sb_thresh := Some [zero_threshold], sb_thresh_cnt := 1\<rparr>]" "[zero_fade]" True] lk
    by (simp add: state_engine_def bell_engine_def playback_static_def event_type_code_def
        state_sound_def state_world_def idle_world_def sbs_def)
qed

text \<open>
  Unknown sounds.  \<open>engineIO\<close> does not test whether the name was found: a state event for a
  missing sound, and an event for a missing sound when a channel is idle, dereference \<open>NULL\<close>;
  the same event is queued without complaint when no channel is idle.
\<close>

theorem engineIO_unknown_sound:
  assumes "engine_ok s" and "e_sound ev = Some name"
    and "engineSoundTableRetrieve name (stable (en_w s)) = Inr None"
  shows "(e_type ev = event_type_code STATE_T \<longrightarrow> engineIO io_ok ev s = Inl NullDeref) \<and>
    (e_type ev = event_type_code EVENT_T \<longrightarrow> round_robin (evs (en_w s)) (nat (en_lastc s)) = Some c \<longrightarrow>
       engineIO io_ok ev s = Inl NullDeref)"
proof -
  have dat: "sound_data ev w = Inr NoData" if "stable w = stable (en_w s)" for w
    using assms(2,3) that by (simp add: sound_data_def engineSoundTableDataRetrieve_def)
  have rec: "record_incoming io_ok ev s = Inr s"
    using assms(1) by (simp add: engine_ok_def record_incoming_off)
  have "engineIO io_ok ev s = Inl NullDeref" if "e_type ev = event_type_code STATE_T"
    using that dat [of "en_w s"] rec by (simp add: engineIO_def set_state_def)
  moreover have "engineIO io_ok ev s = Inl NullDeref"
    if t: "e_type ev = event_type_code EVENT_T"
      and rr: "round_robin (evs (en_w s)) (nat (en_lastc s)) = Some c"
  proof -
    have inv: "ev_inv (en_w s)" using assms(1) by (simp add: engine_ok_def)
    have "0 \<le> en_lastc s" "nat (en_lastc s) < length (evs (en_w s))" "length (evs (en_w s)) \<le> 2 ^ 31"
      using assms(1) by (simp_all add: engine_ok_def)
    with channel_choice [OF inv] rr obtain k where
      k: "channel_loop (en_lastc s) [0..<unat (no_ebuffs (en_w s))] (- 1) (en_w s) = Inr (int c, later k (en_w s))"
      by fastforce
    have c: "c < length (evs (en_w s))" "eb_snd_buf (evs (en_w s) ! c) = None"
      using round_robin_Some [OF rr] by auto
    have "pa_get (sched (later k (en_w s))) (int c) = Inr (scheds (en_w s) ! c)"
      using ev_invD(3,4) [OF inv] c(1) by (simp add: later_def)
    moreover have "startt (scheds (en_w s) ! c) = 0" using ev_invD(6) [OF inv c(1)] c(2) by simp
    ultimately have "start_on (int c) ev (later k (en_w s)) = Inl NullDeref"
      using dat [of "later k (en_w s)"] by (simp add: start_on_def)
    then show ?thesis using rec k t by (simp add: engineIO_def)
  qed
  ultimately show ?thesis by blast
qed

theorem engineIO_unknown_sound_witness:
  "engineIO True (zero_event\<lparr>e_type := 1, e_sound := Some ''x''\<rparr>) bell_engine = Inl NullDeref"
proof -
  have wf: "table_wf (stable (en_w bell_engine))"
    by (simp add: table_wf_def bell_engine_def bell_world_def)
  have "bucket (slot ''x'') (stable (en_w bell_engine)) = []"
    by (simp add: bucket_def bell_engine_def bell_world_def hash_eval)
  then have "engineSoundTableRetrieve ''x'' (stable (en_w bell_engine)) = Inr None"
    by (simp add: retrieve_eq [OF wf] hash_eval)
  with engineIO_unknown_sound [OF bell_engine_ok, of "zero_event\<lparr>e_type := 1, e_sound := Some ''x''\<rparr>" "''x''"]
  show ?thesis by (simp add: event_type_code_def)
qed

end
