(* ===== verification/Playback_Go.thy ===== *)
theory Playback_Go
  imports Playback Engine_Queue
begin

text \<open>
  playback.c, \<open>playbackGo\<close>: replaying a log into the engine queue.  The engine thread, which takes
  the events out again, is not part of the model.  \<open>engineEnqueue\<close> is called without a declaration
  and with the whole record; its leading member, the event, is what arrives.  In the file the event
  holds the address of the sound's name in the recording process; the model's records hold the name.
  Starting and ending time are the seconds \<open>strptime\<close> and \<open>mktime\<close> make of the arguments; \<open>eintr\<close>
  tells whether \<open>errno\<close> is \<open>EINTR\<close> when the end of the file is hit, where \<open>fread\<close> does not set it.
\<close>

section \<open>Positions\<close>

text \<open>
  \<open>fseek\<close> and \<open>playbackFindTime\<close> with the offset of a record; offsets between records do not occur in
  logs the recorder writes and are a fault of the model.
\<close>

definition at_record :: "int \<Rightarrow> bool" where
  "at_record off \<longleftrightarrow> header_size \<le> off \<and> record_size dvd (off - header_size)"

definition seek_off :: "int \<Rightarrow> playback \<Rightarrow> playback result" where
  "seek_off off p =
     (if at_record off then Inr (seek_rec (nat ((off - header_size) div record_size)) p) else Inl UninitRead)"

definition find_from :: "int \<Rightarrow> int \<Rightarrow> playback \<Rightarrow> (int \<times> playback) result" where
  "find_from sec off p =
     (if at_record off
      then playbackFindTime \<lparr>tv_sec = sec, tv_usec = 0\<rparr> (nat ((off - header_size) div record_size)) p
      else Inl UninitRead)"

text \<open>
  Where to start and where to end.  With a starting but no ending time, \<open>end_pos\<close> is not set; without
  both it is 0.
\<close>

definition playback_range :: "int option \<Rightarrow> int option \<Rightarrow> playback \<Rightarrow> (int \<times> int option \<times> playback) result" where
  "playback_range start_s end_s p =
     (case start_s of
        Some ss \<Rightarrow>
          bindE (playbackFindFirstOffset p) (\<lambda>(off, p1).
          let p2 = p1\<lparr>pb_header := (pb_header p1)\<lparr>start_pos := off\<rparr>\<rparr> in
          bindE (find_from ss off p2) (\<lambda>(r, p3).
          let sp = (if r = 0 then header_size else r) in
          bindE (case end_s of None \<Rightarrow> Inr (None, p3)
                 | Some es \<Rightarrow>
                     bindE (playbackFindFirstOffset p3) (\<lambda>(off2, p4).
                     bindE (find_from es off2 p4) (\<lambda>(r2, p5).
                     Inr (Some (if r2 = 0
                                then if start_pos (pb_header p5) = header_size then header_size else sp - record_size
                                else r2), p5)))) (\<lambda>(ep, p6).
          bindE (seek_off sp p6) (\<lambda>p7. Inr (sp, ep, p7)))))
      | None \<Rightarrow>
          bindE (if TP_IN_FP_SECS (end_t (pb_header p)) \<noteq> 0 then Inr (start_pos (pb_header p), p)
                 else playbackFindFirstOffset p) (\<lambda>(off, p1).
          bindE (seek_off off p1) (\<lambda>p2. Inr (record_offset (pb_pos p2), Some 0, p2))))"

section \<open>The loop\<close>

text \<open>
  How long the loop sleeps before an event, from the times since the start in the log and now.
\<close>

definition sleep_before :: "real \<Rightarrow> real \<Rightarrow> ENGINE_EVENT \<Rightarrow> timeval \<Rightarrow> real" where
  "sleep_before event_offset time_offset rc now =
     (let plbk_offset = TP_IN_FP_SECS (mix_time rc) - event_offset;
          cur_time_offset = TP_IN_FP_SECS now - time_offset in
      if plbk_offset > cur_time_offset then plbk_offset - cur_time_offset else 0)"

definition play_on :: "int \<Rightarrow> int option \<Rightarrow> playback \<Rightarrow> bool result" where
  "play_on sp ep p =
     (case ep of None \<Rightarrow> Inl UninitRead
      | Some e \<Rightarrow> Inr (record_offset (pb_pos p) \<noteq> e \<and> record_offset (pb_pos p) \<noteq> sp))"

text \<open>
  At the end of the file the loop starts over behind the header if \<open>errno\<close> is \<open>EINTR\<close>; otherwise it
  goes on with the record it has read last.  \<open>out\<close> collects what was played, with the sleep before it.
\<close>

partial_function (option) play_loop ::
  "bool \<Rightarrow> int \<Rightarrow> int option \<Rightarrow> real \<Rightarrow> real \<Rightarrow> ENGINE_EVENT \<Rightarrow> playback \<Rightarrow> engine_queue \<Rightarrow> (nat \<Rightarrow> timeval)
   \<Rightarrow> (real \<times> EVENT) list \<Rightarrow> (playback \<times> engine_queue \<times> (real \<times> EVENT) list) result option" where
  "play_loop eintr sp ep event_offset time_offset rc p q clk out =
     (case read_rec p of (r, p1) \<Rightarrow>
      if r = None \<and> eintr
      then bindO (Some (play_on sp ep (seek_rec 0 p1))) (\<lambda>b.
           if b then play_loop eintr sp ep event_offset time_offset rc (seek_rec 0 p1) q clk out
           else Some (Inr (seek_rec 0 p1, q, out)))
      else let rc1 = (case r of None \<Rightarrow> rc | Some e \<Rightarrow> e);
               p2 = p1\<lparr>event_cnt := event_cnt p1 + 1\<rparr>;
               out1 = out @ [(sleep_before event_offset time_offset rc1 (clk 0), event rc1)] in
           bindO (Some (engineEnqueue (event rc1) q)) (\<lambda>q1.
           bindO (Some (play_on sp ep p2)) (\<lambda>b.
           if b then play_loop eintr sp ep event_offset time_offset rc1 p2 q1 (\<lambda>n. clk (Suc n)) out1
           else Some (Inr (p2, q1, out1)))))"

text \<open>
  The first record is read and stepped back over.  At the end the code sleeps and calls \<open>shutdown\<close>, the
  function of the socket library, which has no effect here.
\<close>

definition playbackGo ::
  "bool \<Rightarrow> int option \<Rightarrow> int option \<Rightarrow> playback \<Rightarrow> engine_queue \<Rightarrow> (nat \<Rightarrow> timeval)
   \<Rightarrow> (playback \<times> engine_queue \<times> (real \<times> EVENT) list) result option" where
  "playbackGo eintr start_s end_s p q clk =
     bindO (Some (playback_range start_s end_s p)) (\<lambda>(sp, ep, p1).
     case read_rec p1 of
       (None, p2) \<Rightarrow> Some (Inl UninitRead)
     | (Some rc, p2) \<Rightarrow>
         play_loop eintr sp ep (TP_IN_FP_SECS (mix_time rc)) (TP_IN_FP_SECS (clk 0)) rc
           (seek_rec (pb_pos p2 - 1) p2) q (\<lambda>n. clk (Suc n)) [])"

section \<open>Playing a log that has not wrapped\<close>

lemma record_offset_pos: "record_offset n > 0"
  by (simp add: record_offset_def header_size_def record_size_def)

lemma record_offset_header: "record_offset n = header_size \<longleftrightarrow> n = 0"
  by (simp add: record_offset_def record_size_def)

lemma play_on_start:
  "play_on header_size (Some 0) p = Inr (pb_pos p \<noteq> 0)"
  using record_offset_pos [of "pb_pos p"] by (auto simp: play_on_def record_offset_header)

lemma play_loop_stuck:
  assumes "pb_pos p \<noteq> 0" and "length (pb_recs p) \<le> pb_pos p"
  shows "\<not> (\<exists>x. play_loop False header_size (Some 0) eo toff rc p q clk out = Some (Inr x))"
proof
  assume "\<exists>x. play_loop False header_size (Some 0) eo toff rc p q clk out = Some (Inr x)"
  then obtain x where x: "play_loop False header_size (Some 0) eo toff rc p q clk out = Some (Inr x)" by blast
  have "e \<or> sp \<noteq> header_size \<or> ep \<noteq> Some 0 \<or> pb_pos p = 0 \<or> pb_pos p < length (pb_recs p) \<or> (\<forall>x. y \<noteq> Inr x)"
    if "play_loop e sp ep eo toff rc p q clk out = Some y" for e sp ep eo toff rc p q clk out y
  proof (rule play_loop.raw_induct [OF _ that], goal_cases)
    case (1 loop e sp ep eo toff rc p q clk out y)
    show ?case
    proof (rule ccontr)
      assume "\<not> ?case"
      then have h: "\<not> e" "sp = header_size" "ep = Some 0" "pb_pos p \<noteq> 0" "length (pb_recs p) \<le> pb_pos p"
        and "\<exists>x. y = Inr x" by auto
      then obtain x where y: "y = Inr x" by blast
      let ?p2 = "(p\<lparr>pb_eof := True\<rparr>)\<lparr>event_cnt := event_cnt p + 1\<rparr>"
      have rd: "read_rec p = (None, p\<lparr>pb_eof := True\<rparr>)" using h(5) by (simp add: read_rec_def)
      obtain q1 where q1: "engineEnqueue (event rc) q = Inr q1"
        using 1(2) h y rd by (cases "engineEnqueue (event rc) q") auto
      have "loop e sp ep eo toff rc ?p2 q1 (\<lambda>n. clk (Suc n)) (out @ [(sleep_before eo toff rc (clk 0), event rc)]) = Some y"
        using 1(2) h rd q1 play_on_start [of ?p2] by simp
      from 1(1) [OF this] show False using h y by auto
    qed
  qed
  from this [OF x] assms show False by auto
qed

text \<open>From record \<open>k\<close> on, the rest of the log is played in order.\<close>

lemma play_loop_rest:
  "pb_pos p \<le> length (pb_recs p) \<Longrightarrow> pb_recs p \<noteq> [] \<Longrightarrow>
   eq_rel q xs \<Longrightarrow> length xs + (length (pb_recs p) - pb_pos p) \<le> SEM_VALUE_MAX \<Longrightarrow>
   \<exists>p' q' rc' clk' out'. play_loop eintr header_size (Some 0) eo toff rc p q clk out =
       play_loop eintr header_size (Some 0) eo toff rc' p' q' clk' (out @ out') \<and>
     pb_recs p' = pb_recs p \<and> pb_pos p' = length (pb_recs p) \<and>
     eq_rel q' (xs @ map event (drop (pb_pos p) (pb_recs p))) \<and>
     map snd out' = map event (drop (pb_pos p) (pb_recs p))"
proof (induction "length (pb_recs p) - pb_pos p" arbitrary: rc p q clk out xs)
  case 0
  then show ?case by (intro exI [of _ p] exI [of _ q] exI [of _ rc] exI [of _ clk] exI [of _ "[]"]) simp
next
  case (Suc n)
  let ?e = "pb_recs p ! pb_pos p"
  let ?p2 = "p\<lparr>pb_pos := Suc (pb_pos p), event_cnt := event_cnt p + 1\<rparr>"
  let ?o = "(sleep_before eo toff ?e (clk 0), event ?e)"
  have lt: "pb_pos p < length (pb_recs p)" using Suc(2) by simp
  then have room: "length xs < SEM_VALUE_MAX" using Suc(6) by linarith
  have rd: "read_rec p = (Some ?e, p\<lparr>pb_pos := Suc (pb_pos p)\<rparr>)" using lt by (simp add: read_rec_def)
  obtain q1 where q1: "engineEnqueue (event ?e) q = Inr q1" "eq_rel q1 (xs @ [event ?e])"
    using engineEnqueue_rel [OF Suc(5) room, of "event ?e"] by blast
  have step: "play_loop eintr header_size (Some 0) eo toff rc p q clk out =
      play_loop eintr header_size (Some 0) eo toff ?e ?p2 q1 (\<lambda>n. clk (Suc n)) (out @ [?o])"
    using rd q1(1) play_on_start [of ?p2] by (subst play_loop.simps) (simp add: Let_def)
  have prem: "n = length (pb_recs ?p2) - pb_pos ?p2" "pb_pos ?p2 \<le> length (pb_recs ?p2)" "pb_recs ?p2 \<noteq> []"
    using Suc(2,4) lt by simp_all
  have bound: "length (xs @ [event ?e]) + (length (pb_recs ?p2) - pb_pos ?p2) \<le> SEM_VALUE_MAX"
  proof -
    have "length (xs @ [event ?e]) + (length (pb_recs ?p2) - pb_pos ?p2) = length xs + (length (pb_recs p) - pb_pos p)"
      using lt by simp
    then show ?thesis using Suc(6) by simp
  qed
  obtain p' q' rc' clk' out' where r: "play_loop eintr header_size (Some 0) eo toff ?e ?p2 q1 (\<lambda>n. clk (Suc n)) (out @ [?o]) =
       play_loop eintr header_size (Some 0) eo toff rc' p' q' clk' ((out @ [?o]) @ out')"
     "pb_recs p' = pb_recs ?p2" "pb_pos p' = length (pb_recs ?p2)"
     "eq_rel q' ((xs @ [event ?e]) @ map event (drop (pb_pos ?p2) (pb_recs ?p2)))"
     "map snd out' = map event (drop (pb_pos ?p2) (pb_recs ?p2))"
    using Suc(1) [OF prem q1(2) bound, of ?e "\<lambda>n. clk (Suc n)" "out @ [?o]"] by blast
  have d: "drop (pb_pos p) (pb_recs p) = ?e # drop (Suc (pb_pos p)) (pb_recs p)"
    using lt by (simp add: Cons_nth_drop_Suc)
  show ?case
    unfolding step using r d
    by (intro exI [of _ p'] exI [of _ q'] exI [of _ rc'] exI [of _ clk'] exI [of _ "?o # out'"]) simp
qed

text \<open>
  C28.  Replaying a closed log that has not wrapped, without times.  If \<open>errno\<close> happens to be \<open>EINTR\<close> at
  the end of the file, every recorded event is put into the engine queue once, in order, and the
  replay ends; otherwise it never does.
\<close>

theorem playbackGo_unwrapped:
  assumes "TP_IN_FP_SECS (end_t (pb_header p)) \<noteq> 0" and "start_pos (pb_header p) = header_size"
    and "pb_recs p \<noteq> []" and "eq_rel q xs" and "length xs + length (pb_recs p) \<le> SEM_VALUE_MAX"
  shows "(\<exists>p' q' out. playbackGo True None None p q clk = Some (Inr (p', q', out)) \<and>
      eq_rel q' (xs @ map event (pb_recs p)) \<and> map snd out = map event (pb_recs p)) \<and>
    \<not> (\<exists>x. playbackGo False None None p q clk = Some (Inr x))"
proof -
  let ?rc = "hd (pb_recs p)"
  let ?p0 = "seek_rec 0 p"
  let ?loop = "\<lambda>e. play_loop e header_size (Some 0) (TP_IN_FP_SECS (mix_time ?rc)) (TP_IN_FP_SECS (clk 0)) ?rc ?p0 q
    (\<lambda>n. clk (Suc n)) []"
  have range: "playback_range None None p = Inr (header_size, Some 0, ?p0)"
    using assms(1,2) by (simp add: playback_range_def seek_off_def at_record_def seek_rec_def record_offset_def)
  have "read_rec ?p0 = (Some ?rc, ?p0\<lparr>pb_pos := 1\<rparr>)"
    using assms(3) by (simp add: read_rec_def seek_rec_def hd_conv_nth)
  then have go: "playbackGo e None None p q clk = ?loop e" for e
    by (simp add: playbackGo_def range seek_rec_def)
  have rest: "\<exists>p' q' rc' clk' out'. ?loop e =
       play_loop e header_size (Some 0) (TP_IN_FP_SECS (mix_time ?rc)) (TP_IN_FP_SECS (clk 0)) rc' p' q' clk' ([] @ out') \<and>
     pb_recs p' = pb_recs p \<and> pb_pos p' = length (pb_recs p) \<and>
     eq_rel q' (xs @ map event (pb_recs p)) \<and> map snd out' = map event (pb_recs p)" for e
    using play_loop_rest [of ?p0 q xs e "TP_IN_FP_SECS (mix_time ?rc)" "TP_IN_FP_SECS (clk 0)" ?rc "\<lambda>n. clk (Suc n)" "[]"]
      assms(3-5) by (simp add: seek_rec_def)
  have "\<exists>p' q' out. ?loop True = Some (Inr (p', q', out)) \<and>
      eq_rel q' (xs @ map event (pb_recs p)) \<and> map snd out = map event (pb_recs p)"
  proof -
    obtain p' q' rc' clk' out' where r: "?loop True =
        play_loop True header_size (Some 0) (TP_IN_FP_SECS (mix_time ?rc)) (TP_IN_FP_SECS (clk 0)) rc' p' q' clk' ([] @ out')"
      "pb_recs p' = pb_recs p" "pb_pos p' = length (pb_recs p)"
      "eq_rel q' (xs @ map event (pb_recs p))" "map snd out' = map event (pb_recs p)" using rest [of True] by blast
    have "read_rec p' = (None, p'\<lparr>pb_eof := True\<rparr>)" using r(2,3) by (simp add: read_rec_def)
    then have "?loop True = Some (Inr (seek_rec 0 (p'\<lparr>pb_eof := True\<rparr>), q', out'))"
      unfolding r(1) by (subst play_loop.simps) (simp add: play_on_start seek_rec_def)
    then show ?thesis using r(4,5) by blast
  qed
  moreover have "\<not> (\<exists>x. ?loop False = Some (Inr x))"
  proof -
    obtain p' q' rc' clk' out' where r: "?loop False =
        play_loop False header_size (Some 0) (TP_IN_FP_SECS (mix_time ?rc)) (TP_IN_FP_SECS (clk 0)) rc' p' q' clk' ([] @ out')"
      "pb_recs p' = pb_recs p" "pb_pos p' = length (pb_recs p)" using rest [of False] by blast
    show ?thesis unfolding r(1) by (rule play_loop_stuck) (use r(2,3) assms(3) in auto)
  qed
  ultimately show ?thesis unfolding go by blast
qed


theorem playbackGo_unwrapped_witness:
  "\<not> (\<exists>x. playbackGo False None None
     (playback_static\<lparr>pb_open := True, pb_recs := [engineEngineEventCreate],
        pb_header := (pb_header playback_static)\<lparr>start_pos := header_size, end_t := \<lparr>tv_sec = 5, tv_usec = 0\<rparr>\<rparr>\<rparr>)
     (snd (engineQueueInit True True engine_queue_static)) (\<lambda>_. zero_time) = Some (Inr x))"
  using playbackGo_unwrapped [of "playback_static\<lparr>pb_open := True, pb_recs := [engineEngineEventCreate],
        pb_header := (pb_header playback_static)\<lparr>start_pos := header_size, end_t := \<lparr>tv_sec = 5, tv_usec = 0\<rparr>\<rparr>\<rparr>"
        "snd (engineQueueInit True True engine_queue_static)" "[]" "\<lambda>_. zero_time"] eq_rel_init
  by (simp add: TP_IN_FP_SECS_def SEM_VALUE_MAX_def)

end
