(* ===== verification/Notice.thy ===== *)
theory Notice
  imports Event_Types
begin

text \<open>
  notice.c, xml.c and xml_notice.c: the XML form of a client event.  The expat parser is not part
  of the repository; it is represented by the list of callbacks it makes, each character-data
  callback with the memory its pointer refers to.  Shown: the text normalisation leaves plain
  words alone, keeps too much after a blank, and reads behind its input when a blank precedes the
  last character; and of the elements of a notice, in whatever order they come, the last one with a tag
  determines the field of that name.
\<close>

section \<open>Data (notice.h, xml_notice.h)\<close>

abbreviation (input) NOTICE_INTEGER_NOT_SET :: int where "NOTICE_INTEGER_NOT_SET \<equiv> - 1"

record NOTICE =
  nt_host :: "string option"
  nt_client :: "string option"
  nt_sound :: "string option"
  nt_data :: "string option"
  nt_type :: int
  nt_location :: int
  nt_priority :: int
  nt_volume :: int
  nt_dither :: int
  nt_metric :: int
  nt_flags :: int
  nt_date :: "string option"

text \<open>\<open>nt_date\<close> keeps the text given to \<open>strptime\<close>, whose result nothing in the server reads.\<close>

definition noticeCreateNotice :: NOTICE where
  "noticeCreateNotice = \<lparr>nt_host = None, nt_client = None, nt_sound = None, nt_data = None,
     nt_type = NOTICE_INTEGER_NOT_SET, nt_location = NOTICE_INTEGER_NOT_SET,
     nt_priority = NOTICE_INTEGER_NOT_SET, nt_volume = NOTICE_INTEGER_NOT_SET,
     nt_dither = NOTICE_INTEGER_NOT_SET, nt_metric = NOTICE_INTEGER_NOT_SET, nt_flags = 0,
     nt_date = None\<rparr>"

text \<open>The strings \<open>noticeFreeNotice\<close> frees.\<close>

definition noticeFreeNotice :: "NOTICE option \<Rightarrow> string list" where
  "noticeFreeNotice n = (case n of None \<Rightarrow> [] | Some nt \<Rightarrow>
     List.map_filter id [nt_host nt, nt_client nt, nt_sound nt, nt_data nt])"

section \<open>Normalising text (xml.c)\<close>

text \<open>\<open>str[j++] = c\<close> in a buffer of \<open>cap\<close> bytes.\<close>

definition push :: "nat \<Rightarrow> char \<Rightarrow> char list \<Rightarrow> char list result" where
  "push cap c out = (if length out < cap then Inr (out @ [c]) else Inl OutOfBounds)"

text \<open>
  The loop.  \<open>mem\<close> is the memory from \<open>s\<close> on, which extends beyond the \<open>len\<close> characters of the
  text.  After a blank and an alphanumeric character the \<open>switch\<close> falls through to the default
  case with \<open>i\<close> already advanced by two.
\<close>

function norm_loop :: "char list \<Rightarrow> nat \<Rightarrow> nat \<Rightarrow> char list \<Rightarrow> char list result" where
  "norm_loop mem len i str =
     (if i < len
      then bindE (aget mem (int i)) (\<lambda>c.
           if c = NL \<or> c = TAB then norm_loop mem len (i + 1) str
           else if c = CHR '' ''
           then bindE (aget mem (int (i + 1))) (\<lambda>d.
                if isalnum d
                then bindE (push (len + 1) (CHR '' '') str) (\<lambda>str1.
                     bindE (push (len + 1) d str1) (\<lambda>str2.
                     bindE (aget mem (int (i + 2))) (\<lambda>e.
                     bindE (push (len + 1) e str2) (\<lambda>str3. norm_loop mem len (i + 3) str3))))
                else norm_loop mem len (i + 1) str)
           else bindE (push (len + 1) c str) (\<lambda>str1. norm_loop mem len (i + 1) str1))
      else Inr str)"
  by pat_completeness auto
termination
  by (relation "measure (\<lambda>(mem, len, i, str). len - i)") auto

declare norm_loop.simps [simp del]

definition createXmlNormalizedString :: "char list \<Rightarrow> nat \<Rightarrow> string option result" where
  "createXmlNormalizedString mem len =
     bindE (norm_loop mem len 0 []) (\<lambda>str.
     bindE (push (len + 1) NUL str) (\<lambda>str1.
     bindE (cstring str1) (\<lambda>t. Inr (if t = [] then None else Some t))))"

section \<open>The parser callbacks (xml_notice.c)\<close>

datatype xml_callback =
    XStart string
  | XEnd string
  | XChar "char list" nat

record CLIENT_PARSE_INFO =
  cp_notice :: NOTICE
  current_tag :: "string option"

definition xmlParseClientStart :: "string \<Rightarrow> CLIENT_PARSE_INFO \<Rightarrow> CLIENT_PARSE_INFO" where
  "xmlParseClientStart tag_name i = i\<lparr>current_tag := Some tag_name\<rparr>"

text \<open>The end handler does nothing: the tag stays current.\<close>

definition xmlParseClientEnd :: "string \<Rightarrow> CLIENT_PARSE_INFO \<Rightarrow> CLIENT_PARSE_INFO" where
  "xmlParseClientEnd tag_name i = i"

definition byte_of_text :: "string \<Rightarrow> int" where
  "byte_of_text s = uint (ucast (atoi s) :: 8 word)"

definition set_field :: "string \<Rightarrow> string \<Rightarrow> NOTICE \<Rightarrow> NOTICE" where
  "set_field tag s n =
     (if strcaseeq tag ''host'' then n\<lparr>nt_host := Some s\<rparr>
      else if strcaseeq tag ''data'' then n\<lparr>nt_data := Some s\<rparr>
      else if strcaseeq tag ''client'' then n\<lparr>nt_client := Some s\<rparr>
      else if strcaseeq tag ''sound'' then n\<lparr>nt_sound := Some s\<rparr>
      else if strcaseeq tag ''type'' then n\<lparr>nt_type := byte_of_text s\<rparr>
      else if strcaseeq tag ''location'' then n\<lparr>nt_location := byte_of_text s\<rparr>
      else if strcaseeq tag ''priority'' then n\<lparr>nt_priority := byte_of_text s\<rparr>
      else if strcaseeq tag ''volume'' then n\<lparr>nt_volume := byte_of_text s\<rparr>
      else if strcaseeq tag ''dither'' then n\<lparr>nt_dither := byte_of_text s\<rparr>
      else if strcaseeq tag ''flags'' then n\<lparr>nt_flags := sint (atoi s)\<rparr>
      else if strcaseeq tag ''metric'' then n\<lparr>nt_metric := sint (atoi s)\<rparr>
      else if strcaseeq tag ''date'' then n\<lparr>nt_date := Some s\<rparr>
      else n)"

definition xmlParseClientChar :: "char list \<Rightarrow> nat \<Rightarrow> CLIENT_PARSE_INFO \<Rightarrow> CLIENT_PARSE_INFO result" where
  "xmlParseClientChar mem len i =
     bindE (createXmlNormalizedString mem len) (\<lambda>r.
     case r of None \<Rightarrow> Inr i | Some s \<Rightarrow>
     (case current_tag i of None \<Rightarrow> Inl NullDeref
      | Some tag \<Rightarrow> Inr (i\<lparr>cp_notice := set_field tag s (cp_notice i)\<rparr>)))"

fun xml_callback_run :: "xml_callback \<Rightarrow> CLIENT_PARSE_INFO \<Rightarrow> CLIENT_PARSE_INFO result" where
  "xml_callback_run (XStart t) i = Inr (xmlParseClientStart t i)"
| "xml_callback_run (XEnd t) i = Inr (xmlParseClientEnd t i)"
| "xml_callback_run (XChar mem len) i = xmlParseClientChar mem len i"

text \<open>\<open>expat\<close>: the callbacks the XML parser makes for a text.\<close>

definition xmlParseClientEvent :: "(string \<Rightarrow> xml_callback list) \<Rightarrow> string \<Rightarrow> NOTICE \<Rightarrow> NOTICE result" where
  "xmlParseClientEvent expat xml_string notice =
     bindE (foldE xml_callback_run (expat xml_string) \<lparr>cp_notice = notice, current_tag = None\<rparr>)
       (\<lambda>i. Inr (cp_notice i))"

definition processEventNoticeString ::
  "(string \<Rightarrow> xml_callback list) \<Rightarrow> string \<Rightarrow> NOTICE \<Rightarrow> NOTICE result" where
  "processEventNoticeString expat xml_string notice = xmlParseClientEvent expat xml_string notice"

section \<open>Normalisation of plain words\<close>

definition plain :: "string \<Rightarrow> bool" where
  "plain s \<longleftrightarrow> NUL \<notin> set s \<and> NL \<notin> set s \<and> TAB \<notin> set s \<and> CHR '' '' \<notin> set s"

definition plain_char :: "char \<Rightarrow> bool" where
  "plain_char c \<longleftrightarrow> c \<noteq> NUL \<and> c \<noteq> NL \<and> c \<noteq> TAB \<and> c \<noteq> CHR '' ''"

lemma plain_iff: "plain s \<longleftrightarrow> (\<forall>c\<in>set s. plain_char c)"
  by (auto simp: plain_def plain_char_def)

text \<open>Characters that are neither blanks nor line ends are copied one by one.\<close>

lemma norm_loop_run:
  assumes "i \<le> k" and "k \<le> len" and "k \<le> length mem" and "length str + (k - i) \<le> len + 1"
    and "\<forall>p. i \<le> p \<longrightarrow> p < k \<longrightarrow> plain_char (mem ! p)"
  shows "norm_loop mem len i str = norm_loop mem len k (str @ take (k - i) (drop i mem))"
  using assms
proof (induction "k - i" arbitrary: i str)
  case 0
  then show ?case by simp
next
  case (Suc n)
  let ?c = "mem ! i"
  have i: "i < k" using Suc.hyps(2) by simp
  have c: "?c \<noteq> NL" "?c \<noteq> TAB" "?c \<noteq> CHR '' ''"
    using Suc.prems(5) i by (auto simp: plain_char_def)
  have step: "norm_loop mem len i str = norm_loop mem len (Suc i) (str @ [?c])"
  proof -
    have "length str < len + 1" "i < len" "i < length mem" using Suc.prems i by linarith+
    then show ?thesis using c by (subst norm_loop.simps) (simp add: push_def)
  qed
  have n: "k - Suc i = n" "k - i = Suc n" using Suc.hyps(2) by simp_all
  have "drop i mem = ?c # drop (Suc i) mem" using i Suc.prems(3) by (simp add: Cons_nth_drop_Suc)
  then have "take (k - i) (drop i mem) = ?c # take (k - Suc i) (drop (Suc i) mem)" by (simp add: n)
  moreover have "norm_loop mem len (Suc i) (str @ [?c]) =
      norm_loop mem len k ((str @ [?c]) @ take (k - Suc i) (drop (Suc i) mem))"
    using Suc.prems Suc.hyps(2) i by (intro Suc.hyps(1)) auto
  ultimately show ?case using step by simp
qed

lemma norm_loop_end: "norm_loop mem len len str = Inr str"
  by (subst norm_loop.simps) simp

lemma plain_nth: "plain s \<Longrightarrow> p < length s \<Longrightarrow> plain_char ((s @ rest) ! p)"
  by (simp add: plain_iff nth_append)

lemma normalize_plain:
  assumes "plain s"
  shows "createXmlNormalizedString (s @ rest) (length s) = Inr (if s = [] then None else Some s)"
proof -
  have "norm_loop (s @ rest) (length s) 0 [] = Inr s"
    using norm_loop_run [of 0 "length s" "length s" "s @ rest" "[]"] plain_nth [OF assms]
    by (simp add: norm_loop_end)
  then show ?thesis using assms by (auto simp: createXmlNormalizedString_def push_def plain_def)
qed

lemma plain_alnum: "isalnum c \<Longrightarrow> plain_char c"
  by (auto simp: plain_char_def isalnum_def isdigit_def code_def)

text \<open>A word, a blank, and a second word that starts with a letter or digit.\<close>

lemma norm_loop_blank:
  assumes w: "plain w" and c: "isalnum c" and len: "length w + 1 < len"
  shows "norm_loop (w @ CHR '' '' # c # x # rest) len 0 [] =
    norm_loop (w @ CHR '' '' # c # x # rest) len (length w + 3) (w @ [CHR '' '', c, x])"
proof -
  let ?mem = "w @ CHR '' '' # c # x # rest"
  have "norm_loop ?mem len 0 [] = norm_loop ?mem len (length w) w"
    using norm_loop_run [of 0 "length w" len ?mem "[]"] len plain_nth [OF w] by simp
  also have "\<dots> = norm_loop ?mem len (length w + 3) (w @ [CHR '' '', c, x])"
    using len c by (subst norm_loop.simps)
      (simp add: aget_def nth_append push_def numeral_3_eq_3 nat_add_distrib)
  finally show ?thesis .
qed

text \<open>
  Two words.  A text of two words, the second one beginning with a letter or digit, is
  returned unchanged when the second word has two or more characters.  When it has exactly one,
  the character behind the text is copied along with it and the terminating NUL is written
  behind the allocated buffer, whatever that character is.
\<close>

theorem normalize_two_words:
  assumes "plain w" and "isalnum c" and "plain (c # v)"
  shows "createXmlNormalizedString (w @ CHR '' '' # c # v @ x # rest) (length w + length v + 2) =
    (if v = [] then Inl OutOfBounds else Inr (Some (w @ CHR '' '' # c # v)))"
proof (cases v)
  case Nil
  have "norm_loop (w @ CHR '' '' # c # x # rest) (length w + 2) 0 [] = Inr (w @ [CHR '' '', c, x])"
  proof -
    have "norm_loop mem (length w + 2) (length w + 3) str = Inr str" for mem str
      by (subst norm_loop.simps) simp
    then show ?thesis using norm_loop_blank [OF assms(1,2), of "length w + 2" x rest] by simp
  qed
  then show ?thesis by (simp add: Nil createXmlNormalizedString_def push_def)
next
  case (Cons d u)
  let ?mem = "w @ CHR '' '' # c # d # u @ x # rest" and ?len = "length w + length u + 3"
  have mem: "?mem = (w @ [CHR '' '', c, d]) @ (u @ x # rest)" by simp
  have pre: "length (w @ [CHR '' '', c, d]) = length w + 3" by simp
  have seg: "plain_char (?mem ! p)" if "length w + 3 \<le> p" "p < ?len" for p
  proof -
    define q where "q = p - (length w + 3)"
    have q: "p = length w + 3 + q" "q < length u" using that by (simp_all add: q_def)
    note q(2)
    moreover have "?mem ! p = (u @ x # rest) ! q"
      unfolding mem q(1) pre [symmetric] by (rule nth_append_length_plus)
    ultimately have "?mem ! p = u ! q" by (simp add: nth_append)
    then show ?thesis using assms(3) Cons q(2) by (simp add: plain_iff)
  qed
  have drp: "drop (length w + 3) ?mem = u @ x # rest" unfolding mem pre [symmetric] by simp
  have "norm_loop ?mem ?len 0 [] = norm_loop ?mem ?len (length w + 3) (w @ [CHR '' '', c, d])"
    using norm_loop_blank [OF assms(1,2), of ?len d "u @ x # rest"] by simp
  also have "\<dots> = norm_loop ?mem ?len ?len ((w @ [CHR '' '', c, d]) @ u)"
    using norm_loop_run [of "length w + 3" ?len ?len ?mem "w @ [CHR '' '', c, d]"] seg
    unfolding drp by simp
  also have "\<dots> = Inr (w @ CHR '' '' # c # d # u)" by (simp add: norm_loop_end)
  finally have "norm_loop ?mem ?len 0 [] = Inr (w @ CHR '' '' # c # d # u)" .
  moreover have "cstring (w @ CHR '' '' # c # d # u @ [NUL]) = Inr (w @ CHR '' '' # c # d # u)"
    using cstring_terminated [of "w @ CHR '' '' # c # d # u" "[]"] assms Cons
    by (simp add: plain_def)
  ultimately show ?thesis
    using Cons by (simp add: createXmlNormalizedString_def push_def add.commute add.left_commute
        numeral_3_eq_3)
qed

theorem normalize_two_words_witness:
  "createXmlNormalizedString ''door 7</data>'' 6 = Inl OutOfBounds"
  using normalize_two_words [of "''door''" "CHR ''7''" "[]" "CHR ''<''" "''/data>''"]
  by (simp add: plain_def isalnum_def isdigit_def code_def eval_nat_numeral)

section \<open>A notice element by element\<close>

text \<open>
  A blank text, as between two elements: its blanks, the character that follows it in memory and
  the rest of the memory.
\<close>

type_synonym blank_text = "string \<times> char \<times> string"

fun blank_ok :: "blank_text \<Rightarrow> bool" where
  "blank_ok (ws, x, r) \<longleftrightarrow> set ws \<subseteq> {NL, TAB, CHR '' ''} \<and> \<not> isalnum x"

fun blank_callback :: "blank_text \<Rightarrow> xml_callback" where
  "blank_callback (ws, x, r) = XChar (ws @ x # r) (length ws)"

text \<open>
  An element: its tag, its text, what follows the text in memory and the blank texts between its
  end and the next element.  The parser reports the text in one piece.  The texts of the tags that
  matter to an event are words; other texts need only be ones that can be normalised.
\<close>

record xml_element =
  el_tag :: string
  el_text :: string
  el_after :: string
  el_gap :: "blank_text list"

definition event_tag :: "string \<Rightarrow> bool" where
  "event_tag tag \<longleftrightarrow> list_ex (strcaseeq tag)
     [''sound'', ''type'', ''location'', ''priority'', ''volume'', ''dither'', ''flags'']"

definition element_text :: "xml_element \<Rightarrow> string option result" where
  "element_text e = createXmlNormalizedString (el_text e @ el_after e) (length (el_text e))"

definition element_ok :: "xml_element \<Rightarrow> bool" where
  "element_ok e \<longleftrightarrow> list_all blank_ok (el_gap e) \<and>
     (if event_tag (el_tag e) then plain (el_text e) \<and> el_text e \<noteq> [] else \<not> isl (element_text e))"

definition xml_field :: "string \<Rightarrow> string \<Rightarrow> string \<Rightarrow> xml_callback list" where
  "xml_field tag t after = [XStart tag, XChar (t @ after) (length t), XEnd tag]"

definition element_callbacks :: "xml_element \<Rightarrow> xml_callback list" where
  "element_callbacks e =
     xml_field (el_tag e) (el_text e) (el_after e) @ map blank_callback (el_gap e)"

text \<open>The callbacks for a document: a root element, and the elements in it.\<close>

definition notice_callbacks :: "string \<Rightarrow> blank_text list \<Rightarrow> xml_element list \<Rightarrow> xml_callback list" where
  "notice_callbacks top_tag gap es = XStart top_tag # map blank_callback gap @
     concat (map element_callbacks es) @ [XEnd top_tag]"

text \<open>The text of the last element with a tag; the case of its letters does not matter.\<close>

definition text_of :: "string \<Rightarrow> xml_element list \<Rightarrow> string option" where
  "text_of tag es = map_option el_text (List.find (\<lambda>e. strcaseeq (el_tag e) tag) (rev es))"

lemma text_of_Nil: "text_of tag [] = None"
  by (simp add: text_of_def)

lemma text_of_snoc:
  "text_of tag (es @ [e]) = (if strcaseeq (el_tag e) tag then Some (el_text e) else text_of tag es)"
  by (simp add: text_of_def)

lemma blank_loop:
  assumes "set ws \<subseteq> {NL, TAB, CHR '' ''}" and "\<not> isalnum x" and "i \<le> length ws"
  shows "norm_loop (ws @ x # r) (length ws) i [] = Inr []"
  using assms(3)
proof (induction "length ws - i" arbitrary: i)
  case 0
  then show ?case by (subst norm_loop.simps) simp
next
  case (Suc n)
  then have i: "i < length ws" by simp
  have rest: "norm_loop (ws @ x # r) (length ws) (i + 1) [] = Inr []"
    using Suc by (intro Suc.hyps(1)) simp_all
  have blank: "d \<in> set ws \<Longrightarrow> \<not> isalnum d" for d
    using assms(1) by (auto simp: isalnum_def isdigit_def code_def)
  have "ws ! i \<in> {NL, TAB, CHR '' ''}" using nth_mem [OF i] assms(1) by (rule rev_subsetD)
  moreover have "aget (ws @ x # r) (int i) = Inr (ws ! i)"
    using i by (simp add: aget_def nth_append)
  moreover have "\<exists>d. aget (ws @ x # r) (int (i + 1)) = Inr d \<and> \<not> isalnum d"
  proof (cases "i + 1 < length ws")
    case True
    then show ?thesis using blank [OF nth_mem [OF True]]
      by (simp add: aget_def nth_append nat_add_distrib)
  next
    case False
    then have "i + 1 = length ws" using i by simp
    then show ?thesis using assms(2) by (simp add: aget_def nth_append nat_add_distrib)
  qed
  ultimately show ?case using i rest by (subst norm_loop.simps) auto
qed

lemma blank_callback_run:
  assumes "blank_ok b"
  shows "xml_callback_run (blank_callback b) i = Inr i"
proof -
  obtain ws x r where b: "b = (ws, x, r)" by (cases b)
  then have "norm_loop (ws @ x # r) (length ws) 0 [] = Inr []"
    using blank_loop [of ws x 0 r] assms by simp
  moreover have "cstring [NUL] = Inr []" using cstring_terminated [of "[]" "[]"] by simp
  ultimately show ?thesis
    by (simp add: b xmlParseClientChar_def createXmlNormalizedString_def push_def)
qed

lemma blank_callbacks_run:
  "list_all blank_ok gap \<Longrightarrow> foldE xml_callback_run (map blank_callback gap @ cs) i = foldE xml_callback_run cs i"
  by (induction gap) (simp_all add: blank_callback_run)

definition element_sets :: "xml_element \<Rightarrow> NOTICE \<Rightarrow> NOTICE" where
  "element_sets e n = (case element_text e of Inr (Some s) \<Rightarrow> set_field (el_tag e) s n | _ \<Rightarrow> n)"

definition fields_set :: "xml_element list \<Rightarrow> NOTICE \<Rightarrow> NOTICE" where
  "fields_set es n = fold element_sets es n"

lemma element_text_plain:
  "element_ok e \<Longrightarrow> event_tag (el_tag e) \<Longrightarrow> element_text e = Inr (Some (el_text e))"
  using normalize_plain [of "el_text e" "el_after e"] by (simp add: element_ok_def element_text_def)

lemma element_callbacks_run:
  assumes "element_ok e"
  shows "foldE xml_callback_run (element_callbacks e @ cs) i = foldE xml_callback_run cs
     (i\<lparr>current_tag := Some (el_tag e), cp_notice := element_sets e (cp_notice i)\<rparr>)"
proof -
  obtain r where "element_text e = Inr r"
    using assms element_text_plain [OF assms] by (cases "element_text e") (auto simp: element_ok_def split: if_splits)
  then show ?thesis
    using assms by (cases r) (simp_all add: element_ok_def element_callbacks_def xml_field_def blank_callbacks_run
        xmlParseClientStart_def xmlParseClientEnd_def xmlParseClientChar_def element_sets_def
        flip: element_text_def)
qed

lemma elements_run:
  "list_all element_ok es \<Longrightarrow> \<exists>tag. foldE xml_callback_run (concat (map element_callbacks es) @ cs) i =
     foldE xml_callback_run cs (i\<lparr>current_tag := tag, cp_notice := fields_set es (cp_notice i)\<rparr>)"
proof (induction es arbitrary: i)
  case Nil
  show ?case by (intro exI [of _ "current_tag i"]) (simp add: fields_set_def)
next
  case (Cons e es)
  let ?i = "i\<lparr>current_tag := Some (el_tag e), cp_notice := element_sets e (cp_notice i)\<rparr>"
  from Cons.IH [of ?i] Cons.prems element_callbacks_run [of e "concat (map element_callbacks es) @ cs" i]
  show ?case by (auto simp: fields_set_def)
qed

lemma notice_callbacks_run:
  assumes "list_all blank_ok gap" and "list_all element_ok es" and "expat xml = notice_callbacks top_tag gap es"
  shows "xmlParseClientEvent expat xml noticeCreateNotice = Inr (fields_set es noticeCreateNotice)"
proof -
  let ?i = "\<lparr>cp_notice = noticeCreateNotice, current_tag = Some top_tag\<rparr>"
  from elements_run [OF assms(2), of "[XEnd top_tag]" ?i] obtain tag where
    "foldE xml_callback_run (concat (map element_callbacks es) @ [XEnd top_tag]) ?i =
       Inr (?i\<lparr>current_tag := tag, cp_notice := fields_set es noticeCreateNotice\<rparr>)"
    by (auto simp: xmlParseClientEnd_def)
  then show ?thesis
    using assms(1) by (simp add: xmlParseClientEvent_def assms(3) notice_callbacks_def
        xmlParseClientStart_def blank_callbacks_run)
qed

text \<open>The fields of the notice after its elements.\<close>

lemma set_field_fields:
  "nt_sound (set_field tag s n) = (if strcaseeq tag ''sound'' then Some s else nt_sound n)"
  "nt_type (set_field tag s n) = (if strcaseeq tag ''type'' then byte_of_text s else nt_type n)"
  "nt_location (set_field tag s n) = (if strcaseeq tag ''location'' then byte_of_text s else nt_location n)"
  "nt_priority (set_field tag s n) = (if strcaseeq tag ''priority'' then byte_of_text s else nt_priority n)"
  "nt_volume (set_field tag s n) = (if strcaseeq tag ''volume'' then byte_of_text s else nt_volume n)"
  "nt_dither (set_field tag s n) = (if strcaseeq tag ''dither'' then byte_of_text s else nt_dither n)"
  "nt_flags (set_field tag s n) = (if strcaseeq tag ''flags'' then sint (atoi s) else nt_flags n)"
  by (simp_all add: set_field_def strcaseeq_def tolower_def code_def)

lemma element_sets_fields:
  assumes "element_ok e"
  shows "nt_sound (element_sets e n) = (if strcaseeq (el_tag e) ''sound'' then Some (el_text e) else nt_sound n)"
    and "nt_type (element_sets e n) =
      (if strcaseeq (el_tag e) ''type'' then byte_of_text (el_text e) else nt_type n)"
    and "nt_location (element_sets e n) =
      (if strcaseeq (el_tag e) ''location'' then byte_of_text (el_text e) else nt_location n)"
    and "nt_priority (element_sets e n) =
      (if strcaseeq (el_tag e) ''priority'' then byte_of_text (el_text e) else nt_priority n)"
    and "nt_volume (element_sets e n) =
      (if strcaseeq (el_tag e) ''volume'' then byte_of_text (el_text e) else nt_volume n)"
    and "nt_dither (element_sets e n) =
      (if strcaseeq (el_tag e) ''dither'' then byte_of_text (el_text e) else nt_dither n)"
    and "nt_flags (element_sets e n) =
      (if strcaseeq (el_tag e) ''flags'' then sint (atoi (el_text e)) else nt_flags n)"
  using element_text_plain [OF assms]
  by (cases "event_tag (el_tag e)";
      simp add: element_sets_def set_field_fields event_tag_def split: sum.split option.split)+

lemma fields_set_Nil: "fields_set [] n = n"
  and fields_set_snoc: "fields_set (es @ [e]) n = element_sets e (fields_set es n)"
  by (simp_all add: fields_set_def)

lemma fields_set_fields:
  assumes "list_all element_ok es"
  shows "nt_sound (fields_set es noticeCreateNotice) = text_of ''sound'' es \<and>
    nt_type (fields_set es noticeCreateNotice) =
      (case text_of ''type'' es of None \<Rightarrow> - 1 | Some s \<Rightarrow> byte_of_text s) \<and>
    nt_location (fields_set es noticeCreateNotice) =
      (case text_of ''location'' es of None \<Rightarrow> - 1 | Some s \<Rightarrow> byte_of_text s) \<and>
    nt_priority (fields_set es noticeCreateNotice) =
      (case text_of ''priority'' es of None \<Rightarrow> - 1 | Some s \<Rightarrow> byte_of_text s) \<and>
    nt_volume (fields_set es noticeCreateNotice) =
      (case text_of ''volume'' es of None \<Rightarrow> - 1 | Some s \<Rightarrow> byte_of_text s) \<and>
    nt_dither (fields_set es noticeCreateNotice) =
      (case text_of ''dither'' es of None \<Rightarrow> - 1 | Some s \<Rightarrow> byte_of_text s) \<and>
    nt_flags (fields_set es noticeCreateNotice) =
      (case text_of ''flags'' es of None \<Rightarrow> 0 | Some s \<Rightarrow> sint (atoi s))"
  using assms
  by (induction es rule: rev_induct)
    (simp_all add: fields_set_Nil fields_set_snoc text_of_Nil text_of_snoc element_sets_fields
      noticeCreateNotice_def)

lemma plain_show_nat: "plain (show_nat n)"
  using show_nat_digits [of n] by (auto simp: plain_iff intro!: plain_alnum simp: isalnum_def)

end
