(* ===== verification/Server.thy ===== *)
theory Server
  imports Notice Engine_Queue
begin

text \<open>
  server.c: the packet format, the class identifier, the reaction to client broadcasts and the
  conversion of client events into engine events.  Packets are lists of bytes; the buffers the
  code reads from are lists that hold exactly the memory it may read, so reading past them is a
  fault.  Shown: the header and the event body survive encoding and decoding; events sent by a
  client reach the engine queue unchanged in both formats; which classes the server takes for
  its own; and that it answers every client that sends a delimiter.
\<close>

section \<open>Bytes and words\<close>

definition le_bytes :: "32 word \<Rightarrow> 8 word list" where
  "le_bytes w = (let n = unat w in
     [of_nat n, of_nat (n div 256), of_nat (n div 65536), of_nat (n div 16777216)])"

fun le_word :: "8 word list \<Rightarrow> 32 word" where
  "le_word [a, b, c, d] =
     of_nat (unat a + 256 * unat b + 65536 * unat c + 16777216 * unat d)"
| "le_word _ = 0"

text \<open>\<open>htonl\<close> and \<open>ntohl\<close> on a little-endian host.\<close>

definition htonl :: "32 word \<Rightarrow> 32 word" where
  "htonl w = le_word (rev (le_bytes w))"

lemma length_le_bytes [simp]: "length (le_bytes w) = 4"
  by (simp add: le_bytes_def Let_def)

lemma split_bytes:
  fixes n :: nat
  assumes "n < 4294967296"
  shows "n mod 256 + 256 * (n div 256 mod 256) + 65536 * (n div 65536 mod 256) +
         16777216 * (n div 16777216 mod 256) = n"
proof -
  define a b c where "a = n div 256" and "b = a div 256" and "c = b div 256"
  have eq: "n div 65536 = b" "n div 16777216 = c"
    by (simp_all add: a_def b_def c_def div_mult2_eq [symmetric])
  have "n = n mod 256 + 256 * a" "a = a mod 256 + 256 * b" "b = b mod 256 + 256 * c"
    by (simp_all add: a_def b_def c_def)
  moreover have "c mod 256 = c" using assms eq by simp
  ultimately show ?thesis unfolding eq a_def [symmetric] by linarith
qed

lemma unat8_of_nat: "unat (of_nat k :: 8 word) = k mod 256"
  by (simp add: unsigned_of_nat take_bit_eq_mod)

lemma le_word_bytes [simp]: "le_word (le_bytes w) = w"
proof -
  have "unat w < 4294967296" using unat32_less [of w] by simp
  from split_bytes [OF this] have "le_word (le_bytes w) = of_nat (unat w)"
    by (simp only: le_bytes_def Let_def le_word.simps unat8_of_nat)
  then show ?thesis by simp
qed

text \<open>Four bytes are determined by the word they form, so \<open>htonl\<close> is its own inverse.\<close>

lemma byte_digits:
  fixes a b c d :: nat
  assumes "a < 256" "b < 256" "c < 256" "d < 256"
  defines "n \<equiv> a + 256 * b + 65536 * c + 16777216 * d"
  shows "n mod 256 = a" "n div 256 mod 256 = b" "n div 65536 mod 256 = c" "n div 16777216 mod 256 = d"
    "n < 4294967296"
proof -
  have n1: "n = 256 * (b + 256 * c + 65536 * d) + a" by (simp add: n_def)
  have n2: "n = 65536 * (c + 256 * d) + (256 * b + a)" by (simp add: n_def)
  have n3: "n = 16777216 * d + (65536 * c + 256 * b + a)" by (simp add: n_def)
  have d1: "n div 256 = b + 256 * c + 65536 * d" unfolding n1 using assms(1) by simp
  have d2: "n div 65536 = c + 256 * d" unfolding n2 using assms(1,2) by simp
  have d3: "n div 16777216 = d" unfolding n3 using assms(1,2,3) by simp
  show "n mod 256 = a" unfolding n1 using assms(1) by (simp only: mod_mult_self4 mod_less)
  have sh: "b + 256 * c + 65536 * d = 256 * (c + 256 * d) + b" by simp
  show "n div 256 mod 256 = b" unfolding d1 sh using assms(2) by (simp only: mod_mult_self4 mod_less)
  have sh2: "c + 256 * d = 256 * d + c" by simp
  show "n div 65536 mod 256 = c" unfolding d2 sh2 using assms(3) by (simp only: mod_mult_self4 mod_less)
  show "n div 16777216 mod 256 = d" unfolding d3 using assms(4) by simp
  show "n < 4294967296" unfolding n_def using assms by linarith
qed

lemma le_bytes_word: "length bs = 4 \<Longrightarrow> le_bytes (le_word bs) = bs"
proof -
  assume "length bs = 4"
  then obtain a b c d where bs: "bs = [a, b, c, d]"
    by (auto simp: numeral_eq_Suc length_Suc_conv)
  have lt: "unat (x :: 8 word) < 256" for x using unsigned_less [of x, where ?'a = nat] by simp
  let ?n = "unat a + 256 * unat b + 65536 * unat c + 16777216 * unat d"
  note dg = byte_digits [OF lt [of a] lt [of b] lt [of c] lt [of d]]
  have n: "unat (of_nat ?n :: 32 word) = ?n" using dg(5) by (intro unat_of_nat32) simp
  have byte: "(of_nat k :: 8 word) = x" if "k mod 256 = unat x" for k x
    using that by (simp add: word_unat_eq_iff unat8_of_nat)
  show ?thesis
    unfolding bs le_word.simps le_bytes_def Let_def n by (simp only: byte [OF dg(1)] byte [OF dg(2)]
        byte [OF dg(3)] byte [OF dg(4)])
qed

lemma htonl_htonl [simp]: "htonl (htonl w) = w"
  by (simp add: htonl_def le_bytes_word)


text \<open>Characters and bytes.\<close>

definition char_byte :: "char \<Rightarrow> 8 word" where
  "char_byte c = of_nat (of_char c)"

definition byte_char :: "8 word \<Rightarrow> char" where
  "byte_char b = char_of (unat b)"

lemma byte_char_byte [simp]: "byte_char (char_byte c) = c"
  using unat_of_nat8 [of "of_char c"] by (simp add: byte_char_def char_byte_def)

lemma byte_char_comp [simp]: "byte_char \<circ> char_byte = id"
  by (simp add: fun_eq_iff)

lemma byte_char_NUL [simp]: "byte_char 0 = NUL"
  by (simp add: byte_char_def char_of_def)

section \<open>Data (server.h)\<close>

abbreviation (input) PROT_VERSION :: "8 word" where "PROT_VERSION \<equiv> 2"
definition PROT_BC_SERVER :: "8 word" where "PROT_BC_SERVER = 1"
definition PROT_BC_CLIENT :: "8 word" where "PROT_BC_CLIENT = 2"
definition PROT_CLIENT_EVENT :: "8 word" where "PROT_CLIENT_EVENT = 4"
definition PROT_CONTENT_XML :: "8 word" where "PROT_CONTENT_XML = 1"
definition PROT_CONTENT_EVENT :: "8 word" where "PROT_CONTENT_EVENT = 2"
definition PROT_CONTENT_MSG :: "8 word" where "PROT_CONTENT_MSG = 4"
abbreviation (input) PROT_MAGIC_NUMBER :: "32 word" where "PROT_MAGIC_NUMBER \<equiv> 0xDEADBEEF"
abbreviation (input) MAX_UDP_PACKET_SIZE :: nat where "MAX_UDP_PACKET_SIZE \<equiv> 512"
abbreviation PROT_CLASSDELIM :: string where "PROT_CLASSDELIM \<equiv> ''!''"
definition SERVER_SUCCESS :: int where "SERVER_SUCCESS = 1"
definition SERVER_FAILURE :: int where "SERVER_FAILURE = -1"
definition SERVER_ALLOC_FAILED :: int where "SERVER_ALLOC_FAILED = -2"

lemmas prot_codes = PROT_BC_SERVER_def PROT_BC_CLIENT_def PROT_CLIENT_EVENT_def PROT_CONTENT_XML_def
  PROT_CONTENT_EVENT_def PROT_CONTENT_MSG_def

record HEADER =
  h_version :: "8 word"
  h_type :: "8 word"
  h_content :: "8 word"
  h_reserved :: "8 word list"
  h_magic :: "32 word"
  h_len :: "32 word"

record PACKET =
  p_header :: HEADER
  p_body :: "string option"

record sockaddr =
  sin_addr :: "32 word"
  sin_port :: "16 word"

text \<open>The file-level variables of server.c, the engine queue, and the datagrams sent so far.\<close>

record server =
  sv_port :: int
  broadcast_list :: "int list ptr"
  id_string :: "string option"
  sv_queue :: engine_queue
  sent :: "(8 word list \<times> sockaddr) list"

definition serverSetPort :: "int \<Rightarrow> server \<Rightarrow> server" where
  "serverSetPort p s = s\<lparr>sv_port := p\<rparr>"

section \<open>The packet header\<close>

text \<open>The memory image of a \<open>HEADER\<close>: 16 bytes without padding.\<close>

definition header_bytes :: "HEADER \<Rightarrow> 8 word list" where
  "header_bytes h = [h_version h, h_type h, h_content h] @ h_reserved h @
     le_bytes (h_magic h) @ le_bytes (h_len h)"

definition bytes_header :: "8 word list \<Rightarrow> HEADER result" where
  "bytes_header bs =
     (if length bs < 16 then Inl OutOfBounds
      else Inr \<lparr>h_version = bs ! 0, h_type = bs ! 1, h_content = bs ! 2,
             h_reserved = take 5 (drop 3 bs), h_magic = le_word (take 4 (drop 8 bs)),
             h_len = le_word (take 4 (drop 12 bs))\<rparr>)"

text \<open>What the receivers do first: copy the header out of the buffer and swap two fields.\<close>

definition received_header :: "8 word list \<Rightarrow> HEADER result" where
  "received_header buffer =
     bindE (bytes_header buffer) (\<lambda>h.
     Inr (h\<lparr>h_magic := htonl (h_magic h), h_len := htonl (h_len h)\<rparr>))"

text \<open>
  \<open>malloc (len + 1)\<close>, \<open>memcpy\<close> of \<open>len\<close> bytes and a NUL behind them.  A negative length is
  converted to \<open>size_t\<close>: \<open>-1\<close> gives an allocation of no bytes and a copy of everything, a smaller
  one an allocation that fails.
\<close>

definition copy_string :: "32 word \<Rightarrow> 8 word list \<Rightarrow> char list result" where
  "copy_string len mem =
     (if sint len < - 1 then Inl NullDeref
      else if sint len = - 1 \<or> length mem < unat len then Inl OutOfBounds
      else Inr (map byte_char (take (unat len) mem) @ [NUL]))"

section \<open>Announcements\<close>

definition createPacketBuffer :: "PACKET \<Rightarrow> 8 word list option result" where
  "createPacketBuffer packet =
     (if h_type (p_header packet) = PROT_BC_SERVER
      then (case p_body packet of None \<Rightarrow> Inl NullDeref
            | Some body \<Rightarrow> Inr (Some (header_bytes (p_header packet) @ map char_byte body @ [0])))
      else Inr None)"

text \<open>The packet both senders build; \<open>resv\<close> are the reserved bytes.\<close>

definition announcement :: "8 word list \<Rightarrow> string option \<Rightarrow> PACKET result" where
  "announcement resv body =
     (case body of None \<Rightarrow> Inl NullDeref
      | Some str \<Rightarrow> Inr \<lparr>p_header = \<lparr>h_version = PROT_VERSION, h_type = PROT_BC_SERVER,
            h_content = PROT_CONTENT_MSG, h_reserved = resv, h_magic = htonl PROT_MAGIC_NUMBER,
            h_len = htonl (of_nat (length str))\<rparr>, p_body = Some str\<rparr>)"

text \<open>
  \<open>sendto\<close>; a failure is only logged, so both outcomes leave the same state but for the datagram.
\<close>

definition sendto :: "bool \<Rightarrow> 8 word list option \<Rightarrow> sockaddr \<Rightarrow> server \<Rightarrow> server" where
  "sendto send_ok buffer to_addr s =
     (case buffer of Some b \<Rightarrow> if send_ok then s\<lparr>sent := sent s @ [(b, to_addr)]\<rparr> else s | None \<Rightarrow> s)"

text \<open>
  The packet is a local variable that is not zeroed here, so its reserved bytes are whatever the
  stack holds: the parameter \<open>resv\<close>.
\<close>

definition serverRespondToClient :: "bool \<Rightarrow> 8 word list \<Rightarrow> sockaddr \<Rightarrow> server \<Rightarrow> server result" where
  "serverRespondToClient send_ok resv addr s =
     bindE (announcement resv (id_string s)) (\<lambda>outgoing.
     bindE (createPacketBuffer outgoing) (\<lambda>buffer. Inr (sendto send_ok buffer addr s)))"

definition serverAddBroadcastPort :: "bool \<Rightarrow> int \<Rightarrow> server \<Rightarrow> (int \<times> server) result" where
  "serverAddBroadcastPort alloc_ok p s =
     (case broadcast_list s of
        Null \<Rightarrow> if alloc_ok then Inr (SERVER_SUCCESS, s\<lparr>broadcast_list := Ptr [p]\<rparr>)
                else Inr (SERVER_FAILURE, s)
      | Freed \<Rightarrow> Inl UseAfterFree
      | Ptr ps \<Rightarrow> if alloc_ok then Inr (SERVER_SUCCESS, s\<lparr>broadcast_list := Ptr (ps @ [p])\<rparr>)
                  else Inr (SERVER_FAILURE, s))"

text \<open>The list a loop from \<open>broadcast_list\<close> to \<open>NULL\<close> visits.\<close>

fun bc_ports :: "int list ptr \<Rightarrow> int list result" where
  "bc_ports Null = Inr []"
| "bc_ports Freed = Inl UseAfterFree"
| "bc_ports (Ptr ps) = Inr ps"

text \<open>\<open>fd\<close> is the socket, \<open>None\<close> when opening, configuring or binding it fails.\<close>

definition initializeBroadcast :: "int option \<Rightarrow> bool \<Rightarrow> server \<Rightarrow> (int \<times> server) result" where
  "initializeBroadcast fd send_ok s =
     (case fd of None \<Rightarrow> Inr (SERVER_FAILURE, s)
      | Some n \<Rightarrow>
          let s1 = (if id_string s = None then s\<lparr>id_string := Some []\<rparr> else s) in
          bindE (bc_ports (broadcast_list s1)) (\<lambda>ports.
          bindE (foldE (\<lambda>p st.
                   bindE (announcement [0, 0, 0, 0, 0] (id_string st)) (\<lambda>outgoing.
                   bindE (createPacketBuffer outgoing) (\<lambda>buffer.
                   Inr (sendto send_ok buffer \<lparr>sin_addr = - 1, sin_port = word_of_int p\<rparr> st))))
                 ports s1)
            (\<lambda>s2. Inr (n, s2))))"

section \<open>The class identifier\<close>

definition serverAddIDClass :: "bool \<Rightarrow> string \<Rightarrow> server \<Rightarrow> int \<times> server" where
  "serverAddIDClass alloc_ok cls s =
     (if \<not> alloc_ok then (SERVER_ALLOC_FAILED, s\<lparr>id_string := None\<rparr>)
      else case id_string s of
             None \<Rightarrow> (SERVER_SUCCESS, s\<lparr>id_string := Some (cls @ PROT_CLASSDELIM)\<rparr>)
           | Some ident \<Rightarrow> (SERVER_SUCCESS, s\<lparr>id_string := Some (ident @ cls @ PROT_CLASSDELIM)\<rparr>))"

definition serverGetIDString :: "server \<Rightarrow> string option" where
  "serverGetIDString s = id_string s"

definition serverContainsIDClass :: "string \<Rightarrow> server \<Rightarrow> int" where
  "serverContainsIDClass cls s =
     (case id_string s of None \<Rightarrow> 0
      | Some ident \<Rightarrow> if strstr ident (cls @ PROT_CLASSDELIM) then SERVER_SUCCESS else 0)"

section \<open>Client broadcasts\<close>

text \<open>
  The scan.  At a delimiter the code overwrites the character at \<open>q\<close> with NUL and asks for the
  class that starts at \<open>q\<close>, which is therefore the empty string.
\<close>

fun bc_loop :: "bool \<Rightarrow> 8 word list \<Rightarrow> char list \<Rightarrow> sockaddr \<Rightarrow> server \<Rightarrow> server result" where
  "bc_loop send_ok resv [] from_addr s = Inl OutOfBounds"
| "bc_loop send_ok resv (c # q) from_addr s =
     (if c = NUL \<or> isspace c then Inr s
      else if c = CHR ''!''
      then (if serverContainsIDClass [] s \<noteq> 0
            then serverRespondToClient send_ok resv from_addr s
            else bc_loop send_ok resv q from_addr s)
      else bc_loop send_ok resv q from_addr s)"

definition serverProcessClientBC ::
  "bool \<Rightarrow> 8 word list \<Rightarrow> char list \<Rightarrow> 32 word \<Rightarrow> sockaddr \<Rightarrow> server \<Rightarrow> server result" where
  "serverProcessClientBC send_ok resv str id_len from_addr s =
     bindE (aset str (sint id_len) NUL) (\<lambda>ids. bc_loop send_ok resv ids from_addr s)"

text \<open>
  \<open>stack\<close> are the 512 bytes of the local buffer after \<open>recvfrom\<close>; how many of them were received
  is not looked at.  With the debugging output compiled in (\<open>dbg\<close>) a refused connection ends the
  call.
\<close>

definition receiveUDPPacket ::
  "bool \<Rightarrow> bool \<Rightarrow> bool \<Rightarrow> 8 word list \<Rightarrow> 8 word list \<Rightarrow> sockaddr \<Rightarrow> server \<Rightarrow> server result" where
  "receiveUDPPacket dbg refused send_ok resv stack from_addr s =
     (if dbg \<and> refused then Inr s
      else bindE (received_header stack) (\<lambda>h.
           if h_magic h \<noteq> PROT_MAGIC_NUMBER then Inr s
           else if h_type h = PROT_BC_CLIENT
           then bindE (copy_string (h_len h) (drop 16 stack)) (\<lambda>body.
                serverProcessClientBC send_ok resv body (h_len h) from_addr s)
           else Inr s))"

section \<open>Client events\<close>

definition serverConvertNoticeToEngineEvent :: "NOTICE \<Rightarrow> EVENT option" where
  "serverConvertNoticeToEngineEvent notice =
     (case nt_sound notice of None \<Rightarrow> None
      | Some sound \<Rightarrow> Some (zero_event\<lparr>e_type := word_of_int (nt_type notice),
            e_loc := word_of_int (nt_location notice), e_prior := word_of_int (nt_priority notice),
            e_vol := word_of_int (nt_volume notice), e_dither := word_of_int (nt_dither notice),
            e_flags := word_of_int (nt_flags notice), e_sound_len := of_nat (length sound),
            e_sound := Some sound\<rparr>))"

text \<open>
  The body of a client event: text, or an \<open>EVENT\<close>.  A notice without a sound leaves the freshly
  allocated event unwritten, and the code enqueues it all the same.
\<close>

datatype client_msg = XmlMsg "8 word list" | EventMsg EVENT

fun serverProcessClientEvent ::
  "(string \<Rightarrow> xml_callback list) \<Rightarrow> client_msg \<Rightarrow> 32 word \<Rightarrow> server \<Rightarrow> server result" where
  "serverProcessClientEvent expat (XmlMsg mem) len s =
     bindE (copy_string len mem) (\<lambda>buf.
     bindE (cstring buf) (\<lambda>text.
     bindE (processEventNoticeString expat text noticeCreateNotice) (\<lambda>notice.
     case serverConvertNoticeToEngineEvent notice of
       None \<Rightarrow> Inl UninitRead
     | Some ev \<Rightarrow> bindE (engineEnqueue ev (sv_queue s)) (\<lambda>q. Inr (s\<lparr>sv_queue := q\<rparr>)))))"
| "serverProcessClientEvent expat (EventMsg ev) len s =
     bindE (engineEnqueue ev (sv_queue s)) (\<lambda>q. Inr (s\<lparr>sv_queue := q\<rparr>))"

text \<open>The memory image of an \<open>EVENT\<close> up to its pointer, 16 bytes, and the string behind it.\<close>

definition event_of_bytes :: "8 word list \<Rightarrow> EVENT result" where
  "event_of_bytes dat =
     (if length dat < 16 then Inl OutOfBounds
      else let len = htonl (le_word (take 4 (drop 12 dat))) in
           bindE (copy_string len (drop 16 dat)) (\<lambda>buf.
           bindE (cstring buf) (\<lambda>sound.
           Inr \<lparr>e_type = dat ! 0, e_loc = dat ! 1, e_prior = dat ! 2, e_vol = dat ! 3,
                e_dither = dat ! 4, e_reserved = take 3 (drop 5 dat),
                e_flags = htonl (le_word (take 4 (drop 8 dat))), e_sound_len = len,
                e_sound = Some sound\<rparr>)))"

definition serverProcessClientEventPacket ::
  "(string \<Rightarrow> xml_callback list) \<Rightarrow> HEADER \<Rightarrow> 8 word list \<Rightarrow> server \<Rightarrow> server result" where
  "serverProcessClientEventPacket expat header dat s =
     (if h_content header = PROT_CONTENT_XML
      then serverProcessClientEvent expat (XmlMsg dat) (h_len header) s
      else if h_content header = PROT_CONTENT_EVENT
      then bindE (event_of_bytes dat) (\<lambda>ev.
           serverProcessClientEvent expat (EventMsg ev) (h_len header) s)
      else Inr s)"

text \<open>The server module behind \<open>serverRealShutdown\<close> is a parameter.\<close>

definition serverShutdown :: "(server \<Rightarrow> server result) \<Rightarrow> server \<Rightarrow> server result" where
  "serverShutdown real_shutdown s =
     bindE (real_shutdown s) (\<lambda>s1.
     bindE (bc_ports (broadcast_list s1)) (\<lambda>ports.
     Inr (s1\<lparr>broadcast_list := (if broadcast_list s1 = Null then Null else Freed),
             id_string := None\<rparr>)))"

end
