(* ===== verification/Parser_Load.thy ===== *)
theory Parser_Load
  imports Mixer_Chunk Server "HOL-Library.List_Lexorder"
begin

text \<open>
  parser.c, the lower half: reading lines, tokens, directory names, the import stack, listing a
  directory and loading the sounds in it into the sound table and the mixer.  The file system is
  an argument: the contents of the files that can be opened and the listings of the directories.
  Allocation is taken to succeed.
\<close>

section \<open>Data (parser.h, parser.c, xml_theme.h)\<close>

definition PARSER_SUCCESS :: int where "PARSER_SUCCESS = 1"
definition PARSER_FAILURE :: int where "PARSER_FAILURE = -1"
definition PARSER_GENERAL_ERROR :: int where "PARSER_GENERAL_ERROR = -2"
definition PARSER_CLASS_ERROR :: int where "PARSER_CLASS_ERROR = -3"
definition PARSER_EVENT_ERROR :: int where "PARSER_EVENT_ERROR = -4"
definition PARSER_STATE_ERROR :: int where "PARSER_STATE_ERROR = -5"
definition PARSER_IMPORT_ERROR :: int where "PARSER_IMPORT_ERROR = -6"
definition PARSER_THEME_ERROR :: int where "PARSER_THEME_ERROR = -7"
definition PARSER_ALREADY_ALLOC :: int where "PARSER_ALREADY_ALLOC = -8"

lemmas parser_codes = PARSER_SUCCESS_def PARSER_FAILURE_def PARSER_GENERAL_ERROR_def
  PARSER_CLASS_ERROR_def PARSER_EVENT_ERROR_def PARSER_STATE_ERROR_def PARSER_IMPORT_ERROR_def
  PARSER_THEME_ERROR_def PARSER_ALREADY_ALLOC_def

abbreviation (input) PARSER_BUFFER_LEN :: nat where "PARSER_BUFFER_LEN \<equiv> 1024"
abbreviation PARSER_COMMENT :: char where "PARSER_COMMENT \<equiv> CHR ''#''"
abbreviation PARSER_PATH_SEP :: char where "PARSER_PATH_SEP \<equiv> CHR ''/''"

record tok =
  token :: string
  remainder :: "string option"

record trans_table =
  tt_name :: "string option"
  tt_path :: "string option"

record filesys =
  fs_read :: "string \<Rightarrow> string option"
  fs_dir :: "string \<Rightarrow> string list option"

text \<open>
  The static variables of parser.c and xml_theme.c, with the mixer and sound table (\<open>ps_w\<close>) and
  the server (\<open>ps_sv\<close>) they fill.  The import stack is the array up to its \<open>NULL\<close>.
\<close>

record parser =
  ps_w :: world
  ps_sv :: server
  ps_sound_path :: "string ptr"
  ps_event_cnt :: int
  ps_state_cnt :: int
  ps_imports :: "string list ptr"
  ps_trans :: "trans_table list"

text \<open>The variables before anything has been initialised.\<close>

definition world_static :: world where
  "world_static = \<lparr>ebuffs = Null, no_ebuffs = 0, sbuffs = Null, no_sbuffs = 0, mixer_loaded_states = 0,
     dyn_mul = Null, dyn_buf_cnt = 0, chunk_size = 0, out_buf = Null, mlock = False, lin_fade = Null,
     mqueue = mixer_queue_static, stable = Null, sched = Null, tlock = False, rand_in = (\<lambda>_. 0),
     clock_in = (\<lambda>_. \<lparr>tv_sec = 0, tv_usec = 0\<rparr>)\<rparr>"

definition parser_static :: parser where
  "parser_static = \<lparr>ps_w = world_static,
     ps_sv = \<lparr>sv_port = 0, broadcast_list = Null, id_string = None, sv_queue = engine_queue_static, sent = []\<rparr>,
     ps_sound_path = Null, ps_event_cnt = 0, ps_state_cnt = 0, ps_imports = Null, ps_trans = []\<rparr>"

section \<open>Lines and tokens\<close>

text \<open>\<open>fgets\<close> with a buffer of \<open>PARSER_BUFFER_LEN\<close> bytes: a line with its end, or its first 1023 bytes.\<close>

fun take_line :: "nat \<Rightarrow> string \<Rightarrow> string \<times> string" where
  "take_line 0 s = ([], s)"
| "take_line (Suc n) [] = ([], [])"
| "take_line (Suc n) (c # s) =
     (if c = NL then ([c], s) else (let (l, r) = take_line n s in (c # l, r)))"

definition fgets :: "string \<Rightarrow> (string \<times> string) option" where
  "fgets f = (if f = [] then None else Some (take_line (PARSER_BUFFER_LEN - 1) f))"

text \<open>The buffer as a C string.\<close>

definition buf_str :: "string \<Rightarrow> string" where
  "buf_str l = takeWhile (\<lambda>c. c \<noteq> NUL) l"

text \<open>
  The token and what follows it; at the end of the line the remainder is \<open>NULL\<close>, and the next call
  reads through it.
\<close>

definition parserTokenize :: "string option \<Rightarrow> tok result" where
  "parserTokenize rm =
     (case rm of None \<Rightarrow> Inl NullDeref
      | Some s \<Rightarrow>
          let p = dropWhile isspace s; t = takeWhile (\<lambda>c. \<not> isspace c) p;
              q = dropWhile (\<lambda>c. \<not> isspace c) p in
          Inr \<lparr>token = t, remainder = (if q = [] then None else Some (dropWhile isspace (tl q)))\<rparr>)"

definition is_comment :: "string \<Rightarrow> bool" where
  "is_comment t \<longleftrightarrow> t \<noteq> [] \<and> hd t = PARSER_COMMENT"

section \<open>Paths\<close>

definition parserDirname :: "string \<Rightarrow> string option" where
  "parserDirname path =
     (if PARSER_PATH_SEP \<in> set path
      then Some (rev (tl (dropWhile (\<lambda>c. c \<noteq> PARSER_PATH_SEP) (rev path)))) else None)"

definition parserImportStackAdd :: "string \<Rightarrow> parser \<Rightarrow> (int \<times> parser) result" where
  "parserImportStackAdd dir s =
     bindE (pget (if ps_imports s = Null then Ptr [] else ps_imports s)) (\<lambda>st.
     let s1 = s\<lparr>ps_imports := Ptr st\<rparr> in
     if \<exists>d\<in>set st. strcaseeq dir d then Inr (PARSER_ALREADY_ALLOC, s1)
     else Inr (PARSER_SUCCESS, s1\<lparr>ps_imports := Ptr (st @ [dir])\<rparr>))"

definition parserInit :: "parser \<Rightarrow> parser result" where
  "parserInit s =
     (if ps_imports s = Null then bindE (parserImportStackAdd ''./'' s) (\<lambda>(r, s1). Inr s1) else Inr s)"

text \<open>The pointers are not reset.\<close>

definition parserDestroy :: "parser \<Rightarrow> parser result" where
  "parserDestroy s =
     bindE (if ps_imports s = Null then Inr (ps_imports s) else pfree (ps_imports s)) (\<lambda>i.
     bindE (if ps_sound_path s = Null then Inr (ps_sound_path s) else pfree (ps_sound_path s)) (\<lambda>p.
     Inr (s\<lparr>ps_imports := i, ps_sound_path := p\<rparr>)))"

fun import_search :: "filesys \<Rightarrow> string list \<Rightarrow> string \<Rightarrow> string option" where
  "import_search fs [] file = None"
| "import_search fs (d # ds) file =
     (case fs_read fs (d @ [PARSER_PATH_SEP] @ file) of
        Some f \<Rightarrow> Some f | None \<Rightarrow> import_search fs ds file)"

definition parserImportConfig :: "filesys \<Rightarrow> string \<Rightarrow> parser \<Rightarrow> string option result" where
  "parserImportConfig fs file s = bindE (pget (ps_imports s)) (\<lambda>ds. Inr (import_search fs ds file))"

section \<open>Directories and sound files\<close>

text \<open>\<open>strcmp\<close> compares bytes as unsigned numbers; the comparison function reverses it.\<close>

definition parserScanCompar :: "string \<Rightarrow> string \<Rightarrow> bool" where
  "parserScanCompar d1 d2 \<longleftrightarrow> map code d2 \<le> map code d1"

text \<open>\<open>qsort\<close> with that comparison: a descending list.  Equal names are equal, so the order is unique.\<close>

definition parserScanDir :: "filesys \<Rightarrow> string \<Rightarrow> string list option" where
  "parserScanDir fs dir = map_option (\<lambda>es. rev (sort_key (map code) es)) (fs_dir fs dir)"

definition parserGetFileSize :: "filesys \<Rightarrow> string \<Rightarrow> int" where
  "parserGetFileSize fs path = (case fs_read fs path of None \<Rightarrow> - 1 | Some f \<Rightarrow> int (length f))"

text \<open>Two bytes per sample, the low one first; a last odd byte is not read.\<close>

fun read_samples :: "nat \<Rightarrow> string \<Rightarrow> samples" where
  "read_samples (Suc n) (a # b # f) = of_nat (code a + 256 * code b) # read_samples n f"
| "read_samples n f = []"

definition parserLoadSoundFile :: "filesys \<Rightarrow> string \<Rightarrow> samples option" where
  "parserLoadSoundFile fs path =
     (case fs_read fs path of None \<Rightarrow> None
      | Some f \<Rightarrow> Some (read_samples (nat (parserGetFileSize fs path div 2)) f))"

definition dot_name :: "string \<Rightarrow> bool" where
  "dot_name nm \<longleftrightarrow> strcaseeq nm ''..'' \<or> strcaseeq nm ''.''"

text \<open>The loop over the listing, from its end; \<open>None\<close>: a sound could not be loaded.\<close>

fun event_dir_loop ::
  "filesys \<Rightarrow> string \<Rightarrow> string list \<Rightarrow> int \<Rightarrow> EVENT_ENTRY option \<Rightarrow> EVENT_ENTRY option option result" where
  "event_dir_loop fs dir [] index entry = Inr (Some entry)"
| "event_dir_loop fs dir (nm # ns) index entry =
     (if dot_name nm then event_dir_loop fs dir ns index entry
      else case parserLoadSoundFile fs (dir @ ''/'' @ nm) of
             None \<Rightarrow> Inr None
           | Some smp \<Rightarrow>
               bindE (engineEventEntryAssignSnd entry index (Some smp) (of_nat (length smp))) (\<lambda>(r, e).
               event_dir_loop fs dir ns (index + 1) e))"

text \<open>
  A listing always has \<open>.\<close> and \<open>..\<close>, which \<open>snd_cnt - 2\<close> relies on; a shorter one, where the size
  would be negative and the allocation fail, is a fault of the model.
\<close>

definition parserLoadEventSndDir :: "filesys \<Rightarrow> string \<Rightarrow> string \<Rightarrow> parser \<Rightarrow> (int \<times> parser) result" where
  "parserLoadEventSndDir fs name snd_path s =
     (case parserScanDir fs snd_path of None \<Rightarrow> Inr (0, s)
      | Some namelist \<Rightarrow>
          if length namelist < 2 then Inl NullDeref
          else bindE (event_dir_loop fs snd_path (rev namelist) 0
                        (engineAllocEventEntry True (length namelist - 2))) (\<lambda>r.
               case r of None \<Rightarrow> Inr (0, s)
               | Some None \<Rightarrow> Inl NullDeref
               | Some (Some entry) \<Rightarrow>
                   let s1 = s\<lparr>ps_event_cnt := ps_event_cnt s + 1\<rparr> in
                   bindE (engineSoundTableInsertEvent True name entry (stable (ps_w s1))) (\<lambda>(rc, tab).
                   Inr (PARSER_SUCCESS, s1\<lparr>ps_w := (ps_w s1)\<lparr>stable := tab\<rparr>\<rparr>))))"

fun state_dir_loop ::
  "filesys \<Rightarrow> string \<Rightarrow> string list \<Rightarrow> nat \<Rightarrow> nat \<Rightarrow> nat \<Rightarrow> world \<Rightarrow> (bool \<times> world) result" where
  "state_dir_loop fs dir [] st th index w = Inr (True, w)"
| "state_dir_loop fs dir (nm # ns) st th index w =
     (if dot_name nm then state_dir_loop fs dir ns st th index w
      else case parserLoadSoundFile fs (dir @ ''/'' @ nm) of
             None \<Rightarrow> Inr (False, w)
           | Some smp \<Rightarrow>
               bindE (mixerAddState st th index (Some smp) (of_nat (length smp)) w) (\<lambda>(r, w1).
               state_dir_loop fs dir ns st th (index + 1) w1))"

text \<open>The results of the mixer's functions are ignored, as in the code.\<close>

definition parserLoadStateSndDir ::
  "filesys \<Rightarrow> nat \<Rightarrow> real \<Rightarrow> real \<Rightarrow> string \<Rightarrow> real \<Rightarrow> parser \<Rightarrow> (int \<times> parser) result" where
  "parserLoadStateSndDir fs thresh_cnt lb hb snd_path fade s =
     (let st = unat (word_of_int (ps_state_cnt s) :: 32 word) in
      if st \<ge> unat (mixerSBuffs (ps_w s)) then Inr (0, s\<lparr>ps_state_cnt := ps_state_cnt s + 1\<rparr>)
      else case parserScanDir fs snd_path of None \<Rightarrow> Inr (0, s)
      | Some namelist \<Rightarrow>
          if length namelist < 2 then Inl NullDeref
          else bindE (mixerAddStateThreshold True st thresh_cnt lb hb (length namelist - 2) (ps_w s)) (\<lambda>(r, w).
               bindE (state_dir_loop fs snd_path (rev namelist) st thresh_cnt 0 w) (\<lambda>(ok, w1).
               if \<not> ok then Inr (0, s\<lparr>ps_w := w1\<rparr>)
               else bindE (mixerSetFadeTime st fade w1) (\<lambda>(r2, w2).
                    Inr (PARSER_SUCCESS, s\<lparr>ps_w := w2\<rparr>)))))"

end
