(* ===== verification/Xml_Theme.thy ===== *)
theory Xml_Theme
  imports Parser_Load
begin

text \<open>
  xml_theme.c: loading a theme in two passes over the same XML text.  The first pass collects the
  definitions of sounds into the translation table and counts the thresholds of every state; the
  second loads events and states.  As for notices, expat is represented by the callbacks it makes
  and by whether it reports an error at the end.
\<close>

section \<open>Data (xml_theme.h)\<close>

definition XML_PARSER_SUCCESS :: int where "XML_PARSER_SUCCESS = 1"
definition XML_PARSER_FAILURE :: int where "XML_PARSER_FAILURE = 0"

datatype theme_context =
  NO_CONTEXT | SOUNDS_CONTEXT | SOUND_CONTEXT | EVENT_CONTEXT | STATE_CONTEXT | THRESHOLD_CONTEXT

text \<open>The array of threshold counts, with elements that may never have been written.\<close>

type_synonym counts = "int option list option"

fun count_at :: "counts \<Rightarrow> int \<Rightarrow> int result" where
  "count_at None i = Inl NullDeref"
| "count_at (Some cs) i = bindE (aget cs i) (\<lambda>c. case c of None \<Rightarrow> Inl UninitRead | Some n \<Rightarrow> Inr n)"

text \<open>
  \<open>cur_ent\<close> is not kept: new entries are put at the head of the table and none is removed during the
  first pass, so the current entry is the head.
\<close>

record FIRST_PASS_INFO =
  fp_sound_path :: "string ptr"
  fp_context :: theme_context
  fp_tag :: string
  fp_thresholds :: counts
  fp_states :: int

record SECOND_PASS_INFO =
  sp_tag :: string
  sp_context :: theme_context
  sp_name :: "string option"
  sp_path :: "string option"
  sp_thresholds :: counts
  sp_thresh_cnt :: int
  sp_thresh_index :: int
  sp_l_bound :: real
  sp_h_bound :: real
  sp_fade :: real

section \<open>The translation table\<close>

definition xmlThemeCreateTransEntry :: "trans_table list \<Rightarrow> trans_table list" where
  "xmlThemeCreateTransEntry tab = \<lparr>tt_name = None, tt_path = None\<rparr> # tab"

text \<open>
  The loop.  \<open>seen\<close> are the entries before \<open>ent\<close>, so \<open>prev\<close> is the last of them.  Removing the head
  sets the table to \<open>NULL\<close>.
\<close>

fun lookup_loop :: "trans_table list \<Rightarrow> trans_table list \<Rightarrow> string \<Rightarrow> (string option \<times> trans_table list) result" where
  "lookup_loop seen [] name = Inr (None, seen)"
| "lookup_loop seen (ent # rest) name =
     (case tt_name ent of
        Some nm \<Rightarrow>
          if strcaseeq nm name
          then (case tt_path ent of None \<Rightarrow> Inl NullDeref
                | Some path \<Rightarrow> Inr (Some path, if seen \<noteq> [] then seen @ rest else []))
          else lookup_loop (seen @ [ent]) rest name
      | None \<Rightarrow> lookup_loop (seen @ [ent]) rest name)"

definition xmlThemeLookupTransPath :: "string \<Rightarrow> parser \<Rightarrow> (string option \<times> parser) result" where
  "xmlThemeLookupTransPath name s =
     bindE (lookup_loop [] (ps_trans s) name) (\<lambda>(p, tab). Inr (p, s\<lparr>ps_trans := tab\<rparr>))"

section \<open>The first pass\<close>

definition xmlParseFirstPassStart ::
  "string \<Rightarrow> FIRST_PASS_INFO \<times> parser \<Rightarrow> (FIRST_PASS_INFO \<times> parser) result" where
  "xmlParseFirstPassStart tag_name = (\<lambda>(i0, s).
     let i = i0\<lparr>fp_tag := tag_name\<rparr> in
     if strcaseeq tag_name ''sounds'' then Inr (i\<lparr>fp_context := SOUNDS_CONTEXT\<rparr>, s)
     else if fp_context i = SOUNDS_CONTEXT \<and> strcaseeq tag_name ''sound''
     then Inr (i\<lparr>fp_context := SOUND_CONTEXT\<rparr>, s\<lparr>ps_trans := xmlThemeCreateTransEntry (ps_trans s)\<rparr>)
     else if strcaseeq tag_name ''states'' then Inr (i\<lparr>fp_context := STATE_CONTEXT\<rparr>, s)
     else if fp_context i = STATE_CONTEXT \<and> strcaseeq tag_name ''state''
     then let old = (case fp_thresholds i of None \<Rightarrow> [] | Some cs \<Rightarrow> cs);
              n = nat (fp_states i) + 1;
              new = take n (old @ replicate n None) in
          Inr (i\<lparr>fp_thresholds := Some (new[nat (fp_states i) := Some 0])\<rparr>, s)
     else if fp_context i = STATE_CONTEXT \<and> strcaseeq tag_name ''threshold''
     then bindE (count_at (fp_thresholds i) (fp_states i)) (\<lambda>c.
          Inr (i\<lparr>fp_thresholds := map_option (\<lambda>cs. cs[nat (fp_states i) := Some (c + 1)]) (fp_thresholds i)\<rparr>, s))
     else Inr (i, s))"

definition xmlParseFirstPassEnd ::
  "string \<Rightarrow> FIRST_PASS_INFO \<times> parser \<Rightarrow> (FIRST_PASS_INFO \<times> parser) result" where
  "xmlParseFirstPassEnd tag_name = (\<lambda>(i, s).
     if strcaseeq tag_name ''sounds'' then Inr (i\<lparr>fp_context := NO_CONTEXT\<rparr>, s)
     else if fp_context i = SOUND_CONTEXT \<and> strcaseeq tag_name ''sound''
     then Inr (i\<lparr>fp_context := SOUNDS_CONTEXT\<rparr>, s)
     else if strcaseeq tag_name ''states'' then Inr (i\<lparr>fp_context := NO_CONTEXT\<rparr>, s)
     else if strcaseeq tag_name ''state'' then Inr (i\<lparr>fp_states := fp_states i + 1\<rparr>, s)
     else Inr (i, s))"

text \<open>Writing to the current entry.\<close>

fun upd_head :: "('a \<Rightarrow> 'a) \<Rightarrow> 'a list \<Rightarrow> 'a list result" where
  "upd_head f [] = Inl NullDeref"
| "upd_head f (x # xs) = Inr (f x # xs)"

text \<open>The members only kept for the debugging output are left out.\<close>

definition xmlParseFirstPassChar ::
  "char list \<Rightarrow> nat \<Rightarrow> FIRST_PASS_INFO \<times> parser \<Rightarrow> (FIRST_PASS_INFO \<times> parser) result" where
  "xmlParseFirstPassChar mem len = (\<lambda>(i, s).
     bindE (createXmlNormalizedString mem len) (\<lambda>r.
     case r of None \<Rightarrow> Inr (i, s)
     | Some str \<Rightarrow>
         if fp_context i \<noteq> SOUND_CONTEXT then Inr (i, s)
         else if strcaseeq (fp_tag i) ''name''
         then bindE (upd_head (\<lambda>e. e\<lparr>tt_name := Some str\<rparr>) (ps_trans s)) (\<lambda>tab. Inr (i, s\<lparr>ps_trans := tab\<rparr>))
         else if strcaseeq (fp_tag i) ''path''
         then bindE (pget (fp_sound_path i)) (\<lambda>sp.
              bindE (upd_head (\<lambda>e. e\<lparr>tt_path := Some (sp @ str)\<rparr>) (ps_trans s)) (\<lambda>tab. Inr (i, s\<lparr>ps_trans := tab\<rparr>)))
         else Inr (i, s)))"

fun first_pass :: "xml_callback \<Rightarrow> FIRST_PASS_INFO \<times> parser \<Rightarrow> (FIRST_PASS_INFO \<times> parser) result" where
  "first_pass (XStart t) = xmlParseFirstPassStart t"
| "first_pass (XEnd t) = xmlParseFirstPassEnd t"
| "first_pass (XChar mem len) = xmlParseFirstPassChar mem len"

section \<open>The second pass\<close>

text \<open>\<open>*info->state_cnt\<close> as the unsigned index the mixer takes.\<close>

definition state_index :: "parser \<Rightarrow> nat" where
  "state_index s = unat (word_of_int (ps_state_cnt s) :: 32 word)"

definition xmlParseSecondPassStart ::
  "string \<Rightarrow> SECOND_PASS_INFO \<times> parser \<Rightarrow> (SECOND_PASS_INFO \<times> parser) result" where
  "xmlParseSecondPassStart tag_name = (\<lambda>(i0, s).
     let i = i0\<lparr>sp_tag := tag_name\<rparr> in
     if strcaseeq tag_name ''theme'' then Inr (i, s)
     else if strcaseeq tag_name ''events'' then Inr (i\<lparr>sp_context := EVENT_CONTEXT\<rparr>, s)
     else if sp_context i = EVENT_CONTEXT then Inr (i, s)
     else if strcaseeq tag_name ''states'' then Inr (i\<lparr>sp_context := STATE_CONTEXT\<rparr>, s)
     else if sp_context i = STATE_CONTEXT
     then (if strcaseeq tag_name ''state''
           then bindE (count_at (sp_thresholds i) (sp_thresh_index i)) (\<lambda>cnt.
                bindE (mixerAllocNewState True (state_index s) cnt (ps_w s)) (\<lambda>(r, w).
                Inr (i\<lparr>sp_thresh_cnt := 0\<rparr>, s\<lparr>ps_w := w\<rparr>)))
           else if strcaseeq tag_name ''threshold'' then Inr (i\<lparr>sp_context := THRESHOLD_CONTEXT\<rparr>, s)
           else Inr (i, s))
     else Inr (i, s))"

text \<open>
  \<open>parserLoadStateSndDir\<close> with the path as it is; a \<open>NULL\<close> path reaches \<open>opendir\<close> unless the state
  is rejected before.
\<close>

definition load_threshold :: "filesys \<Rightarrow> SECOND_PASS_INFO \<Rightarrow> parser \<Rightarrow> (int \<times> parser) result" where
  "load_threshold fs i s =
     (if sp_path i = None \<and> state_index s < unat (mixerSBuffs (ps_w s)) then Inl NullDeref
      else parserLoadStateSndDir fs (unat (word_of_int (sp_thresh_cnt i) :: 32 word)) (sp_l_bound i) (sp_h_bound i)
             (case sp_path i of None \<Rightarrow> [] | Some p \<Rightarrow> p) (sp_fade i) s)"

definition xmlParseSecondPassEnd ::
  "filesys \<Rightarrow> string \<Rightarrow> SECOND_PASS_INFO \<times> parser \<Rightarrow> (SECOND_PASS_INFO \<times> parser) result" where
  "xmlParseSecondPassEnd fs tag_name = (\<lambda>(i, s).
     if sp_context i = EVENT_CONTEXT \<and> strcaseeq tag_name ''events''
     then Inr (i\<lparr>sp_context := NO_CONTEXT\<rparr>, s)
     else if sp_context i = EVENT_CONTEXT \<and> strcaseeq tag_name ''event''
     then (case (sp_path i, sp_name i) of
             (Some path, Some name) \<Rightarrow>
               bindE (parserLoadEventSndDir fs name path s) (\<lambda>(r, s1).
               Inr (if r = 0 then i else i\<lparr>sp_path := None, sp_name := None\<rparr>, s1))
           | _ \<Rightarrow> Inr (i\<lparr>sp_path := None, sp_name := None\<rparr>, s))
     else if sp_context i = STATE_CONTEXT \<and> strcaseeq tag_name ''states''
     then (case sp_name i of None \<Rightarrow> Inr (i, s)
           | Some name \<Rightarrow>
               bindE (engineSoundTableInsertState True name \<lparr>mixer_index = ps_state_cnt s\<rparr> (stable (ps_w s)))
                 (\<lambda>(r, tab).
               Inr (i\<lparr>sp_name := None, sp_context := NO_CONTEXT\<rparr>,
                    s\<lparr>ps_w := (ps_w s)\<lparr>stable := tab\<rparr>, ps_state_cnt := ps_state_cnt s + 1\<rparr>)))
     else if sp_context i = STATE_CONTEXT \<and> strcaseeq tag_name ''state''
     then Inr (i\<lparr>sp_thresh_index := sp_thresh_index i + 1\<rparr>, s)
     else if sp_context i = THRESHOLD_CONTEXT \<and> strcaseeq tag_name ''threshold''
     then bindE (load_threshold fs i s) (\<lambda>(r, s1).
          Inr (i\<lparr>sp_path := None, sp_thresh_cnt := sp_thresh_cnt i + 1, sp_context := STATE_CONTEXT\<rparr>, s1))
     else Inr (i, s))"

definition xmlParseSecondPassChar ::
  "char list \<Rightarrow> nat \<Rightarrow> SECOND_PASS_INFO \<times> parser \<Rightarrow> (SECOND_PASS_INFO \<times> parser) result" where
  "xmlParseSecondPassChar mem len = (\<lambda>(i, s).
     bindE (createXmlNormalizedString mem len) (\<lambda>r.
     case r of None \<Rightarrow> Inr (i, s)
     | Some str \<Rightarrow>
         if sp_context i = EVENT_CONTEXT
         then (if strcaseeq (sp_tag i) ''name'' then Inr (i\<lparr>sp_name := Some str\<rparr>, s)
               else if strcaseeq (sp_tag i) ''sound''
               then bindE (xmlThemeLookupTransPath str s) (\<lambda>(p, s1). Inr (i\<lparr>sp_path := p\<rparr>, s1))
               else Inr (i, s))
         else if sp_context i = STATE_CONTEXT
         then Inr (if strcaseeq (sp_tag i) ''name'' then i\<lparr>sp_name := Some str\<rparr> else i, s)
         else if sp_context i = THRESHOLD_CONTEXT
         then (if strcaseeq (sp_tag i) ''level''
               then bindE (if sp_thresh_cnt i > 0
                           then bindE (mixerGetThresholdEntry (ps_state_cnt s) (sp_thresh_cnt i - 1) (ps_w s)) (\<lambda>t.
                                case t of None \<Rightarrow> Inl NullDeref | Some th \<Rightarrow> Inr (h_bound th))
                           else Inr 0) (\<lambda>lb.
                    Inr (i\<lparr>sp_l_bound := lb, sp_h_bound := strtod str\<rparr>, s))
               else if strcaseeq (sp_tag i) ''fade'' then Inr (i\<lparr>sp_fade := strtod str\<rparr>, s)
               else if strcaseeq (sp_tag i) ''sound''
               then bindE (xmlThemeLookupTransPath str s) (\<lambda>(p, s1). Inr (i\<lparr>sp_path := p\<rparr>, s1))
               else Inr (i, s))
         else Inr (i, s)))"

fun second_pass :: "filesys \<Rightarrow> xml_callback \<Rightarrow> SECOND_PASS_INFO \<times> parser \<Rightarrow> (SECOND_PASS_INFO \<times> parser) result" where
  "second_pass fs (XStart t) = xmlParseSecondPassStart t"
| "second_pass fs (XEnd t) = xmlParseSecondPassEnd fs t"
| "second_pass fs (XChar mem len) = xmlParseSecondPassChar mem len"

section \<open>Loading a theme\<close>

text \<open>
  \<open>expat\<close>: the callbacks for a text, and whether the parser succeeds.  The loop that frees what is
  left of the translation table reads \<open>ent->next\<close> once more after the last entry.
\<close>

definition free_trans :: "trans_table list \<Rightarrow> trans_table list result" where
  "free_trans tab = (if tab = [] then Inr [] else Inl NullDeref)"

definition first_info_init :: "string ptr \<Rightarrow> FIRST_PASS_INFO" where
  "first_info_init sp = \<lparr>fp_sound_path = sp, fp_context = NO_CONTEXT, fp_tag = [],
     fp_thresholds = None, fp_states = 0\<rparr>"

definition second_info_init :: "counts \<Rightarrow> SECOND_PASS_INFO" where
  "second_info_init th = \<lparr>sp_tag = [], sp_context = NO_CONTEXT, sp_name = None, sp_path = None,
     sp_thresholds = th, sp_thresh_cnt = 0, sp_thresh_index = 0, sp_l_bound = 0, sp_h_bound = 0, sp_fade = 0\<rparr>"

definition xmlParseTheme ::
  "(string \<Rightarrow> xml_callback list \<times> bool) \<Rightarrow> filesys \<Rightarrow> string \<Rightarrow> parser \<Rightarrow> (int \<times> parser) result" where
  "xmlParseTheme expat fs xml_string s =
     (let (cbs, ok) = expat xml_string in
      bindE (foldE first_pass cbs (first_info_init (ps_sound_path s), s)) (\<lambda>(i1, s1).
      if \<not> ok then Inr (XML_PARSER_FAILURE, s1)
      else bindE (foldE (second_pass fs) cbs (second_info_init (fp_thresholds i1), s1)) (\<lambda>(i2, s2).
           bindE (free_trans (ps_trans s2)) (\<lambda>tab.
           Inr (XML_PARSER_SUCCESS, s2\<lparr>ps_trans := tab\<rparr>)))))"

end
