(* ===== verification/Parser.thy ===== *)
theory Parser
  imports Xml_Theme
begin

text \<open>
  parser.c, the upper half: the configuration file.  A file is represented by the text still to be
  read; every loop over lines takes it and returns what it leaves.  The line buffer is cut into
  tokens in place, and the tests of one turn of a loop are not exclusive: each looks at the token
  the one before has left.
\<close>

section \<open>Environment\<close>

text \<open>
  What \<open>gethostbyname\<close> gives for the local host, if it succeeds; of the address list, the code uses the
  pointers themselves.  \<open>pe_expat\<close> gives the callbacks expat makes for a text.
\<close>

record hostent =
  h_name :: string
  h_aliases :: "string list"
  h_addr_list :: "nat list"

record penv =
  pe_fs :: filesys
  pe_host :: "hostent option"
  pe_inet_aton :: "string \<Rightarrow> 32 word option"
  pe_expat :: "string \<Rightarrow> xml_callback list \<times> bool"

section \<open>Reading on\<close>

lemma take_line_append: "take_line n f = (l, r) \<Longrightarrow> f = l @ r"
  by (induction n f arbitrary: l rule: take_line.induct) (auto split: if_splits prod.splits)

lemma take_line_nonempty: "take_line (Suc n) f = (l, r) \<Longrightarrow> f \<noteq> [] \<Longrightarrow> l \<noteq> []"
  by (cases f) (auto split: if_splits prod.splits)

lemma fgets_append: "fgets f = Some (l, r) \<Longrightarrow> f = l @ r \<and> l \<noteq> []"
  using take_line_append take_line_nonempty [of 1022 f l r]
  by (auto simp: fgets_def simp del: take_line.simps split: if_splits)

lemma fgets_length: "fgets f = Some (l, r) \<Longrightarrow> length r < length f"
  using fgets_append [of f l r] by auto

lemma fgets_suffix: "fgets f = Some (l, r) \<Longrightarrow> suffix r f"
  using fgets_append [of f l r] by (auto simp: suffix_def)

fun rest_length :: "string option \<Rightarrow> nat" where
  "rest_length None = 0"
| "rest_length (Some r) = Suc (length r)"

lemma tokenize_suffix:
  assumes "parserTokenize (Some s) = Inr t"
  shows "sublist (token t) s" and "remainder t = Some r \<Longrightarrow> suffix r s \<and> length r < length s"
proof -
  define p where "p = dropWhile isspace s"
  define q where "q = dropWhile (\<lambda>c. \<not> isspace c) p"
  have t: "t = \<lparr>token = takeWhile (\<lambda>c. \<not> isspace c) p,
                remainder = (if q = [] then None else Some (dropWhile isspace (tl q)))\<rparr>"
    using assms by (simp only: parserTokenize_def Let_def p_def q_def option.case sum.inject)
  have sp: "suffix p s" unfolding p_def by (rule suffix_dropWhile)
  have sq: "suffix q p" unfolding q_def by (rule suffix_dropWhile)
  have "sublist (takeWhile (\<lambda>c. \<not> isspace c) p) p"
    by (rule prefix_imp_sublist) (rule takeWhile_is_prefix)
  moreover have "sublist p s" using sp by (rule suffix_imp_sublist)
  ultimately have "sublist (takeWhile (\<lambda>c. \<not> isspace c) p) s" by (rule sublist_order.order.trans)
  then show "sublist (token t) s" by (simp only: t tok.simps)
  assume "remainder t = Some r"
  then have r: "r = dropWhile isspace (tl q)" "q \<noteq> []" by (auto simp: t split: if_splits)
  have rq: "suffix r (tl q)" unfolding r(1) by (rule suffix_dropWhile)
  have tq: "suffix (tl q) q" by (rule suffix_tl)
  have "suffix r s" using suffix_order.trans [OF rq suffix_order.trans [OF tq suffix_order.trans [OF sq sp]]] .
  moreover have "length r \<le> length (tl q)" using rq by (rule suffix_length_le)
  moreover have "length (tl q) < length s"
    using r(2) suffix_length_le [OF sp] suffix_length_le [OF sq] by (cases q) auto
  ultimately show "suffix r s \<and> length r < length s" by simp
qed

lemma tokenize_rest: "parserTokenize rm = Inr t \<Longrightarrow> rest_length (remainder t) < rest_length rm"
  using tokenize_suffix(2) [of _ t] by (cases rm; cases "remainder t") (auto simp: parserTokenize_def)

text \<open>The keyword \<open>end\<close> followed by \<open>kw\<close>.\<close>

definition end_of :: "string \<Rightarrow> tok \<Rightarrow> bool result" where
  "end_of kw t =
     (if strcaseeq (token t) ''end''
      then bindE (parserTokenize (remainder t)) (\<lambda>t1. Inr (strcaseeq (token t1) kw))
      else Inr False)"

section \<open>The general section\<close>

text \<open>
  A version line.  \<open>strtok\<close> returns \<open>NULL\<close> for a token of dots only, which \<open>atoi\<close> reads; otherwise
  \<open>version[5]\<close>, the element behind the array, is written.
\<close>

definition version_line :: "tok \<Rightarrow> tok result" where
  "version_line t =
     (if strcaseeq (token t) ''version''
      then bindE (parserTokenize (remainder t)) (\<lambda>t1.
           if set (token t1) \<subseteq> {CHR ''.''} then Inl NullDeref else Inl OutOfBounds)
      else Inr t)"

text \<open>The test for a final slash looks at the terminator, so a slash is always added.\<close>

definition sound_path_line :: "tok \<Rightarrow> parser \<Rightarrow> (tok \<times> parser) result" where
  "sound_path_line t s =
     (if strcaseeq (token t) ''sound-path''
      then bindE (parserTokenize (remainder t)) (\<lambda>t1.
           Inr (t1, s\<lparr>ps_sound_path := Ptr (token t1 @ ''/'')\<rparr>))
      else Inr (t, s))"

function parserParseGeneral :: "string \<Rightarrow> parser \<Rightarrow> (int \<times> string \<times> parser) result" where
  "parserParseGeneral f s =
     (case fgets f of None \<Rightarrow> Inr (PARSER_FAILURE, [], s)
      | Some (l, f1) \<Rightarrow>
          bindE (parserTokenize (Some (buf_str l))) (\<lambda>t.
          bindE (version_line t) (\<lambda>t1.
          bindE (sound_path_line t1 s) (\<lambda>(t2, s1).
          bindE (end_of ''general'' t2) (\<lambda>fin.
          if fin then Inr (PARSER_SUCCESS, f1, s1) else parserParseGeneral f1 s1)))))"
  by pat_completeness auto
termination
  by (relation "measure (\<lambda>(f, s). length f)") (auto dest: fgets_length)

section \<open>The class section\<close>

text \<open>
  The address is compared with a pointer into the list, converted to an integer, and not with the
  address it points to.
\<close>

definition parserIsMyClass :: "penv \<Rightarrow> string \<Rightarrow> bool" where
  "parserIsMyClass env host =
     (case pe_host env of None \<Rightarrow> False
      | Some e \<Rightarrow> strcaseeq (h_name e) host \<or> (\<exists>a\<in>set (h_aliases e). strcaseeq a host)
                 \<or> (\<exists>p\<in>set (h_addr_list e). map_option unat (pe_inet_aton env host) = Some p))"

function port_loop :: "tok \<Rightarrow> server \<Rightarrow> (tok \<times> server) result" where
  "port_loop t sv =
     bindE (parserTokenize (remainder t)) (\<lambda>t1.
     if is_comment (token t1) then port_loop t1 sv
     else if remainder t1 = None then Inr (t1, sv)
     else bindE (serverAddBroadcastPort True (sint (atoi (token t1))) sv) (\<lambda>(r, sv1).
          port_loop t1 sv1))"
  by pat_completeness auto
termination
  by (relation "measure (\<lambda>(t, sv). rest_length (remainder t))") (auto dest: tokenize_rest)

text \<open>
  The split at colons.  The name that is asked for always starts at the token, which the first colon
  ends; the rest of the token is the port.
\<close>

definition split_server :: "penv \<Rightarrow> string \<Rightarrow> tok \<Rightarrow> server \<Rightarrow> tok \<times> server" where
  "split_server env cls t sv =
     (let p = takeWhile (\<lambda>c. c \<noteq> CHR '':'') (token t); q = dropWhile (\<lambda>c. c \<noteq> CHR '':'') (token t) in
      if q \<noteq> [] \<and> parserIsMyClass env p
      then (t\<lparr>token := p\<rparr>, serverSetPort (sint (atoi (tl q))) (Product_Type.snd (serverAddIDClass True cls sv)))
      else (t\<lparr>token := p\<rparr>, sv))"

function server_loop :: "penv \<Rightarrow> string \<Rightarrow> tok \<Rightarrow> server \<Rightarrow> (tok \<times> server) result" where
  "server_loop env cls t sv =
     bindE (parserTokenize (remainder t)) (\<lambda>t1.
     let (t2, sv1) = split_server env cls t1 sv in
     if remainder t2 = None then Inr (t2, sv1) else server_loop env cls t2 sv1)"
  by pat_completeness auto
termination
  by (relation "measure (\<lambda>(env, cls, t, sv). rest_length (remainder t))")
     (auto simp: split_server_def Let_def dest: tokenize_rest split: if_splits)

function parserParseClass :: "penv \<Rightarrow> string \<Rightarrow> string \<Rightarrow> parser \<Rightarrow> (int \<times> string \<times> parser) result" where
  "parserParseClass env cls f s =
     (case fgets f of None \<Rightarrow> Inr (PARSER_FAILURE, [], s)
      | Some (l, f1) \<Rightarrow>
          bindE (parserTokenize (Some (buf_str l))) (\<lambda>t.
          if is_comment (token t) then parserParseClass env cls f1 s
          else
          bindE (if strcaseeq (token t) ''port'' then port_loop t (ps_sv s) else Inr (t, ps_sv s)) (\<lambda>(t1, sv1).
          bindE (if strcaseeq (token t1) ''server'' then server_loop env cls t1 sv1 else Inr (t1, sv1)) (\<lambda>(t2, sv2).
          bindE (end_of ''class'' t2) (\<lambda>fin.
          if fin then Inr (PARSER_SUCCESS, f1, s\<lparr>ps_sv := sv2\<rparr>)
          else parserParseClass env cls f1 (s\<lparr>ps_sv := sv2\<rparr>))))))"
  by pat_completeness auto
termination
  by (relation "measure (\<lambda>(env, cls, f, s). length f)") (auto dest: fgets_length)

section \<open>Events\<close>

text \<open>A line with a keyword and a value; the path is put behind the sound path.\<close>

definition name_line :: "string \<Rightarrow> tok \<Rightarrow> string option \<Rightarrow> (tok \<times> string option) result" where
  "name_line kw t name =
     (if strcaseeq (token t) kw
      then bindE (parserTokenize (remainder t)) (\<lambda>t1. Inr (t1, Some (token t1))) else Inr (t, name))"

definition path_line :: "tok \<Rightarrow> parser \<Rightarrow> string option \<Rightarrow> (tok \<times> string option) result" where
  "path_line t s path =
     (if strcaseeq (token t) ''path''
      then bindE (parserTokenize (remainder t)) (\<lambda>t1.
           bindE (pget (ps_sound_path s)) (\<lambda>sp. Inr (t1, Some (sp @ token t1)))) else Inr (t, path))"

function event_loop ::
  "filesys \<Rightarrow> string option \<Rightarrow> string option \<Rightarrow> string \<Rightarrow> parser \<Rightarrow> (int \<times> string \<times> parser) result" where
  "event_loop fs name path f s =
     (case fgets f of None \<Rightarrow> Inr (PARSER_FAILURE, [], s)
      | Some (l, f1) \<Rightarrow>
          bindE (parserTokenize (Some (buf_str l))) (\<lambda>t.
          if is_comment (token t) then event_loop fs name path f1 s
          else
          bindE (name_line ''name'' t name) (\<lambda>(t1, name1).
          bindE (path_line t1 s path) (\<lambda>(t2, path1).
          bindE (end_of ''event'' t2) (\<lambda>fin.
          if \<not> fin then event_loop fs name1 path1 f1 s
          else case (name1, path1) of
                 (Some nm, Some p) \<Rightarrow>
                   bindE (parserLoadEventSndDir fs nm p s) (\<lambda>(r, s1).
                   Inr (if r = 0 then PARSER_FAILURE else PARSER_SUCCESS, f1, s1))
               | _ \<Rightarrow> Inr (PARSER_FAILURE, f1, s))))))"
  by pat_completeness auto
termination
  by (relation "measure (\<lambda>(fs, name, path, f, s). length f)") (auto dest: fgets_length)

definition parserParseEvent :: "filesys \<Rightarrow> string \<Rightarrow> parser \<Rightarrow> (int \<times> string \<times> parser) result" where
  "parserParseEvent fs = event_loop fs None None"

section \<open>States\<close>

definition level_line :: "int \<Rightarrow> tok \<Rightarrow> parser \<Rightarrow> real \<Rightarrow> real \<Rightarrow> (tok \<times> real \<times> real) result" where
  "level_line thresh_cnt t s lb hb =
     (if strcaseeq (token t) ''level''
      then bindE (parserTokenize (remainder t)) (\<lambda>t1.
           bindE (if thresh_cnt > 0
                  then bindE (mixerGetThresholdEntry (ps_state_cnt s) (thresh_cnt - 1) (ps_w s)) (\<lambda>th.
                       case th of None \<Rightarrow> Inl NullDeref | Some h \<Rightarrow> Inr (h_bound h))
                  else Inr 0) (\<lambda>lb1. Inr (t1, lb1, strtod (token t1))))
      else Inr (t, lb, hb))"

definition fade_line :: "tok \<Rightarrow> real \<Rightarrow> (tok \<times> real) result" where
  "fade_line t fade =
     (if strcaseeq (token t) ''fade''
      then bindE (parserTokenize (remainder t)) (\<lambda>t1. Inr (t1, strtod (token t1))) else Inr (t, fade))"

text \<open>\<open>shutDown\<close> ends the process.\<close>

function threshold_loop ::
  "filesys \<Rightarrow> int \<Rightarrow> real \<Rightarrow> real \<Rightarrow> real \<Rightarrow> string option \<Rightarrow> string \<Rightarrow> parser
   \<Rightarrow> (int \<times> string \<times> parser) result" where
  "threshold_loop fs cnt lb hb fade path f s =
     (case fgets f of None \<Rightarrow> Inr (PARSER_FAILURE, [], s)
      | Some (l, f1) \<Rightarrow>
          bindE (parserTokenize (Some (buf_str l))) (\<lambda>t.
          if is_comment (token t) then threshold_loop fs cnt lb hb fade path f1 s
          else
          bindE (level_line cnt t s lb hb) (\<lambda>(t1, lb1, hb1).
          bindE (path_line t1 s path) (\<lambda>(t2, path1).
          bindE (fade_line t2 fade) (\<lambda>(t3, fade1).
          bindE (end_of ''threshold'' t3) (\<lambda>fin.
          if \<not> fin then threshold_loop fs cnt lb1 hb1 fade1 path1 f1 s
          else case path1 of
                 None \<Rightarrow> Inl ProcessExit
               | Some p \<Rightarrow>
                   if hb1 = 0 then Inl ProcessExit
                   else bindE (parserLoadStateSndDir fs (unat (word_of_int cnt :: 32 word)) lb1 hb1 p fade1 s)
                          (\<lambda>(r, s1). Inr (if r = 0 then 0 else PARSER_SUCCESS, f1, s1))))))))"
  by pat_completeness auto
termination
  by (relation "measure (\<lambda>(fs, cnt, lb, hb, fade, path, f, s). length f)") (auto dest: fgets_length)

definition parserParseThreshold ::
  "filesys \<Rightarrow> string \<Rightarrow> int \<Rightarrow> parser \<Rightarrow> (int \<times> string \<times> parser) result" where
  "parserParseThreshold fs f cnt s = threshold_loop fs cnt 0 0 0 None f s"

text \<open>What a section leaves of the file is a suffix of it.\<close>

definition leaves :: "string \<Rightarrow> ('a \<times> string \<times> 'b) result \<Rightarrow> bool" where
  "leaves f r \<longleftrightarrow> (\<forall>c f1 s. r = Inr (c, f1, s) \<longrightarrow> suffix f1 f)"

lemma leaves_Inr [simp]: "leaves f (Inr (c, f1, s)) \<longleftrightarrow> suffix f1 f"
  by (simp add: leaves_def)

lemma leaves_Inl [simp]: "leaves f (Inl e)"
  by (simp add: leaves_def)

lemma leaves_bindE: "(\<And>x. m = Inr x \<Longrightarrow> leaves f (g x)) \<Longrightarrow> leaves f (bindE m g)"
  by (cases m) auto

lemma leaves_fgets: "fgets f = Some (l, f1) \<Longrightarrow> leaves f1 r \<Longrightarrow> leaves f r"
  using fgets_suffix [of f l f1] unfolding leaves_def by (blast intro: suffix_order.trans)

lemma lines_induct:
  assumes "\<And>f. (\<And>l f1. fgets f = Some (l, f1) \<Longrightarrow> P f1) \<Longrightarrow> P f"
  shows "P f"
  by (induction f rule: length_induct) (use assms fgets_length in blast)

lemma leaves_threshold: "leaves f (threshold_loop fs cnt lb hb fade path f s)"
proof (induction f arbitrary: lb hb fade path s rule: lines_induct)
  case (1 f)
  show ?case
  proof (cases "fgets f")
    case (Some x)
    then obtain l f1 where x: "fgets f = Some (l, f1)" by (cases x) auto
    have "leaves f (threshold_loop fs cnt lb hb fade path f1 s)" for lb hb fade path s
      using leaves_fgets [OF x 1 [OF x]] .
    then show ?thesis
      using x fgets_suffix [OF x] by (subst threshold_loop.simps) (auto intro!: leaves_bindE split: option.split)
  qed (subst threshold_loop.simps, simp)
qed

lemma leaves_length: "leaves f r \<Longrightarrow> r = Inr (c, f1, s) \<Longrightarrow> length f1 \<le> length f"
  by (simp add: leaves_def suffix_length_le)

lemma threshold_length:
  "parserParseThreshold fs f cnt s = Inr (r, f1, s1) \<Longrightarrow> length f1 \<le> length f"
  by (rule leaves_length [OF leaves_threshold]) (simp add: parserParseThreshold_def)

function state_loop ::
  "filesys \<Rightarrow> string option \<Rightarrow> int \<Rightarrow> string \<Rightarrow> parser \<Rightarrow> (int \<times> string \<times> parser) result" where
  "state_loop fs name t_count f s =
     (case fgets f of None \<Rightarrow> Inr (PARSER_FAILURE, [], s)
      | Some (l, f1) \<Rightarrow>
          bindE (parserTokenize (Some (buf_str l))) (\<lambda>t.
          if is_comment (token t) then state_loop fs name t_count f1 s
          else
          bindE (name_line ''name'' t name) (\<lambda>(t1, name1).
          let is_t = strcaseeq (token t1) ''threshold'' in
          bindE (if is_t then parserParseThreshold fs f1 t_count s else Inr (PARSER_SUCCESS, f1, s)) (\<lambda>(r, f2, s1).
          if r = 0 then Inr (PARSER_FAILURE, f2, s1)
          else
          bindE (end_of ''state'' t1) (\<lambda>fin.
          if \<not> fin then state_loop fs name1 (if is_t then t_count + 1 else t_count) f2 s1
          else case name1 of
                 None \<Rightarrow> Inr (PARSER_FAILURE, f2, s1)
               | Some nm \<Rightarrow>
                   (case engineAllocStateEntry True (ps_state_cnt s1) of
                      None \<Rightarrow> Inr (PARSER_FAILURE, f2, s1)
                    | Some entry \<Rightarrow>
                        bindE (engineSoundTableInsertState True nm entry (stable (ps_w s1))) (\<lambda>(rc, tab).
                        Inr (PARSER_SUCCESS, f2,
                             s1\<lparr>ps_w := (ps_w s1)\<lparr>stable := tab\<rparr>, ps_state_cnt := ps_state_cnt s1 + 1\<rparr>))))))))"
  by pat_completeness auto
termination
  by (relation "measure (\<lambda>(fs, name, t_count, f, s). length f)")
     (auto dest!: fgets_length threshold_length split: if_splits)

text \<open>
  The look-ahead: the number of thresholds up to the end of the state, and whether that end is found.
  If so, the file is set back; if not, it has been read to its end.
\<close>

function look_ahead :: "string \<Rightarrow> int \<Rightarrow> (int \<times> bool) result" where
  "look_ahead f cnt =
     (case fgets f of None \<Rightarrow> Inr (cnt, False)
      | Some (l, f1) \<Rightarrow>
          bindE (parserTokenize (Some (buf_str l))) (\<lambda>t.
          let cnt1 = (if strcaseeq (token t) ''threshold'' then cnt + 1 else cnt) in
          bindE (end_of ''state'' t) (\<lambda>fin.
          if fin then Inr (cnt1, True) else look_ahead f1 cnt1)))"
  by pat_completeness auto
termination
  by (relation "measure (\<lambda>(f, cnt). length f)") (auto dest: fgets_length)

definition parserParseState :: "filesys \<Rightarrow> string \<Rightarrow> parser \<Rightarrow> (int \<times> string \<times> parser) result" where
  "parserParseState fs f s =
     bindE (look_ahead f 0) (\<lambda>(thresh_cnt, found).
     bindE (mixerAllocNewState True (state_index s) thresh_cnt (ps_w s)) (\<lambda>(r, w).
     state_loop fs None 0 (if found then f else []) (s\<lparr>ps_w := w\<rparr>)))"

section \<open>The configuration file\<close>

text \<open>A turn of the main loop either ends it or goes on with the current token and the rest of the file.\<close>

datatype outcome = Stop int parser | Go tok string parser

definition stage ::
  "string \<Rightarrow> (tok \<Rightarrow> string \<Rightarrow> parser \<Rightarrow> outcome result) \<Rightarrow> outcome \<Rightarrow> outcome result" where
  "stage kw body o1 =
     (case o1 of Stop c s \<Rightarrow> Inr (Stop c s)
      | Go t f s \<Rightarrow> if strcaseeq (token t) kw then body t f s else Inr (Go t f s))"

definition check_section :: "int \<Rightarrow> tok \<Rightarrow> int \<times> string \<times> parser \<Rightarrow> outcome result" where
  "check_section err t = (\<lambda>(r, f, s). Inr (if r < 0 then Stop err s else Go t f s))"

text \<open>Skipping the section of a client.\<close>

function client_loop :: "tok \<Rightarrow> string \<Rightarrow> (tok \<times> string) result" where
  "client_loop t f =
     (case fgets f of None \<Rightarrow> Inr (t, [])
      | Some (l, f1) \<Rightarrow>
          bindE (parserTokenize (Some (buf_str l))) (\<lambda>t1.
          if strcaseeq (token t1) ''end''
          then bindE (parserTokenize (remainder t1)) (\<lambda>t2.
               if strcaseeq (token t2) ''client'' then Inr (t2, f1) else client_loop t2 f1)
          else client_loop t1 f1))"
  by pat_completeness auto
termination
  by (relation "measure (\<lambda>(t, f). length f)") (auto dest: fgets_length)

text \<open>The sections from \<open>general\<close> to \<open>state\<close>.\<close>

definition sections :: "penv \<Rightarrow> tok \<Rightarrow> string \<Rightarrow> parser \<Rightarrow> outcome result" where
  "sections env t0 f0 s0 =
     bindE (stage ''general'' (\<lambda>t f s.
              bindE (parserParseGeneral f s) (check_section PARSER_GENERAL_ERROR t)) (Go t0 f0 s0)) (\<lambda>o1.
     bindE (stage ''class'' (\<lambda>t f s.
              bindE (parserTokenize (remainder t)) (\<lambda>t1.
              bindE (parserParseClass env (token t1) f s) (check_section PARSER_CLASS_ERROR t1))) o1) (\<lambda>o2.
     bindE (stage ''client'' (\<lambda>t f s.
              bindE (parserTokenize (remainder t)) (\<lambda>t1.
              bindE (client_loop t1 f) (\<lambda>(t2, f1). Inr (Go t2 f1 s)))) o2) (\<lambda>o3.
     bindE (stage ''event'' (\<lambda>t f s.
              bindE (parserParseEvent (pe_fs env) f s) (check_section PARSER_EVENT_ERROR t)) o3) (\<lambda>o4.
     stage ''state'' (\<lambda>t f s.
              bindE (parserParseState (pe_fs env) f s) (check_section PARSER_STATE_ERROR t)) o4))))"

text \<open>The text of a theme, read line by line; of an empty file, the buffer is copied unwritten.\<close>

function theme_lines :: "string \<Rightarrow> string" where
  "theme_lines f = (case fgets f of None \<Rightarrow> [] | Some (l, f1) \<Rightarrow> buf_str l @ theme_lines f1)"
  by pat_completeness auto
termination
  by (relation "measure length") (auto dest: fgets_length)

definition theme_section :: "penv \<Rightarrow> tok \<Rightarrow> string \<Rightarrow> parser \<Rightarrow> outcome result" where
  "theme_section env t f s =
     bindE (parserTokenize (remainder t)) (\<lambda>t1.
     case fs_read (pe_fs env) (token t1) of
       None \<Rightarrow> Inr (Stop PARSER_THEME_ERROR s)
     | Some xml \<Rightarrow>
         if xml = [] then Inl UninitRead
         else bindE (xmlParseTheme (pe_expat env) (pe_fs env) (theme_lines xml) s) (\<lambda>(r, s1).
              Inr (if r = 0 then Stop PARSER_THEME_ERROR s1 else Go t1 f s1)))"

text \<open>
  Opening a file: with a directory in its name, that is added to the import stack and the file is
  opened by its name; otherwise the import stack is searched.
\<close>

definition open_config :: "penv \<Rightarrow> string \<Rightarrow> parser \<Rightarrow> (string option \<times> parser) result" where
  "open_config env file s =
     (case parserDirname file of
        Some dir \<Rightarrow> bindE (parserImportStackAdd dir s) (\<lambda>(r, s1). Inr (fs_read (pe_fs env) file, s1))
      | None \<Rightarrow> bindE (parserImportConfig (pe_fs env) file s) (\<lambda>c. Inr (c, s)))"

text \<open>
  The main loop; importing a file runs it again on that file.  Files may import each other without
  end.  A file descriptor is always available.
\<close>

partial_function (option) config_loop :: "penv \<Rightarrow> string \<Rightarrow> parser \<Rightarrow> (int \<times> parser) result option" where
  "config_loop env f s =
     (case fgets f of None \<Rightarrow> Some (Inr (PARSER_SUCCESS, s))
      | Some (l, f1) \<Rightarrow>
          bindO (Some (parserTokenize (Some (buf_str l)))) (\<lambda>t.
          if hd l = PARSER_COMMENT \<or> hd l = NL then config_loop env f1 s
          else
          bindO (Some (sections env t f1 s)) (\<lambda>o1.
          case o1 of Stop c s1 \<Rightarrow> Some (Inr (c, s1))
          | Go t1 f2 s1 \<Rightarrow>
              bindO (if strcaseeq (token t1) ''import''
                     then bindO (Some (parserTokenize (remainder t1))) (\<lambda>t2.
                          bindO (Some (open_config env (token t2) s1)) (\<lambda>(c, s2).
                          bindO (case c of None \<Rightarrow> Some (Inr (PARSER_FAILURE, s2))
                                 | Some g \<Rightarrow> config_loop env g s2) (\<lambda>(r, s3).
                          Some (Inr (if r < 0 then Stop PARSER_IMPORT_ERROR s3 else Go t2 f2 s3)))))
                     else Some (Inr (Go t1 f2 s1))) (\<lambda>o2.
              bindO (Some (stage ''theme'' (theme_section env) o2)) (\<lambda>o3.
              case o3 of Stop c s4 \<Rightarrow> Some (Inr (c, s4))
              | Go t3 f3 s4 \<Rightarrow> config_loop env f3 s4)))))"

definition parserParseConfigFile :: "penv \<Rightarrow> string \<Rightarrow> parser \<Rightarrow> (int \<times> parser) result option" where
  "parserParseConfigFile env file s =
     bindO (Some (open_config env file s)) (\<lambda>(c, s1).
     case c of None \<Rightarrow> Some (Inr (PARSER_FAILURE, s1)) | Some f \<Rightarrow> config_loop env f s1)"

end
