(* ===== verification/Cmdline.thy ===== *)
theory Cmdline
  imports C_Strings
begin

text \<open>
  cmdline.c: the command line.  The arguments are the strings behind the program name; leaving the
  process, for help or after an error, is \<open>ProcessExit\<close>.
\<close>

section \<open>Data (cmdline.h)\<close>

record args_info =
  port_arg :: int
  voices_arg :: int
  snd_port_arg :: int
  config_arg :: "string option"
  logfile_arg :: "string option"
  pidfile_arg :: "string option"
  record_file_arg :: "string option"
  start_time_arg :: "string option"
  end_time_arg :: "string option"
  snd_device_arg :: "string option"
  help_given :: bool
  version_given :: bool
  port_given :: bool
  config_given :: bool
  voices_given :: bool
  logfile_given :: bool
  pidfile_given :: bool
  record_file_given :: bool
  start_time_given :: bool
  end_time_given :: bool
  snd_device_given :: bool
  snd_port_given :: bool
  playback_mode_given :: bool
  record_mode_given :: bool
  nodaemon_given :: bool

definition zero_args :: args_info where
  "zero_args = \<lparr>port_arg = 0, voices_arg = 0, snd_port_arg = 0, config_arg = None, logfile_arg = None,
     pidfile_arg = None, record_file_arg = None, start_time_arg = None, end_time_arg = None,
     snd_device_arg = None, help_given = False, version_given = False, port_given = False,
     config_given = False, voices_given = False, logfile_given = False, pidfile_given = False,
     record_file_given = False, start_time_given = False, end_time_given = False, snd_device_given = False,
     snd_port_given = False, playback_mode_given = False, record_mode_given = False, nodaemon_given = False\<rparr>"

text \<open>
  \<open>sscanf (s, "%d", &x)\<close>: what it returns and what it stores.  At the end of the string it returns
  \<open>EOF\<close>, which the callers take for success.
\<close>

definition sscanf_int :: "string \<Rightarrow> int \<times> int option" where
  "sscanf_int s =
     (let t = dropWhile isspace s;
          u = (if t \<noteq> [] \<and> (hd t = CHR ''-'' \<or> hd t = CHR ''+'') then tl t else t) in
      if t = [] then (- 1, None)
      else if u \<noteq> [] \<and> isdigit (hd u) then (1, Some (sint (atoi s))) else (0, None))"

section \<open>Macros\<close>

definition optError :: "'a result" where
  "optError = Inl ProcessExit"

definition GET_INT_FROM_STRING_ARG :: "string \<Rightarrow> int \<Rightarrow> int result" where
  "GET_INT_FROM_STRING_ARG s old =
     (let (r, v) = sscanf_int s in
      if r = 0 then optError else Inr (case v of None \<Rightarrow> old | Some n \<Rightarrow> n))"

text \<open>The current argument and the ones after it; the result has the ones still to be read.\<close>

definition GET_STRING_ARG :: "string \<Rightarrow> string list \<Rightarrow> string option \<times> string list" where
  "GET_STRING_ARG arg rest =
     (if drop 2 arg \<noteq> [] then (Some (drop 2 arg), rest)
      else case rest of [] \<Rightarrow> (None, []) | x # xs \<Rightarrow> (Some x, xs))"

text \<open>
  The \<open>else\<close> belongs to the inner \<open>if\<close>: a value attached to the option is followed by another one, and an
  option without an attached value reads none.
\<close>

definition GET_INT_ARG :: "string \<Rightarrow> string list \<Rightarrow> int \<Rightarrow> (int \<times> string list) result" where
  "GET_INT_ARG arg rest old =
     (if drop 2 arg \<noteq> []
      then bindE (GET_INT_FROM_STRING_ARG (drop 2 arg) old) (\<lambda>v.
           case rest of [] \<Rightarrow> Inl NullDeref
           | x # xs \<Rightarrow> bindE (GET_INT_FROM_STRING_ARG x v) (\<lambda>v2. Inr (v2, xs)))
      else Inr (old, rest))"

section \<open>Options\<close>

text \<open>The checks of a long option with a value: not given before, and not empty.\<close>

definition once_with :: "bool \<Rightarrow> string \<Rightarrow> args_info result \<Rightarrow> args_info result" where
  "once_with given arg r = (if given then optError else if arg = [] then optError else r)"

definition long_option :: "string \<Rightarrow> string \<Rightarrow> args_info \<Rightarrow> args_info result" where
  "long_option name arg a =
     (if name = ''help'' then Inl ProcessExit
      else if name = ''version'' then Inl ProcessExit
      else if name = ''port''
      then once_with (port_given a) arg (bindE (GET_INT_FROM_STRING_ARG arg (port_arg a)) (\<lambda>n.
             Inr (a\<lparr>port_arg := n, port_given := True\<rparr>)))
      else if name = ''config''
      then once_with (config_given a) arg (Inr (a\<lparr>config_arg := Some arg, config_given := True\<rparr>))
      else if name = ''voices''
      then once_with (voices_given a) arg (bindE (GET_INT_FROM_STRING_ARG arg (voices_arg a)) (\<lambda>n.
             Inr (a\<lparr>voices_arg := n, voices_given := True\<rparr>)))
      else if name = ''logfile''
      then once_with (logfile_given a) arg (Inr (a\<lparr>logfile_arg := Some arg, logfile_given := True\<rparr>))
      else if name = ''pidfile''
      then once_with (pidfile_given a) arg (Inr (a\<lparr>pidfile_arg := Some arg, pidfile_given := True\<rparr>))
      else if name = ''record-file''
      then once_with (record_file_given a) arg (Inr (a\<lparr>record_file_arg := Some arg, record_file_given := True\<rparr>))
      else if name = ''start-time''
      then once_with (start_time_given a) arg (Inr (a\<lparr>start_time_arg := Some arg, start_time_given := True\<rparr>))
      else if name = ''end-time''
      then once_with (end_time_given a) arg (Inr (a\<lparr>end_time_arg := Some arg, end_time_given := True\<rparr>))
      else if name = ''snd-device''
      then once_with (snd_device_given a) arg (Inr (a\<lparr>snd_device_arg := Some arg, snd_device_given := True\<rparr>))
      else if name = ''snd-port''
      then once_with (snd_port_given a) arg (bindE (GET_INT_FROM_STRING_ARG arg (snd_port_arg a)) (\<lambda>n.
             Inr (a\<lparr>snd_port_arg := n, snd_port_given := True\<rparr>)))
      else if name = ''playback-mode''
      then (if playback_mode_given a then optError else Inr (a\<lparr>playback_mode_given := True\<rparr>))
      else if name = ''record-mode''
      then (if record_mode_given a then optError else Inr (a\<lparr>record_mode_given := True\<rparr>))
      else if name = ''nodaemon''
      then (if nodaemon_given a then optError else Inr (a\<lparr>nodaemon_given := True\<rparr>))
      else Inr a)"

definition short_option :: "string \<Rightarrow> string list \<Rightarrow> args_info \<Rightarrow> (args_info \<times> string list) result" where
  "short_option arg rest a =
     (case drop 1 arg of [] \<Rightarrow> optError
      | c # cs \<Rightarrow>
          if c = CHR ''h'' then Inl ProcessExit
          else if c = CHR ''V'' then Inl ProcessExit
          else if c = CHR ''p''
          then (if port_given a then optError
                else bindE (GET_INT_ARG arg rest (port_arg a)) (\<lambda>(n, r).
                     Inr (a\<lparr>port_arg := n, port_given := True\<rparr>, r)))
          else if c = CHR ''c''
          then (if config_given a then optError
                else let (x, r) = GET_STRING_ARG arg rest in
                     Inr (a\<lparr>config_arg := x, config_given := True\<rparr>, r))
          else if c = CHR ''v''
          then (if voices_given a then optError
                else bindE (GET_INT_ARG arg rest (voices_arg a)) (\<lambda>(n, r).
                     Inr (a\<lparr>voices_arg := n, voices_given := True\<rparr>, r)))
          else if c = CHR ''l''
          then (if logfile_given a then optError
                else let (x, r) = GET_STRING_ARG arg rest in
                     Inr (a\<lparr>logfile_arg := x, logfile_given := True\<rparr>, r))
          else if c = CHR ''n''
          then (if nodaemon_given a then optError else Inr (a\<lparr>nodaemon_given := True\<rparr>, rest))
          else optError)"

text \<open>The name and the value of \<open>--name=value\<close>.\<close>

definition option_name :: "string \<Rightarrow> string" where
  "option_name s = takeWhile (\<lambda>c. c \<noteq> CHR ''='') s"

definition option_value :: "string \<Rightarrow> string" where
  "option_value s = tl (dropWhile (\<lambda>c. c \<noteq> CHR ''='') s)"

definition one_option :: "string \<Rightarrow> string list \<Rightarrow> args_info \<Rightarrow> (args_info \<times> string list) result" where
  "one_option arg rest a =
     (if arg = [] \<or> hd arg \<noteq> CHR ''-'' then Inl ProcessExit
      else if take 1 (drop 1 arg) = ''-''
      then bindE (long_option (option_name (drop 2 arg)) (option_value (drop 2 arg)) a) (\<lambda>a1. Inr (a1, rest))
      else short_option arg rest a)"

lemma get_int_shorter: "GET_INT_ARG arg rest old = Inr (n, r) \<Longrightarrow> length r \<le> length rest"
  by (cases rest) (auto simp: GET_INT_ARG_def bindE_eq_Inr_iff split: if_splits)

lemma get_string_shorter: "GET_STRING_ARG arg rest = (x, r) \<Longrightarrow> length r \<le> length rest"
  by (cases rest) (auto simp: GET_STRING_ARG_def split: if_splits)

lemma one_option_shorter: "one_option arg rest a = Inr (a1, r) \<Longrightarrow> length r \<le> length rest"
  by (auto simp: one_option_def short_option_def optError_def bindE_eq_Inr_iff
      dest: get_int_shorter get_string_shorter split: if_splits list.splits prod.splits)

function parse_loop :: "string list \<Rightarrow> args_info \<Rightarrow> args_info result" where
  "parse_loop [] a = Inr a"
| "parse_loop (arg # rest) a = bindE (one_option arg rest a) (\<lambda>(a1, r). parse_loop r a1)"
  by pat_completeness auto
termination
  by (relation "measure (\<lambda>(args, a). length args)") (auto dest: one_option_shorter)

definition parseCmdlineOpts :: "string list \<Rightarrow> args_info result" where
  "parseCmdlineOpts args = parse_loop args zero_args"


section \<open>What the parser accepts\<close>

lemma sscanf_show_nat: "n < 2 ^ 31 \<Longrightarrow> sscanf_int (show_nat n) = (1, Some (int n))"
proof -
  assume n: "n < 2 ^ 31"
  obtain c s where cs: "show_nat n = c # s" by (cases "show_nat n") auto
  then have c: "isdigit c" using show_nat_digits [of n] by simp
  then have "\<not> isspace c" "c \<noteq> CHR ''-''" "c \<noteq> CHR ''+''" by (auto simp: char_defs)
  moreover have u: "unat (of_nat n :: 32 word) = n" by (rule unat_of_nat32) (use n in simp)
  have "sint (of_nat n :: 32 word) = int n" by (rule sint32_small [of "of_nat n", unfolded u, OF n])
  then have "sint (atoi (show_nat n)) = int n" using n by (simp add: atoi_show_nat)
  ultimately show ?thesis using cs c by (simp add: sscanf_int_def Let_def)
qed

lemma get_int_show_nat [simp]: "n < 2 ^ 31 \<Longrightarrow> GET_INT_FROM_STRING_ARG (show_nat n) old = Inr (int n)"
  by (simp add: GET_INT_FROM_STRING_ARG_def sscanf_show_nat)

text \<open>Options with their values, the long form they are written in, and what they stand for.\<close>

datatype copt =
    Port nat | Voices nat | SndPort nat | Config string | Logfile string | Pidfile string
  | RecordFile string | StartTime string | EndTime string | SndDevice string
  | PlaybackMode | RecordMode | Nodaemon

fun copt_text :: "copt \<Rightarrow> string" where
  "copt_text (Port n) = ''--port='' @ show_nat n"
| "copt_text (Voices n) = ''--voices='' @ show_nat n"
| "copt_text (SndPort n) = ''--snd-port='' @ show_nat n"
| "copt_text (Config s) = ''--config='' @ s"
| "copt_text (Logfile s) = ''--logfile='' @ s"
| "copt_text (Pidfile s) = ''--pidfile='' @ s"
| "copt_text (RecordFile s) = ''--record-file='' @ s"
| "copt_text (StartTime s) = ''--start-time='' @ s"
| "copt_text (EndTime s) = ''--end-time='' @ s"
| "copt_text (SndDevice s) = ''--snd-device='' @ s"
| "copt_text PlaybackMode = ''--playback-mode''"
| "copt_text RecordMode = ''--record-mode''"
| "copt_text Nodaemon = ''--nodaemon''"

fun copt_ok :: "copt \<Rightarrow> bool" where
  "copt_ok (Port n) = (n < 2 ^ 31)" | "copt_ok (Voices n) = (n < 2 ^ 31)" | "copt_ok (SndPort n) = (n < 2 ^ 31)"
| "copt_ok (Config s) = (s \<noteq> [])" | "copt_ok (Logfile s) = (s \<noteq> [])" | "copt_ok (Pidfile s) = (s \<noteq> [])"
| "copt_ok (RecordFile s) = (s \<noteq> [])" | "copt_ok (StartTime s) = (s \<noteq> [])" | "copt_ok (EndTime s) = (s \<noteq> [])"
| "copt_ok (SndDevice s) = (s \<noteq> [])" | "copt_ok PlaybackMode = True" | "copt_ok RecordMode = True"
| "copt_ok Nodaemon = True"

fun copt_given :: "copt \<Rightarrow> args_info \<Rightarrow> bool" where
  "copt_given (Port n) = port_given" | "copt_given (Voices n) = voices_given"
| "copt_given (SndPort n) = snd_port_given" | "copt_given (Config s) = config_given"
| "copt_given (Logfile s) = logfile_given" | "copt_given (Pidfile s) = pidfile_given"
| "copt_given (RecordFile s) = record_file_given" | "copt_given (StartTime s) = start_time_given"
| "copt_given (EndTime s) = end_time_given" | "copt_given (SndDevice s) = snd_device_given"
| "copt_given PlaybackMode = playback_mode_given" | "copt_given RecordMode = record_mode_given"
| "copt_given Nodaemon = nodaemon_given"

fun copt_set :: "copt \<Rightarrow> args_info \<Rightarrow> args_info" where
  "copt_set (Port n) a = a\<lparr>port_arg := int n, port_given := True\<rparr>"
| "copt_set (Voices n) a = a\<lparr>voices_arg := int n, voices_given := True\<rparr>"
| "copt_set (SndPort n) a = a\<lparr>snd_port_arg := int n, snd_port_given := True\<rparr>"
| "copt_set (Config s) a = a\<lparr>config_arg := Some s, config_given := True\<rparr>"
| "copt_set (Logfile s) a = a\<lparr>logfile_arg := Some s, logfile_given := True\<rparr>"
| "copt_set (Pidfile s) a = a\<lparr>pidfile_arg := Some s, pidfile_given := True\<rparr>"
| "copt_set (RecordFile s) a = a\<lparr>record_file_arg := Some s, record_file_given := True\<rparr>"
| "copt_set (StartTime s) a = a\<lparr>start_time_arg := Some s, start_time_given := True\<rparr>"
| "copt_set (EndTime s) a = a\<lparr>end_time_arg := Some s, end_time_given := True\<rparr>"
| "copt_set (SndDevice s) a = a\<lparr>snd_device_arg := Some s, snd_device_given := True\<rparr>"
| "copt_set PlaybackMode a = a\<lparr>playback_mode_given := True\<rparr>"
| "copt_set RecordMode a = a\<lparr>record_mode_given := True\<rparr>"
| "copt_set Nodaemon a = a\<lparr>nodaemon_given := True\<rparr>"

text \<open>Two options of one kind.\<close>

definition copt_kind :: "copt \<Rightarrow> string" where
  "copt_kind c = option_name (copt_text c)"

lemma one_option_copt:
  "copt_ok c \<Longrightarrow> \<not> copt_given c a \<Longrightarrow> one_option (copt_text c) rest a = Inr (copt_set c a, rest)"
  by (cases c) (simp_all add: one_option_def long_option_def once_with_def option_name_def option_value_def)

lemma copt_given_set:
  "copt_kind c \<noteq> copt_kind d \<Longrightarrow> copt_given d (copt_set c a) = copt_given d a"
  by (cases c; cases d) (simp_all add: copt_kind_def option_name_def)

lemma zero_not_given: "\<not> copt_given c zero_args"
  by (cases c) (simp_all add: zero_args_def)

lemma parse_copts:
  "\<forall>c\<in>set cs. copt_ok c \<and> \<not> copt_given c a \<Longrightarrow> distinct (map copt_kind cs) \<Longrightarrow>
   parse_loop (map copt_text cs) a = Inr (fold copt_set cs a)"
proof (induction cs arbitrary: a)
  case (Cons c cs)
  have "\<forall>d\<in>set cs. copt_ok d \<and> \<not> copt_given d (copt_set c a)"
    using Cons.prems copt_given_set [of c _ a] by (auto simp: image_iff)
  then show ?case using Cons one_option_copt [of c a] by simp
qed simp

text \<open>
  C39.  Long options are read back: any options of different kinds, in any order, with values that are not
  empty and numbers below two to the power of 31, set exactly their fields.
\<close>

theorem long_options_read_back:
  assumes "\<forall>c\<in>set cs. copt_ok c" and "distinct (map copt_kind cs)"
  shows "parseCmdlineOpts (map copt_text cs) = Inr (fold copt_set cs zero_args)"
  using parse_copts [of cs zero_args] assms zero_not_given by (simp add: parseCmdlineOpts_def)

theorem long_options_read_back_witness:
  "parseCmdlineOpts [''--config=/etc/peep.conf'', copt_text (Port 2001), ''--nodaemon''] =
     Inr (zero_args\<lparr>config_arg := Some ''/etc/peep.conf'', config_given := True, port_arg := 2001, port_given := True,
       nodaemon_given := True\<rparr>)"
  using long_options_read_back [of "[Config ''/etc/peep.conf'', Port 2001, Nodaemon]"]
  by (simp add: copt_kind_def option_name_def zero_args_def)

text \<open>
  The short form of the port never works as documented.  \<open>-pN\<close> at the end of the command line reads a
  \<open>NULL\<close> argument, \<open>-p N\<close> leaves the process, and \<open>-pN M\<close> takes the port from the second number.
\<close>

theorem short_port_option:
  assumes "n < 2 ^ 31" and "m < 2 ^ 31"
  shows "parseCmdlineOpts [''-p'' @ show_nat n] = Inl NullDeref \<and>
    parseCmdlineOpts [''-p'', show_nat n] = Inl ProcessExit \<and>
    parseCmdlineOpts [''-p'' @ show_nat n, show_nat m] = Inr (zero_args\<lparr>port_arg := int m, port_given := True\<rparr>)"
proof -
  obtain c s where cs: "show_nat n = c # s" by (cases "show_nat n") auto
  then have "isdigit c" using show_nat_digits [of n] by simp
  then have c: "c \<noteq> CHR ''-''" by (auto simp: char_defs)
  have "one_option (show_nat n) [] a = Inl ProcessExit" for a
    using cs c by (simp add: one_option_def)
  then show ?thesis
    using assms by (simp add: parseCmdlineOpts_def one_option_def short_option_def GET_INT_ARG_def zero_args_def)
qed

theorem short_port_option_witness: "parseCmdlineOpts [''-p'' @ show_nat 2001] = Inl NullDeref"
  using short_port_option [of 2001 0] by simp

end
