(* ===== verification/Main_Program.thy ===== *)
theory Main_Program
  imports Engine Playback_Go Parser Cmdline
begin

text \<open>
  main.c: the daemon as a whole.  \<open>process\<close> joins the static state of all modules, \<open>engine_turn\<close> is one
  turn of the engine thread, \<open>handleSignal\<close> the teardown and \<open>peep_main\<close> the start-up.  Forking, the
  file with the process number and the log are left out, and registering the two signal handlers is
  taken to succeed.  What the parts do together is shown in
  Daemon; here only the split of the voices.
\<close>

section \<open>State\<close>

text \<open>
  The mixer, sound table and server are in the parser's state, the engine queue in the server's; \<open>engine_of\<close>
  and \<open>put_engine\<close> are the engine's view of the same variables.
\<close>

record process =
  pr_ps :: parser
  pr_pb :: playback
  pr_lastc :: int
  ethread :: "thread_state option"
  mthread :: "thread_state option"

definition engine_of :: "process \<Rightarrow> engine" where
  "engine_of s = \<lparr>en_w = ps_w (pr_ps s), en_pb = pr_pb s, en_q = sv_queue (ps_sv (pr_ps s)), en_lastc = pr_lastc s\<rparr>"

definition put_engine :: "engine \<Rightarrow> process \<Rightarrow> process" where
  "put_engine en s = s\<lparr>pr_ps := (pr_ps s)\<lparr>ps_w := en_w en, ps_sv := (ps_sv (pr_ps s))\<lparr>sv_queue := en_q en\<rparr>\<rparr>,
     pr_pb := en_pb en, pr_lastc := en_lastc en\<rparr>"

definition process_static :: process where
  "process_static = \<lparr>pr_ps = parser_static, pr_pb = playback_static, pr_lastc = 0, ethread = None, mthread = None\<rparr>"

definition process_port :: "process \<Rightarrow> int" where
  "process_port s = sv_port (ps_sv (pr_ps s))"

section \<open>The engine thread\<close>

text \<open>
  One turn of \<open>engineLoop\<close>; \<open>None\<close>: it waits for an event.  An event whose sound is unknown or of the other
  type is discarded, its sound string is not freed.
\<close>

definition engine_turn :: "bool \<Rightarrow> bool \<Rightarrow> engine \<Rightarrow> engine option result" where
  "engine_turn eintr io_ok s =
     bindE (engineDequeue eintr (en_q s)) (\<lambda>r.
     case r of None \<Rightarrow> Inr None
     | Some (client_event, q) \<Rightarrow>
         let s1 = s\<lparr>en_q := q\<rparr> in
         bindE (case e_sound client_event of None \<Rightarrow> Inl NullDeref
                | Some name \<Rightarrow> engineSoundTableRetrieve name (stable (en_w s1))) (\<lambda>entry.
         case entry of None \<Rightarrow> Inr (Some s1)
         | Some ent \<Rightarrow>
             if e_type client_event \<noteq> event_type_code (se_type ent) then Inr (Some s1)
             else bindE (engineIO io_ok client_event s1) (\<lambda>(s2, freed). Inr (Some s2))))"

section \<open>The mixer thread\<close>

text \<open>
  One turn of \<open>doMixing\<close>: a chunk, then the two points at which a request to end takes effect.  The chunk
  is what \<open>soundPlayChunk\<close> is given.
\<close>

definition doMixing :: "process \<Rightarrow> (16 word list \<times> process) result" where
  "doMixing s =
     (case mthread s of
        Some t \<Rightarrow>
          if t = Ended then Inr ([], s)
          else bindE (mixer (ps_w (pr_ps s))) (\<lambda>(chunk, w).
               Inr (chunk, s\<lparr>pr_ps := (pr_ps s)\<lparr>ps_w := w\<rparr>,
                           mthread := Some (threadSleep (threadCheckCancelled t))\<rparr>))
      | None \<Rightarrow> Inr ([], s))"

section \<open>Signals and shutdown\<close>

text \<open>
  The threads are asked to end, but not waited for.  The server module's shutdown is a parameter.  Only
  \<open>SIGHUP\<close> comes back.  Closing the log and removing the pid file, which nothing later depends on, are left
  out.
\<close>

definition handleSignal ::
  "(server \<Rightarrow> server result) \<Rightarrow> bool \<Rightarrow> timeval \<Rightarrow> signal \<Rightarrow> process \<Rightarrow> process result" where
  "handleSignal real_shutdown seek_ok now sig s0 =
     (let s = s0\<lparr>ethread := map_option threadKill (ethread s0), mthread := map_option threadKill (mthread s0)\<rparr> in
     bindE (engineShutdown (engine_of s)) (\<lambda>en.
     bindE (mixerShutdown (en_w en)) (\<lambda>(freed, w).
     let s1 = put_engine (en\<lparr>en_w := w\<rparr>) s in
     bindE (serverShutdown real_shutdown (ps_sv (pr_ps s1))) (\<lambda>sv.
     let s2 = s1\<lparr>pr_ps := (pr_ps s1)\<lparr>ps_sv := sv\<rparr>\<rparr>;
         closed = (if fst (playbackModeOn None (pr_pb s2)) \<noteq> 0
                   then playbackFileShutdown seek_ok now (pr_pb s2) else Inr (pr_pb s2)) in
     bindE closed (\<lambda>pb.
     if sig = SIGHUP then Inr (s2\<lparr>pr_pb := pb\<rparr>) else Inl ProcessExit)))))"

definition shutDown :: "(server \<Rightarrow> server result) \<Rightarrow> bool \<Rightarrow> timeval \<Rightarrow> process \<Rightarrow> process result" where
  "shutDown real_shutdown seek_ok now s = handleSignal real_shutdown seek_ok now SIGINT s"

section \<open>Start-up\<close>

text \<open>
  What the start-up finds: the files, the default path of the configuration (set by the build), the
  record file, the clock, and the server module as functions.
\<close>

record main_env =
  me_penv :: penv
  me_config_path :: string
  me_log :: "string \<Rightarrow> (playback_h option \<times> ENGINE_EVENT list) option"
  me_time :: "string \<Rightarrow> int"
  me_now :: timeval
  me_clock :: "nat \<Rightarrow> timeval"
  me_alloc_ok :: bool
  me_seek_ok :: bool
  me_write_ok :: bool
  me_eintr :: bool
  me_serverInit :: "server \<Rightarrow> (int \<times> server) result"
  me_serverStart :: "process \<Rightarrow> process result"
  me_shutdown :: "server \<Rightarrow> server result"
  me_thread_ok :: bool

definition DEFAULT_RECORD_FILE :: string where "DEFAULT_RECORD_FILE = ''/var/log/peepd.log''"
definition DEFAULT_PORT :: int where "DEFAULT_PORT = 2001"
definition DEFAULT_MIXER_VOICES :: int where "DEFAULT_MIXER_VOICES = 16"
definition PERCENT_STATE_SOUNDS :: real where "PERCENT_STATE_SOUNDS = 1 / 4"

definition no_sbuffs_arg :: nat where
  "no_sbuffs_arg = nat (trunc (of_int DEFAULT_MIXER_VOICES * PERCENT_STATE_SOUNDS))"

definition no_ebuffs_arg :: nat where
  "no_ebuffs_arg = nat (DEFAULT_MIXER_VOICES - int no_sbuffs_arg)"

definition give_up :: "main_env \<Rightarrow> process \<Rightarrow> process result" where
  "give_up env s = shutDown (me_shutdown env) (me_seek_ok env) (me_now env) s"

text \<open>A string option or its default; an option at the end of the command line has no string.\<close>

definition arg_or :: "bool \<Rightarrow> string option \<Rightarrow> string \<Rightarrow> string result" where
  "arg_or given arg dflt =
     (if given then (case arg of None \<Rightarrow> Inl NullDeref | Some x \<Rightarrow> Inr x) else Inr dflt)"

definition configure :: "main_env \<Rightarrow> args_info \<Rightarrow> process \<Rightarrow> process result" where
  "configure env a s =
     bindE (parserInit (pr_ps s)) (\<lambda>p1.
     bindE (arg_or (config_given a) (config_arg a) (me_config_path env)) (\<lambda>file.
     bindE (loopE (parserParseConfigFile (me_penv env) file p1)) (\<lambda>(parsed, p2).
     bindE (parserDestroy p2) (\<lambda>p3.
     let s1 = s\<lparr>pr_ps := p3\<rparr> in
     if parsed < 0 then give_up env s1 else Inr s1))))"

definition playback_setup :: "main_env \<Rightarrow> args_info \<Rightarrow> process \<Rightarrow> process result" where
  "playback_setup env a s =
     (if playback_mode_given a \<or> record_mode_given a
      then let (x, pb1) = playbackModeOn (Some 1) (pr_pb s);
               mode = (if record_mode_given a then RECORD_MODE else PLAY_MODE);
               (y, pb2) = playbackSetMode (Some mode) pb1 in
           bindE (arg_or (record_file_given a) (record_file_arg a) DEFAULT_RECORD_FILE) (\<lambda>file.
           bindE (playbackFileInit (me_write_ok env) (me_log env file) (me_now env) pb2) (\<lambda>(r, pb3).
           let s1 = s\<lparr>pr_pb := pb3\<rparr> in
           if r = None \<or> r = Some 0 then give_up env s1 else Inr s1))
      else Inr s)"

definition start_server :: "main_env \<Rightarrow> args_info \<Rightarrow> process \<Rightarrow> process result" where
  "start_server env a s =
     (let port = (if port_given a then port_arg a else DEFAULT_PORT);
          s1 = s\<lparr>pr_ps := (pr_ps s)\<lparr>ps_sv := serverSetPort port (ps_sv (pr_ps s))\<rparr>\<rparr> in
      bindE (me_serverInit env (ps_sv (pr_ps s1))) (\<lambda>(rc, sv).
      let s2 = s1\<lparr>pr_ps := (pr_ps s1)\<lparr>ps_sv := sv\<rparr>\<rparr> in
      bindE (if rc < 0 then give_up env s2 else Inr s2) (\<lambda>s3. me_serverStart env s3)))"

definition replay :: "main_env \<Rightarrow> args_info \<Rightarrow> process \<Rightarrow> process result" where
  "replay env a s =
     bindE (loopE (playbackGo (me_eintr env)
              (if start_time_given a then map_option (me_time env) (start_time_arg a) else None)
              (if end_time_given a then map_option (me_time env) (end_time_arg a) else None)
              (pr_pb s) (sv_queue (ps_sv (pr_ps s))) (me_clock env)))
       (\<lambda>(pb, q, out). Inr (s\<lparr>pr_pb := pb, pr_ps := (pr_ps s)\<lparr>ps_sv := (ps_sv (pr_ps s))\<lparr>sv_queue := q\<rparr>\<rparr>\<rparr>))"

text \<open>The results of \<open>startThread\<close> are not looked at.\<close>

definition start_threads :: "main_env \<Rightarrow> process \<Rightarrow> process" where
  "start_threads env s =
     s\<lparr>mthread := snd (startThread (me_thread_ok env) (mthread s)),
       ethread := snd (startThread (me_thread_ok env) (ethread s))\<rparr>"

definition peep_main :: "main_env \<Rightarrow> string list \<Rightarrow> process \<Rightarrow> process result" where
  "peep_main env args s =
     bindE (parseCmdlineOpts args) (\<lambda>a.
     bindE (engineInit (me_alloc_ok env) no_ebuffs_arg no_sbuffs_arg (engine_of s)) (\<lambda>en.
     bindE (configure env a (put_engine en s)) (\<lambda>s1.
     bindE (playback_setup env a (start_threads env s1)) (\<lambda>s2.
     if fst (playbackModeOn None (pr_pb s2)) \<noteq> 0 \<and> fst (playbackSetMode None (pr_pb s2)) = PLAY_MODE
     then replay env a s2 else start_server env a s2))))"

section \<open>The port\<close>

lemma sizes: "no_sbuffs_arg = 4" "no_ebuffs_arg = 12"
  by (simp_all add: no_sbuffs_arg_def no_ebuffs_arg_def DEFAULT_MIXER_VOICES_def PERCENT_STATE_SOUNDS_def trunc_def)

end
