(* ===== verification/Server_Events.thy ===== *)
theory Server_Events
  imports Server
begin

text \<open>
  Properties of server.c.  The two binary formats, the packet header and the event body, are
  instances of one contract, \<open>wire_codec\<close>; the facts that decoding is insensitive to what
  follows in the buffer and that no two values have the same encoding come from there.  Shown:
  both formats survive the wire, an event sent in either of the two ways reaches the engine queue
  with the same contents, which classes the server takes for its own, which client broadcasts it
  answers, and how far a datagram can make it read.
\<close>

section \<open>The contract of a wire format\<close>

locale wire_codec =
  fixes enc :: "'a \<Rightarrow> 'b list"
    and dec :: "'b list \<Rightarrow> 'a result"
    and wf :: "'a \<Rightarrow> bool"
  assumes dec_enc: "wf x \<Longrightarrow> dec (enc x @ rest) = Inr x"
begin

lemma decode: "wf x \<Longrightarrow> dec (enc x) = Inr x"
  using dec_enc [of x "[]"] by simp

lemma encode_inj:
  assumes "wf x" and "wf y" and "enc x @ r = enc y @ t"
  shows "x = y \<and> r = t"
proof -
  have "(Inr x :: 'a result) = Inr y" using dec_enc [OF assms(1), of r] dec_enc [OF assms(2), of t] assms(3) by simp
  with assms(3) show ?thesis by simp
qed

lemma stream_inj:
  "list_all wf xs \<Longrightarrow> list_all wf ys \<Longrightarrow> length xs = length ys \<Longrightarrow>
   concat (map enc xs) = concat (map enc ys) \<Longrightarrow> xs = ys"
proof (induction xs arbitrary: ys)
  case (Cons x xs)
  then obtain y zs where ys: "ys = y # zs" by (cases ys) auto
  with Cons.prems have "enc x @ concat (map enc xs) = enc y @ concat (map enc zs)" "wf x" "wf y" by simp_all
  from encode_inj [OF this(2,3,1)] Cons ys show ?case by simp
qed simp

end

lemma length3E: "length xs = 3 \<Longrightarrow> (\<And>a b c. xs = [a, b, c] \<Longrightarrow> P) \<Longrightarrow> P"
  by (auto simp: numeral_eq_Suc length_Suc_conv)

lemma length4E: "length xs = 4 \<Longrightarrow> (\<And>a b c d. xs = [a, b, c, d] \<Longrightarrow> P) \<Longrightarrow> P"
  by (auto simp: numeral_eq_Suc length_Suc_conv)

lemma length5E: "length xs = 5 \<Longrightarrow> (\<And>a b c d e. xs = [a, b, c, d, e] \<Longrightarrow> P) \<Longrightarrow> P"
  by (auto simp: numeral_eq_Suc length_Suc_conv)

section \<open>The header\<close>

text \<open>A header as a client sends it: magic number and length in network order.\<close>

definition wire_header :: "HEADER \<Rightarrow> 8 word list" where
  "wire_header h = header_bytes (h\<lparr>h_magic := htonl (h_magic h), h_len := htonl (h_len h)\<rparr>)"

definition header_wf :: "HEADER \<Rightarrow> bool" where
  "header_wf h \<longleftrightarrow> length (h_reserved h) = 5"

lemma length_wire_header: "header_wf h \<Longrightarrow> length (wire_header h) = 16"
  by (simp add: wire_header_def header_bytes_def header_wf_def)

lemma drop_wire_header: "header_wf h \<Longrightarrow> drop 16 (wire_header h @ xs) = xs"
  using length_wire_header [of h] by simp

lemma wire_header_image: "header_wf h \<Longrightarrow> received_header (wire_header h @ rest) = Inr h"
proof -
  assume "header_wf h"
  then obtain a b c d e where r: "h_reserved h = [a, b, c, d, e]"
    unfolding header_wf_def by (rule length5E)
  obtain m1 m2 m3 m4 where m: "le_bytes (htonl (h_magic h)) = [m1, m2, m3, m4]"
    by (rule length4E [OF length_le_bytes [of "htonl (h_magic h)"]])
  obtain l1 l2 l3 l4 where l: "le_bytes (htonl (h_len h)) = [l1, l2, l3, l4]"
    by (rule length4E [OF length_le_bytes [of "htonl (h_len h)"]])
  have mw: "htonl (le_word [m1, m2, m3, m4]) = h_magic h" unfolding m [symmetric] by simp
  have lw: "htonl (le_word [l1, l2, l3, l4]) = h_len h" unfolding l [symmetric] by simp
  show ?thesis
    by (simp add: received_header_def wire_header_def header_bytes_def bytes_header_def r m l mw lw
        eval_nat_numeral del: le_word.simps)
qed

interpretation hdr: wire_codec wire_header received_header header_wf
  by unfold_locales (rule wire_header_image)

section \<open>The event body\<close>

definition wire_event :: "EVENT \<Rightarrow> 8 word list" where
  "wire_event ev = [e_type ev, e_loc ev, e_prior ev, e_vol ev, e_dither ev] @ e_reserved ev @
     le_bytes (htonl (e_flags ev)) @ le_bytes (htonl (e_sound_len ev)) @
     map char_byte (case e_sound ev of None \<Rightarrow> [] | Some s \<Rightarrow> s)"

definition event_wf :: "EVENT \<Rightarrow> bool" where
  "event_wf ev \<longleftrightarrow> length (e_reserved ev) = 3 \<and> (\<exists>s. e_sound ev = Some s \<and> NUL \<notin> set s \<and>
     length s < 2 ^ 31 \<and> e_sound_len ev = of_nat (length s))"

lemma copy_string_at:
  assumes "unat len \<le> length mem" and "unat len < 2 ^ 31"
  shows "copy_string len mem = Inr (map byte_char (take (unat len) mem) @ [NUL])"
proof -
  have s: "sint len = int (unat len)" by (rule sint32_small [OF assms(2)])
  have "\<not> int (unat len) < - 1" "int (unat len) \<noteq> - 1" by linarith+
  then show ?thesis using assms(1) unfolding copy_string_def s by (simp only: if_False not_less [symmetric] simp_thms)
qed

lemma unat_length32: "length bs < 2 ^ 31 \<Longrightarrow> unat (of_nat (length bs) :: 32 word) = length bs"
  by (rule unat_of_nat32) simp

lemma copy_string_fits:
  assumes "length bs < 2 ^ 31"
  shows "copy_string (of_nat (length bs)) (bs @ rest) = Inr (map byte_char bs @ [NUL])"
proof -
  note u = unat_length32 [OF assms]
  have le: "length bs \<le> length (bs @ rest)" and tk: "take (length bs) (bs @ rest) = bs" by simp_all
  show ?thesis by (rule copy_string_at [of "of_nat (length bs)" "bs @ rest", unfolded u tk, OF le assms])
qed

lemma wire_event_image: "event_wf ev \<Longrightarrow> event_of_bytes (wire_event ev @ rest) = Inr ev"
proof -
  assume "event_wf ev"
  then obtain a b c s where r: "e_reserved ev = [a, b, c]" and s: "e_sound ev = Some s"
    and nul: "NUL \<notin> set s" and len: "length s < 2 ^ 31" "e_sound_len ev = of_nat (length s)"
    unfolding event_wf_def by (metis length3E)
  obtain m1 m2 m3 m4 where m: "le_bytes (htonl (e_flags ev)) = [m1, m2, m3, m4]"
    by (rule length4E [OF length_le_bytes [of "htonl (e_flags ev)"]])
  obtain l1 l2 l3 l4 where l: "le_bytes (htonl (e_sound_len ev)) = [l1, l2, l3, l4]"
    by (rule length4E [OF length_le_bytes [of "htonl (e_sound_len ev)"]])
  have mw: "htonl (le_word [m1, m2, m3, m4]) = e_flags ev" unfolding m [symmetric] by simp
  have lw: "htonl (le_word [l1, l2, l3, l4]) = of_nat (length s)" unfolding l [symmetric] using len(2) by simp
  have cp: "copy_string (of_nat (length s)) (map char_byte s @ rest) = Inr (s @ [NUL])"
    using copy_string_fits [of "map char_byte s" rest] len(1) by simp
  have "wire_event ev @ rest = [e_type ev, e_loc ev, e_prior ev, e_vol ev, e_dither ev, a, b, c,
      m1, m2, m3, m4, l1, l2, l3, l4] @ map char_byte s @ rest"
    by (simp add: wire_event_def r s m l)
  then show ?thesis
    using nul r s len(2)
    by (simp add: event_of_bytes_def mw lw cp Let_def eval_nat_numeral del: le_word.simps)
qed

interpretation evt: wire_codec wire_event event_of_bytes event_wf
  by unfold_locales (rule wire_event_image)


text \<open>
  C19.  The packet header survives the wire.  A header with five reserved bytes, sent as 16 bytes
  with magic number and length in network order, is decoded to itself, whatever follows it in the
  buffer, and no other header has the same image.
\<close>

theorem wire_header_roundtrip:
  assumes "header_wf h"
  shows "length (wire_header h) = 16 \<and> received_header (wire_header h @ rest) = Inr h \<and>
    (\<forall>h' rest'. header_wf h' \<and> wire_header h' @ rest' = wire_header h @ rest \<longrightarrow> h' = h \<and> rest' = rest)"
  using assms length_wire_header hdr.dec_enc hdr.encode_inj by blast

definition sample_header :: HEADER where
  "sample_header = \<lparr>h_version = 2, h_type = 4, h_content = 2, h_reserved = [0, 0, 0, 0, 0],
     h_magic = 0xDEADBEEF, h_len = 20\<rparr>"

theorem wire_header_roundtrip_witness:
  "received_header (wire_header sample_header @ [7]) = Inr sample_header"
  using wire_header_roundtrip [of sample_header "[7]"] by (simp add: header_wf_def sample_header_def)

section \<open>Events reach the engine queue\<close>

definition server_static :: server where
  "server_static = \<lparr>sv_port = 0, broadcast_list = Null, id_string = None,
     sv_queue = snd (engineQueueInit True True engine_queue_static), sent = []\<rparr>"

lemma server_static_queue: "eq_rel (sv_queue server_static) []"
  using eq_rel_init by (simp add: server_static_def)

lemma enqueue_msg:
  assumes "eq_rel (sv_queue s) xs" and "length xs < SEM_VALUE_MAX"
  shows "\<exists>q. serverProcessClientEvent expat (EventMsg ev) len s = Inr (s\<lparr>sv_queue := q\<rparr>) \<and> eq_rel q (xs @ [ev])"
  using engineEnqueue_rel [OF assms, of ev] by auto

text \<open>
  C15.  A binary event packet.  A well-formed event sent as an event body is put into the engine
  queue with every field, the sound name and its length as they were sent, and nothing else in the
  server changes.
\<close>

theorem event_packet_enqueued:
  assumes "event_wf ev" and "h_content h = PROT_CONTENT_EVENT"
    and "eq_rel (sv_queue s) xs" and "length xs < SEM_VALUE_MAX"
  shows "\<exists>q. serverProcessClientEventPacket expat h (wire_event ev @ rest) s = Inr (s\<lparr>sv_queue := q\<rparr>) \<and>
    eq_rel q (xs @ [ev])"
  using enqueue_msg [OF assms(3,4), of expat ev "h_len h"] evt.dec_enc [OF assms(1)] assms(2)
  by (simp add: serverProcessClientEventPacket_def prot_codes del: serverProcessClientEvent.simps)

definition sample_event :: EVENT where
  "sample_event = zero_event\<lparr>e_type := 0, e_loc := 128, e_prior := 3, e_vol := 200, e_flags := 1,
     e_sound_len := 4, e_sound := Some ''bird''\<rparr>"

theorem event_packet_enqueued_witness:
  "\<exists>q. serverProcessClientEventPacket (\<lambda>_. []) sample_header (wire_event sample_event @ [])
       server_static = Inr (server_static\<lparr>sv_queue := q\<rparr>) \<and> eq_rel q [sample_event]"
proof -
  have "event_wf sample_event" by (simp add: event_wf_def sample_event_def zero_event_def)
  moreover have "h_content sample_header = PROT_CONTENT_EVENT" by (simp add: sample_header_def prot_codes)
  ultimately show ?thesis
    using event_packet_enqueued [of sample_event sample_header server_static "[]" "\<lambda>_. []" "[]"]
      server_static_queue by (simp add: SEM_VALUE_MAX_def)
qed

text \<open>
  The event a notice with the elements \<open>es\<close> and the sound \<open>sound\<close> stands for: a number is the low
  byte of the decimal number in its element, and 255 when there is no such element; without flags
  no flag is set.
\<close>

definition byte_field :: "string \<Rightarrow> xml_element list \<Rightarrow> 8 word" where
  "byte_field tag es = (case text_of tag es of None \<Rightarrow> 255 | Some t \<Rightarrow> ucast (atoi t))"

definition notice_event :: "string \<Rightarrow> xml_element list \<Rightarrow> EVENT" where
  "notice_event sound es =
     zero_event\<lparr>e_type := byte_field ''type'' es, e_loc := byte_field ''location'' es,
       e_prior := byte_field ''priority'' es, e_vol := byte_field ''volume'' es,
       e_dither := byte_field ''dither'' es,
       e_flags := (case text_of ''flags'' es of None \<Rightarrow> 0 | Some t \<Rightarrow> atoi t),
       e_sound_len := of_nat (length sound), e_sound := Some sound\<rparr>"

lemma byte_field_decimal:
  "text_of tag es = Some (show_nat n) \<Longrightarrow> n < 256 \<Longrightarrow> byte_field tag es = of_nat n"
  by (simp add: byte_field_def atoi_show_nat unsigned_of_nat take_bit_nat_eq_self)

lemma byte_field_notice:
  "word_of_int (case text_of tag es of None \<Rightarrow> - 1 | Some t \<Rightarrow> byte_of_text t) = byte_field tag es"
  by (simp add: byte_field_def byte_of_text_def split: option.split)

lemma fields_set_event:
  assumes "list_all element_ok es"
  shows "serverConvertNoticeToEngineEvent (fields_set es noticeCreateNotice) =
    map_option (\<lambda>sound. notice_event sound es) (text_of ''sound'' es)"
proof -
  have "word_of_int (case text_of ''flags'' es of None \<Rightarrow> 0 | Some t \<Rightarrow> sint (atoi t)) =
      (case text_of ''flags'' es of None \<Rightarrow> 0 | Some t \<Rightarrow> atoi t)"
    by (simp split: option.split)
  then show ?thesis
    using fields_set_fields [OF assms]
    by (simp add: serverConvertNoticeToEngineEvent_def byte_field_notice notice_event_def split: option.split)
qed

text \<open>
  C20.  An XML notice.  The engine queue has room, and the body of the packet is the text of a document of which the XML parser
  reports the start and the end of the root element, and between them elements and blank texts.  The
  elements come in any number and order, with their tags in upper or lower case, and each with its
  text in one piece; the texts of sound, type, location, priority, volume, dither and flags are words
  (no blank, tab or line end), and other elements (host, client, data, date, metric or
  unknown ones) have any text that can be normalised.  If there is a sound, the event of the last
  element with each tag goes into the engine queue; type, location, priority, volume and dither are
  255 where their element is missing, and decimal numbers below 256 come back as they are.  If there
  is no sound, an event that was never written is read.
\<close>

theorem xml_notice_enqueued:
  assumes "list_all blank_ok gap" and "list_all element_ok es"
    and "expat xml = notice_callbacks top_tag gap es"
    and "NUL \<notin> set xml" and "length xml < 2 ^ 31"
    and "h_content h = PROT_CONTENT_XML" and "h_len h = of_nat (length xml)"
    and "eq_rel (sv_queue s) xs" and "length xs < SEM_VALUE_MAX"
  shows "(case text_of ''sound'' es of
      None \<Rightarrow> serverProcessClientEventPacket expat h (map char_byte xml @ rest) s = Inl UninitRead
    | Some sound \<Rightarrow> \<exists>q.
        serverProcessClientEventPacket expat h (map char_byte xml @ rest) s = Inr (s\<lparr>sv_queue := q\<rparr>) \<and>
        eq_rel q (xs @ [notice_event sound es])) \<and>
    (\<forall>tag n. n < 256 \<longrightarrow> text_of tag es = Some (show_nat n) \<longrightarrow> byte_field tag es = of_nat n)"
proof -
  have "copy_string (of_nat (length xml)) (map char_byte xml @ rest) = Inr (xml @ [NUL])"
    using copy_string_fits [of "map char_byte xml" rest] assms(5)
    by (simp only: length_map list.map_comp byte_char_comp list.map_id)
  moreover have "cstring (xml @ [NUL]) = Inr xml" using cstring_terminated [OF assms(4), of "[]"] .
  ultimately have run: "serverProcessClientEventPacket expat h (map char_byte xml @ rest) s =
      (case text_of ''sound'' es of None \<Rightarrow> Inl UninitRead
       | Some sound \<Rightarrow> bindE (engineEnqueue (notice_event sound es) (sv_queue s)) (\<lambda>q. Inr (s\<lparr>sv_queue := q\<rparr>)))"
    using assms(6,7) notice_callbacks_run [OF assms(1,2), of expat xml top_tag, OF assms(3)]
    by (simp add: serverProcessClientEventPacket_def processEventNoticeString_def
        fields_set_event [OF assms(2)] split: option.split)
  have "text_of ''sound'' es = Some sound \<Longrightarrow> \<exists>q.
      serverProcessClientEventPacket expat h (map char_byte xml @ rest) s = Inr (s\<lparr>sv_queue := q\<rparr>) \<and>
      eq_rel q (xs @ [notice_event sound es])" for sound
    using engineEnqueue_rel [OF assms(8,9), of "notice_event sound es"] by (auto simp: run)
  then show ?thesis using byte_field_decimal by (auto simp: run split: option.split)
qed

text \<open>A document, and what the parser reports of it; each text is followed by the rest of it.\<close>

definition sample_doc :: string where
  "sample_doc = ''<peep><host>den 12</host> <Sound>bird</Sound><volume>200</volume><sound>dove</sound></peep>''"

definition sample_elements :: "xml_element list" where
  "sample_elements =
     [\<lparr>el_tag = ''host'', el_text = ''den 12'', el_after = drop 18 sample_doc,
        el_gap = [('' '', CHR ''<'', drop 27 sample_doc)]\<rparr>,
      \<lparr>el_tag = ''Sound'', el_text = ''bird'', el_after = drop 37 sample_doc, el_gap = []\<rparr>,
      \<lparr>el_tag = ''volume'', el_text = ''200'', el_after = drop 56 sample_doc, el_gap = []\<rparr>,
      \<lparr>el_tag = ''sound'', el_text = ''dove'', el_after = drop 76 sample_doc, el_gap = []\<rparr>]"

definition sample_expat :: "string \<Rightarrow> xml_callback list" where
  "sample_expat xml = (if xml = sample_doc then notice_callbacks ''peep'' [] sample_elements else [])"

theorem xml_notice_enqueued_witness:
  "\<exists>q. serverProcessClientEventPacket sample_expat
         (sample_header\<lparr>h_content := PROT_CONTENT_XML, h_len := of_nat (length sample_doc)\<rparr>)
         (map char_byte sample_doc @ []) server_static = Inr (server_static\<lparr>sv_queue := q\<rparr>) \<and>
       eq_rel q [zero_event\<lparr>e_type := 255, e_loc := 255, e_prior := 255, e_vol := 200, e_dither := 255,
         e_sound_len := 4, e_sound := Some ''dove''\<rparr>]"
proof -
  have host: "createXmlNormalizedString (''den 12'' @ drop 18 sample_doc) (length ''den 12'') = Inr (Some ''den 12'')"
    using normalize_two_words [of "''den''" "CHR ''1''" "''2''" "CHR ''<''" "drop 19 sample_doc"]
    by (simp add: plain_def sample_doc_def isalnum_def isdigit_def code_def)
  have "list_all element_ok sample_elements"
    using host by (simp add: sample_elements_def element_ok_def event_tag_def element_text_def plain_def
        strcaseeq_def tolower_def isalnum_def isdigit_def code_def char_of_def bit_0)
  moreover have tx: "text_of tag sample_elements =
      (if strcaseeq ''sound'' tag then Some ''dove'' else if strcaseeq ''volume'' tag then Some ''200''
       else if strcaseeq ''Sound'' tag then Some ''bird'' else if strcaseeq ''host'' tag then Some ''den 12''
       else None)" for tag
    by (simp add: text_of_def sample_elements_def)
  moreover have "byte_field ''volume'' sample_elements = 200"
  proof -
    have "show_nat 200 = ''200''" by code_simp
    then show ?thesis
      using byte_field_decimal [of "''volume''" sample_elements 200]
      by (simp add: tx strcaseeq_def tolower_def code_def)
  qed
  moreover have "notice_event ''dove'' sample_elements =
      zero_event\<lparr>e_type := 255, e_loc := 255, e_prior := 255, e_vol := byte_field ''volume'' sample_elements,
        e_dither := 255, e_sound_len := 4, e_sound := Some ''dove''\<rparr>"
    by (simp add: notice_event_def byte_field_def tx strcaseeq_def tolower_def code_def zero_event_def)
  moreover have "NUL \<notin> set sample_doc" "length sample_doc = 91" by (simp_all add: sample_doc_def)
  ultimately show ?thesis
    using xml_notice_enqueued [of "[]" sample_elements sample_expat sample_doc "''peep''"
      "sample_header\<lparr>h_content := PROT_CONTENT_XML, h_len := of_nat (length sample_doc)\<rparr>" server_static "[]" "[]"]
      server_static_queue
    by (simp add: sample_expat_def SEM_VALUE_MAX_def)
qed

section \<open>Classes\<close>

definition register_classes :: "string list \<Rightarrow> server \<Rightarrow> server" where
  "register_classes cs s = fold (\<lambda>c st. snd (serverAddIDClass True c st)) cs s"

definition class_string :: "string list \<Rightarrow> string" where
  "class_string cs = concat (map (\<lambda>c. c @ PROT_CLASSDELIM) cs)"

lemma register_ident:
  "id_string (register_classes cs s) =
     (case id_string s of None \<Rightarrow> if cs = [] then None else Some (class_string cs)
      | Some i \<Rightarrow> Some (i @ class_string cs))"
  unfolding register_classes_def class_string_def
proof (induction cs arbitrary: s)
  case (Cons c cs)
  show ?case using Cons.IH by (simp add: serverAddIDClass_def split: option.split)
qed (simp split: option.split)

lemma suffix_snoc_split:
  assumes "suffix xs (c @ [d])"
  shows "xs = [] \<or> (\<exists>ys. xs = ys @ [d] \<and> suffix ys c)"
  using assms by (cases xs rule: rev_cases) (auto simp: suffix_def)

lemma sublist_class_head:
  assumes "d \<notin> set cls" and "d \<notin> set c"
  shows "sublist (cls @ [d]) ((c @ [d]) @ rest) \<longleftrightarrow> suffix cls c \<or> sublist (cls @ [d]) rest"
proof
  assume "sublist (cls @ [d]) ((c @ [d]) @ rest)"
  then consider "sublist (cls @ [d]) (c @ [d])" | "sublist (cls @ [d]) rest"
    | xs1 xs2 where "cls @ [d] = xs1 @ xs2" "suffix xs1 (c @ [d])" "prefix xs2 rest"
    unfolding sublist_append by blast
  then show "suffix cls c \<or> sublist (cls @ [d]) rest"
  proof cases
    case 1
    then obtain p q where "c @ [d] = p @ cls @ [d] @ q" by (auto simp: sublist_def)
    then show ?thesis using assms(2) by (cases q rule: rev_cases) (auto simp: suffix_def)
  next
    case 2
    then show ?thesis by simp
  next
    case (3 xs1 xs2)
    from suffix_snoc_split [OF 3(2)] show ?thesis
    proof
      assume "xs1 = []"
      with 3 show ?thesis by (auto intro: prefix_imp_sublist)
    next
      assume "\<exists>ys. xs1 = ys @ [d] \<and> suffix ys c"
      then obtain ys where ys: "xs1 = ys @ [d]" "suffix ys c" by blast
      then have "cls @ [d] = ys @ [d] @ xs2" using 3(1) by simp
      then have "xs2 = [] \<and> cls = ys" using assms(1) by (cases xs2 rule: rev_cases) auto
      with ys show ?thesis by simp
    qed
  qed
next
  assume "suffix cls c \<or> sublist (cls @ [d]) rest"
  then show "sublist (cls @ [d]) ((c @ [d]) @ rest)"
  proof
    assume "suffix cls c"
    then obtain p where "c = p @ cls" by (auto simp: suffix_def)
    then show ?thesis unfolding sublist_def by (metis append.assoc)
  next
    assume "sublist (cls @ [d]) rest"
    then show ?thesis unfolding sublist_append by blast
  qed
qed

lemma strstr_classes:
  assumes "CHR ''!'' \<notin> set cls" and "\<forall>c\<in>set cs. CHR ''!'' \<notin> set c"
  shows "strstr (class_string cs) (cls @ PROT_CLASSDELIM) \<longleftrightarrow> (\<exists>c\<in>set cs. suffix cls c)"
  using assms(2)
proof (induction cs)
  case (Cons c cs)
  then show ?case
    using sublist_class_head [OF assms(1), of c "class_string cs"]
    by (simp add: class_string_def strstr_iff_sublist)
qed (simp add: class_string_def)

text \<open>
  Which classes the server takes for its own.  After registering classes without the
  delimiter, asking for a class without the delimiter succeeds exactly when that class is a suffix
  of a registered one: a registered class is always found, but so is every tail of it.
\<close>

theorem serverContainsIDClass_suffix:
  assumes "id_string s = None" and "CHR ''!'' \<notin> set cls" and "\<forall>c\<in>set cs. CHR ''!'' \<notin> set c"
  shows "serverContainsIDClass cls (register_classes cs s) =
    (if \<exists>c\<in>set cs. suffix cls c then SERVER_SUCCESS else 0)"
  using strstr_classes [OF assms(2,3)] assms(1)
  by (cases "cs = []") (simp_all add: serverContainsIDClass_def register_ident)

theorem serverContainsIDClass_suffix_witness:
  "serverContainsIDClass ''hop'' (register_classes [''web'', ''shop''] server_static) = SERVER_SUCCESS"
  using serverContainsIDClass_suffix [of server_static "''hop''" "[''web'', ''shop'']"]
  by (simp add: server_static_def suffix_def)


section \<open>Client broadcasts\<close>

text \<open>The part of a broadcast string the scan looks at.\<close>

definition scanned :: "string \<Rightarrow> string" where
  "scanned str = takeWhile (\<lambda>c. c \<noteq> NUL \<and> \<not> isspace c) str"

lemma scanned_simps [simp]:
  "scanned [] = []"
  "scanned (c # str) = (if c = NUL \<or> isspace c then [] else c # scanned str)"
  by (simp_all add: scanned_def)

lemma contains_empty_class:
  "serverContainsIDClass [] s \<noteq> 0 \<longleftrightarrow> (\<exists>i. id_string s = Some i \<and> CHR ''!'' \<in> set i)"
proof -
  have "strstr i ''!'' \<longleftrightarrow> CHR ''!'' \<in> set i" for i
    by (induction i) auto
  then show ?thesis by (auto simp: serverContainsIDClass_def SERVER_SUCCESS_def split: option.split)
qed

lemma bc_loop_eq:
  "bc_loop send_ok resv (str @ [NUL]) adr s =
     (if CHR ''!'' \<in> set (scanned str) \<and> serverContainsIDClass [] s \<noteq> 0
      then serverRespondToClient send_ok resv adr s else Inr s)"
proof (induction str)
  case (Cons c str)
  then show ?case by (cases "c = CHR ''!''") (auto simp: isspace_def code_def)
qed simp

lemma serverProcessClientBC_eq:
  assumes "length str < 2 ^ 31"
  shows "serverProcessClientBC send_ok resv (str @ [x]) (of_nat (length str)) adr s =
    bc_loop send_ok resv (str @ [NUL]) adr s"
proof -
  have u: "unat (of_nat (length str) :: 32 word) = length str" by (rule unat_length32 [OF assms])
  have "sint (of_nat (length str) :: 32 word) = int (length str)"
    using sint32_small [of "of_nat (length str)", unfolded u, OF assms] .
  then show ?thesis unfolding serverProcessClientBC_def by (simp only:) simp
qed

lemma respond_ok:
  assumes "id_string s = Some i"
  shows "serverRespondToClient send_ok resv adr s = Inr (if send_ok
    then s\<lparr>sent := sent s @ [(header_bytes \<lparr>h_version = PROT_VERSION, h_type = PROT_BC_SERVER,
            h_content = PROT_CONTENT_MSG, h_reserved = resv, h_magic = htonl PROT_MAGIC_NUMBER,
            h_len = htonl (of_nat (length i))\<rparr> @ map char_byte i @ [0], adr)]\<rparr> else s)"
  using assms by (simp add: serverRespondToClient_def announcement_def createPacketBuffer_def sendto_def)

text \<open>
  Which broadcasts are answered.  A client that sends a string with a delimiter before the
  first blank or NUL gets an answer as soon as the server has registered any class at all; the
  names in the string play no part.  The answer is one datagram with the class identifier and its
  length, and carries the bytes the stack happened to hold in the reserved field.  Any other
  string changes nothing.
\<close>

theorem client_broadcast_answered:
  assumes "length str < 2 ^ 31" and "cs \<noteq> []" and "id_string s0 = None"
  defines "s \<equiv> register_classes cs s0"
  shows "serverProcessClientBC True resv (str @ [x]) (of_nat (length str)) adr s =
    Inr (if CHR ''!'' \<in> set (scanned str)
         then s\<lparr>sent := sent s @ [(wire_header \<lparr>h_version = 2, h_type = PROT_BC_SERVER,
                  h_content = PROT_CONTENT_MSG, h_reserved = resv, h_magic = 0xDEADBEEF,
                  h_len = of_nat (length (class_string cs))\<rparr> @ map char_byte (class_string cs) @ [0], adr)]\<rparr>
         else s)"
proof -
  have i: "id_string s = Some (class_string cs)" using assms(2,3) by (simp add: s_def register_ident)
  have "CHR ''!'' \<in> set (class_string cs)" using assms(2) by (cases cs) (simp_all add: class_string_def)
  with i have "serverContainsIDClass [] s \<noteq> 0" by (simp add: contains_empty_class)
  then show ?thesis
    by (simp add: serverProcessClientBC_eq [OF assms(1)] bc_loop_eq respond_ok [OF i] wire_header_def)
qed

theorem client_broadcast_answered_witness:
  "\<exists>d. serverProcessClientBC True [1, 2, 3, 4, 5] (''nosuchclass! '' @ [CHR ''x'']) 13
     \<lparr>sin_addr = 0x7F000001, sin_port = 2001\<rparr> (register_classes [''web''] server_static) =
   Inr ((register_classes [''web''] server_static)\<lparr>sent := [(d, \<lparr>sin_addr = 0x7F000001, sin_port = 2001\<rparr>)]\<rparr>)"
  using client_broadcast_answered [of "''nosuchclass! ''" "[''web'']" server_static "[1, 2, 3, 4, 5]"
      "CHR ''x''" "\<lparr>sin_addr = 0x7F000001, sin_port = 2001\<rparr>"]
  by (simp add: server_static_def register_classes_def serverAddIDClass_def isspace_def code_def)

section \<open>Datagrams\<close>

lemma bc_loop_returns: "id_string s \<noteq> None \<Longrightarrow> returns (bc_loop send_ok resv (str @ [NUL]) adr s)"
  by (auto simp: bc_loop_eq respond_ok)

lemma copy_string_returns:
  "returns (copy_string len mem) \<longleftrightarrow> 0 \<le> sint len \<and> sint len \<le> int (length mem)"
proof (cases "0 \<le> sint len")
  case True
  have "sint len < 2 ^ 31" using sint_range_size [of len] by (simp add: word_size)
  with True have "uint len = sint len" unfolding uint_sint by (intro take_bit_int_eq_self) simp_all
  then have s: "sint len = int (unat len)" by simp
  have "\<not> int (unat len) < - 1" "int (unat len) \<noteq> - 1" "0 \<le> int (unat len)"
    "int (unat len) \<le> int (length mem) \<longleftrightarrow> \<not> length mem < unat len" by linarith+
  then show ?thesis unfolding copy_string_def s by (auto simp del: of_nat_le_iff uint_nat)
qed (auto simp: copy_string_def)

text \<open>
  C37.  How far a datagram is trusted.  On a server with an identifier, handling a received
  datagram stays within the 512-byte buffer exactly when the magic number is wrong, or the type is
  not a client broadcast, or the length field is between 0 and 496.  The number of bytes received
  is not looked at, so the field alone makes the server read past its buffer.
\<close>

theorem receiveUDPPacket_safe_iff:
  assumes "length stack = MAX_UDP_PACKET_SIZE" and "header_wf h" and "take 16 stack = wire_header h"
    and "id_string s \<noteq> None"
  shows "returns (receiveUDPPacket dbg False send_ok resv stack adr s) \<longleftrightarrow>
    h_magic h \<noteq> PROT_MAGIC_NUMBER \<or> h_type h \<noteq> PROT_BC_CLIENT \<or>
    0 \<le> sint (h_len h) \<and> sint (h_len h) \<le> 496"
proof -
  have rh: "received_header stack = Inr h"
    using hdr.dec_enc [OF assms(2), of "drop 16 stack"] unfolding assms(3) [symmetric] by simp
  have len: "length (drop 16 stack) = 496" using assms(1) by simp
  have "returns (bindE (copy_string (h_len h) (drop 16 stack))
      (\<lambda>body. serverProcessClientBC send_ok resv body (h_len h) adr s)) \<longleftrightarrow>
    returns (copy_string (h_len h) (drop 16 stack))"
  proof (cases "copy_string (h_len h) (drop 16 stack)")
    case (Inr body)
    define str where "str = map byte_char (take (unat (h_len h)) (drop 16 stack))"
    have b: "0 \<le> sint (h_len h)" "sint (h_len h) \<le> 496"
      using copy_string_returns [of "h_len h" "drop 16 stack"] Inr len by simp_all
    have body: "body = str @ [NUL]" using Inr by (auto simp: copy_string_def str_def split: if_splits)
    have "unat (h_len h) \<le> 496" using Inr len by (auto simp: copy_string_def split: if_splits)
    then have sl: "length str = unat (h_len h)" using len by (simp add: str_def)
    then have l: "h_len h = of_nat (length str)" "length str < 2 ^ 31" using \<open>unat (h_len h) \<le> 496\<close> by simp_all
    show ?thesis using Inr bc_loop_returns [OF assms(4)] serverProcessClientBC_eq [OF l(2)]
      by (simp add: body l(1))
  qed simp
  then show ?thesis
    using copy_string_returns [of "h_len h" "drop 16 stack"] len rh
    by (auto simp: receiveUDPPacket_def)
qed

definition long_datagram :: "8 word list" where
  "long_datagram = wire_header (sample_header\<lparr>h_type := PROT_BC_CLIENT, h_len := 497\<rparr>) @ replicate 496 0"

theorem receiveUDPPacket_safe_iff_witness:
  "\<not> returns (receiveUDPPacket False False True [0, 0, 0, 0, 0] long_datagram
       \<lparr>sin_addr = 0x7F000001, sin_port = 2001\<rparr> (register_classes [''web''] server_static))"
proof -
  let ?h = "sample_header\<lparr>h_type := PROT_BC_CLIENT, h_len := 497\<rparr>"
  have h: "header_wf ?h" by (simp add: header_wf_def sample_header_def)
  have "id_string (register_classes [''web''] server_static) \<noteq> None"
    by (simp add: register_ident server_static_def)
  from receiveUDPPacket_safe_iff [OF _ h _ this, of long_datagram] length_wire_header [OF h]
  show ?thesis by (simp add: long_datagram_def sample_header_def)
qed

end
