(* ===== verification/Daemon.thy ===== *)
theory Daemon
  imports Main_Program Server_Events
begin

text \<open>
  The daemon at work: events arrive in the engine queue, the engine thread takes them out and the mixer
  thread mixes chunks, in any order.  Each step is a whole call.  The code does not enforce that: the
  engine queue is shared without a lock (what finer interleavings do to it is in Queue_Race), and the mixer
  reads the channels without \<open>mlock\<close>.  Shown: no step of the three faults in a state reached from a
  consistent one except an engine's turn on a name that cannot be looked up, an event goes from the packet to a channel, and what shutdown and reload do.
\<close>

section \<open>Steps\<close>

datatype daemon_act = Arrive EVENT | Engine_Turn bool | Mix

fun daemon_do :: "daemon_act \<Rightarrow> engine \<Rightarrow> engine result" where
  "daemon_do (Arrive ev) s = bindE (engineEnqueue ev (en_q s)) (\<lambda>q. Inr (s\<lparr>en_q := q\<rparr>))"
| "daemon_do (Engine_Turn io_ok) s =
     bindE (engine_turn False io_ok s) (\<lambda>r. Inr (case r of None \<Rightarrow> s | Some s1 \<Rightarrow> s1))"
| "daemon_do Mix s = bindE (mixer (en_w s)) (\<lambda>(chunk, w). Inr (s\<lparr>en_w := w\<rparr>))"

text \<open>
  Events the engine's turn can look up: they carry a name on which the table's search ends, whether it is found or
  not.  A state event may ask for a fade, which the invariant below does not cover.
\<close>

definition searchable :: "sound_table \<Rightarrow> EVENT \<Rightarrow> bool" where
  "searchable tab ev \<longleftrightarrow> (\<exists>name r. e_sound ev = Some name \<and> engineSoundTableRetrieve name tab = Inr r)"

definition fades :: "EVENT \<Rightarrow> bool" where
  "fades ev \<longleftrightarrow> e_type ev = event_type_code STATE_T \<and> e_flags ev AND STATE_LINEAR_FADE_FLAG \<noteq> 0"

text \<open>
  The steps considered: the semaphore has room for an arriving event, whatever it contains, and the event the engine
  takes next is no state event that asks for a fade.
\<close>

fun act_ok :: "engine \<Rightarrow> daemon_act \<Rightarrow> bool" where
  "act_ok s (Arrive ev) \<longleftrightarrow> (\<exists>n<SEM_VALUE_MAX. eq_semaphore (en_q s) = Ptr n)"
| "act_ok s (Engine_Turn io_ok) \<longleftrightarrow>
     (case engineDequeue False (en_q s) of Inr (Some (ev, q)) \<Rightarrow> \<not> fades ev | _ \<Rightarrow> True)"
| "act_ok s Mix \<longleftrightarrow> True"

text \<open>How the next turn of the engine fails: the newest event has no name, or the lookup of its name fails.\<close>

definition turn_fault :: "engine \<Rightarrow> fault option" where
  "turn_fault s =
     (case engineDequeue False (en_q s) of
        Inr (Some (ev, q)) \<Rightarrow>
          (case e_sound ev of None \<Rightarrow> Some NullDeref
           | Some name \<Rightarrow>
               (case engineSoundTableRetrieve name (stable (en_w s)) of Inl f \<Rightarrow> Some f | Inr r \<Rightarrow> None))
      | _ \<Rightarrow> None)"

inductive daemon_reach :: "engine \<Rightarrow> engine \<Rightarrow> bool" for s0 where
  start: "daemon_reach s0 s0"
| step: "daemon_reach s0 s \<Longrightarrow> act_ok s a \<Longrightarrow> daemon_do a s = Inr s' \<Longrightarrow> daemon_reach s0 s'"

section \<open>The invariant\<close>

definition loaded_ok :: "nat \<Rightarrow> sound_entry \<Rightarrow> bool" where
  "loaded_ok n p \<longleftrightarrow> (case se_data p of
      EventData e \<Rightarrow> se_type p = EVENT_T \<and> entry_ok e
    | StateData st \<Rightarrow> se_type p = STATE_T \<and> (\<exists>j<n. st = \<lparr>mixer_index = int j\<rparr>)
    | NoData \<Rightarrow> False)"

definition table_ok :: "nat \<Rightarrow> sound_table \<Rightarrow> bool" where
  "table_ok n tab \<longleftrightarrow> (\<exists>bs. tab = Ptr bs \<and> length bs = 256 \<and> (\<forall>b\<in>set bs. \<forall>p\<in>set b. loaded_ok n p))"

definition daemon_inv :: "engine \<Rightarrow> bool" where
  "daemon_inv s \<longleftrightarrow> engine_ok s \<and> mixer_ok (en_w s) \<and>
     (\<exists>fs. lin_fade (en_w s) = Ptr fs \<and> length fs = length (sbs (en_w s))) \<and>
     table_ok (length (sbs (en_w s))) (stable (en_w s)) \<and>
     (\<exists>xs. eq_rel (en_q s) xs)"

lemma table_ok_lookup:
  assumes "table_ok n tab" and "engineSoundTableRetrieve name tab = Inr (Some ent)"
  shows "loaded_ok n ent"
proof -
  obtain bs where bs: "tab = Ptr bs" "length bs = 256" "\<forall>b\<in>set bs. \<forall>p\<in>set b. loaded_ok n p"
    using assms(1) by (auto simp: table_ok_def)
  have wf: "table_wf tab" using bs by (simp add: table_wf_def)
  have "ent \<in> set (bs ! slot name)"
    using assms(2) bs(1) unfolding retrieve_eq [OF wf]
    by (auto simp: bucket_def split: if_splits list.splits)
  moreover have "bs ! slot name \<in> set bs" using bs(2) slot_less [of name] by simp
  ultimately show ?thesis using bs(3) by blast
qed

lemma mixer_ok_frame:
  assumes "mixer_ok w" and "ev_inv w'" and "same_rest w w'" and "out_buf w' = out_buf w"
  shows "mixer_ok w'"
  using assms st_inv_frame [of w w'] by (auto simp: mixer_ok_def play_ok_def same_rest_def)

lemma only_chan_same_rest: "only_chan c w w' \<Longrightarrow> same_rest w w'"
  by (simp add: only_chan_def same_rest_def)

lemma engine_ok_sizes:
  assumes "engine_ok s" and "ev_inv w" and "no_ebuffs w = no_ebuffs (en_w s)"
  shows "engine_ok (s\<lparr>en_w := w\<rparr>)"
  using assms chan_repD(3) [OF ev_invD(1) [OF assms(2)]] chan_repD(3) [OF ev_invD(1), of "en_w s"]
  by (simp add: engine_ok_def)

text \<open>What a step must keep for the invariant to survive.\<close>

lemma daemon_inv_frame:
  assumes "daemon_inv s" and "engine_ok s'" and "mixer_ok (en_w s')"
    and "stable (en_w s') = stable (en_w s)" and "no_sbuffs (en_w s') = no_sbuffs (en_w s)"
    and "\<exists>fs. lin_fade (en_w s') = Ptr fs \<and> length fs = length (sbs (en_w s'))"
    and "eq_rel (en_q s') ys"
  shows "daemon_inv s'"
proof -
  have "length (sbs w) = unat (no_sbuffs w)" if "mixer_ok w" for w
    using that by (simp add: mixer_ok_def play_ok_def st_inv_def)
  then have "length (sbs (en_w s')) = length (sbs (en_w s))"
    using assms(1,3,5) by (simp add: daemon_inv_def)
  then show ?thesis using assms unfolding daemon_inv_def by auto
qed

section \<open>The engine's turn\<close>

lemma ev_inv_fade [simp]: "ev_inv (w\<lparr>lin_fade := f\<rparr>) \<longleftrightarrow> ev_inv w"
  by (simp add: ev_inv_def chan_rep_def part_defs inputs_ok_def)

lemma ball_set_update: "P y \<Longrightarrow> \<forall>b\<in>set xs. P b \<Longrightarrow> \<forall>b\<in>set (xs[j := y]). P b"
  using set_update_subset_insert [of xs j y] by auto

lemma state_ok_set:
  assumes "state_ok b" and "f AND STATE_LINEAR_FADE_FLAG = 0"
  shows "state_ok (b\<lparr>sb_vol := real (unat (v :: 8 word)) / 255, sb_stereo_pos := real (unat (l :: 8 word)) / 255,
     sb_filter_flag := f\<rparr>)"
  using assms loc_bounds [of v] loc_bounds [of l] by (auto simp: state_ok_def split: option.splits)

text \<open>Handling an event that has been looked up keeps all parts of the invariant, and leaves the queue alone.\<close>

lemma engineIO_kept:
  assumes inv: "daemon_inv s"
    and name: "e_sound ev = Some name" and lk: "engineSoundTableRetrieve name (stable (en_w s)) = Inr (Some ent)"
    and ty: "e_type ev = event_type_code (se_type ent)"
  shows "\<exists>s' freed. engineIO io_ok ev s = Inr (s', freed) \<and> en_q s' = en_q s \<and> engine_ok s' \<and>
     (\<not> fades ev \<longrightarrow> mixer_ok (en_w s')) \<and> stable (en_w s') = stable (en_w s) \<and> no_sbuffs (en_w s') = no_sbuffs (en_w s) \<and>
     (\<exists>fs. lin_fade (en_w s') = Ptr fs \<and> length fs = length (sbs (en_w s')))"
proof -
  let ?w = "en_w s"
  have ok: "engine_ok s" "mixer_ok ?w" and tab: "table_ok (length (sbs ?w)) (stable ?w)"
    using inv by (simp_all add: daemon_inv_def)
  obtain fs where fs: "lin_fade ?w = Ptr fs" "length fs = length (sbs ?w)"
    using inv by (auto simp: daemon_inv_def)
  have ev: "ev_inv ?w" and st: "sbuffs ?w = Ptr (sbs ?w)" "length (sbs ?w) = unat (no_sbuffs ?w)"
    "\<forall>b\<in>set (sbs ?w). state_ok b"
    using ok(2) by (simp_all add: mixer_ok_def play_ok_def st_inv_def)
  have off: "use_playback (en_pb s) = 0" using ok(1) by (simp add: engine_ok_def)
  have load: "loaded_ok (length (sbs ?w)) ent" using table_ok_lookup [OF tab lk] .
  show ?thesis
  proof (cases "se_data ent")
    case (EventData e)
    then have e: "se_type ent = EVENT_T" "entry_ok e" using load by (simp_all add: loaded_ok_def)
    have kept: ?thesis
      if "engineIO io_ok ev s = Inr (s\<lparr>en_w := w, en_lastc := l\<rparr>, r)" "ev_inv w" "same_rest ?w w"
        "out_buf w = out_buf ?w" "0 \<le> l" "nat l < length (evs ?w)" for w l r
    proof -
      have m: "mixer_ok w" using mixer_ok_frame [OF ok(2) that(2-4)] .
      have n: "no_ebuffs w = no_ebuffs ?w" "stable w = stable ?w" "no_sbuffs w = no_sbuffs ?w"
        "lin_fade w = lin_fade ?w" "sbs w = sbs ?w"
        using that(3) by (simp_all add: same_rest_def sbs_def)
      have "engine_ok (s\<lparr>en_w := w\<rparr>)" using engine_ok_sizes [OF ok(1) that(2) n(1)] .
      moreover have "length (evs w) = length (evs ?w)"
        using chan_repD(3) [OF ev_invD(1) [OF that(2)]] chan_repD(3) [OF ev_invD(1) [OF ev]] n(1) by simp
      ultimately have "engine_ok (s\<lparr>en_w := w, en_lastc := l\<rparr>)"
        using that(5,6) by (simp add: engine_ok_def)
      then show ?thesis using that(1) m n fs by simp
    qed
    have l: "0 \<le> en_lastc s" "nat (en_lastc s) < length (evs ?w)" using ok(1) by (simp_all add: engine_ok_def)
    have t: "e_type ev = event_type_code EVENT_T" using ty e(1) by simp
    note run = engineIO_event [OF ok(1) t name lk e(1) EventData e(2), of io_ok]
    show ?thesis
    proof (cases "round_robin (evs ?w) (nat (en_lastc s))")
      case None
      with run obtain w where w: "engineIO io_ok ev s = Inr (s\<lparr>en_w := w\<rparr>, False)" "ev_inv w"
        "same_rest ?w w" "out_buf w = out_buf ?w" by auto
      have "s\<lparr>en_w := w, en_lastc := en_lastc s\<rparr> = s\<lparr>en_w := w\<rparr>" by simp
      then show ?thesis using kept [of "en_lastc s" w False] w l by simp
    next
      case (Some c)
      with run obtain w where w: "engineIO io_ok ev s = Inr (s\<lparr>en_w := w,
            en_lastc := int (Suc c mod length (evs ?w))\<rparr>, True)" "ev_inv w"
        "only_chan c ?w w" "out_buf w = out_buf ?w" by auto
      have "0 < length (evs ?w)" using l(2) by linarith
      then show ?thesis using w only_chan_same_rest [OF w(3)] by (intro kept [of _ w True]) auto
    qed
  next
    case (StateData x)
    then obtain j where j: "se_type ent = STATE_T" "j < length (sbs ?w)" "x = \<lparr>mixer_index = int j\<rparr>"
      using load by (auto simp: loaded_ok_def)
    let ?bs = "(sbs ?w)[j := (sbs ?w ! j)\<lparr>sb_vol := real (unat (e_vol ev)) / 255,
          sb_stereo_pos := real (unat (e_loc ev)) / 255, sb_filter_flag := e_flags ev\<rparr>]"
    let ?fs = "if e_dither ev = 255 then fs
          else fs[j := (fs ! j)\<lparr>fade_time := real (unat (e_dither ev)) * 2 / 255\<rparr>]"
    let ?w2 = "?w\<lparr>lin_fade := Ptr ?fs, sbuffs := Ptr ?bs\<rparr>"
    have run: "engineIO io_ok ev s = Inr (s\<lparr>en_w := ?w2\<rparr>, True)"
      using engineIO_state [OF off _ name lk _ j(2) st(1) fs(1,2), of io_ok] ty j StateData st(2) by simp
    have sb: "sbs ?w2 = ?bs" by (simp add: sbs_def)
    have m: "mixer_ok ?w2" if nf: "\<not> fades ev"
    proof -
      have "state_ok ((sbs ?w ! j)\<lparr>sb_vol := real (unat (e_vol ev)) / 255,
            sb_stereo_pos := real (unat (e_loc ev)) / 255, sb_filter_flag := e_flags ev\<rparr>)"
        using state_ok_set [of "sbs ?w ! j" "e_flags ev"] st(3) j(1,2) nf ty by (simp add: fades_def)
      then have "\<forall>b\<in>set ?bs. state_ok b" using st(3) by (rule ball_set_update)
      then have "st_inv ?w2" using st(2) sb by (simp add: st_inv_def)
      then show ?thesis using ok(2) ev by (simp add: mixer_ok_def play_ok_def)
    qed
    have "engine_ok (s\<lparr>en_w := ?w2\<rparr>)"
      by (rule engine_ok_sizes [OF ok(1)]) (use ev in simp_all)
    then show ?thesis using run m fs sb by auto
  next
    case NoData
    then show ?thesis using load by (simp add: loaded_ok_def)
  qed
qed

text \<open>A turn of the engine thread takes the newest event and keeps the invariant, or waits.\<close>

lemma turn_empty:
  "eq_rel (en_q s) [] \<Longrightarrow> engine_turn False io_ok s = Inr None"
  using eq_rel_semaphore [of "en_q s" "[]"]
  by (simp add: engine_turn_def engineDequeue_def semaphoreAcquire_def)

lemma turn_newest:
  assumes inv: "daemon_inv s" and q: "eq_rel (en_q s) (xs @ [ev])"
  shows "if searchable (stable (en_w s)) ev
    then \<exists>s'. engine_turn False io_ok s = Inr (Some s') \<and> eq_rel (en_q s') xs \<and>
      stable (en_w s') = stable (en_w s) \<and> (\<not> fades ev \<longrightarrow> daemon_inv s')
    else \<exists>f. turn_fault s = Some f \<and> engine_turn False io_ok s = Inl f"
proof -
  obtain q' where q': "engineDequeue False (en_q s) = Inr (Some (ev, q'))" "eq_rel q' xs"
    using engineDequeue_rel [OF q] by blast
  let ?s = "s\<lparr>en_q := q'\<rparr>"
  have e: "engine_ok ?s" "mixer_ok (en_w ?s)" using inv by (simp_all add: daemon_inv_def engine_ok_def)
  have inv1: "daemon_inv ?s"
    by (rule daemon_inv_frame [OF inv e, of xs]) (use inv q'(2) in \<open>auto simp: daemon_inv_def\<close>)
  show ?thesis
  proof (cases "searchable (stable (en_w s)) ev")
    case False
    have "\<exists>f. turn_fault s = Some f \<and> engine_turn False io_ok s = Inl f"
    proof (cases "e_sound ev")
      case None
      then show ?thesis using q'(1) by (simp add: turn_fault_def engine_turn_def)
    next
      case (Some name)
      then obtain f where "engineSoundTableRetrieve name (stable (en_w s)) = Inl f"
        using False by (cases "engineSoundTableRetrieve name (stable (en_w s))") (auto simp: searchable_def)
      then show ?thesis using q'(1) Some by (simp add: turn_fault_def engine_turn_def)
    qed
    then show ?thesis using False by simp
  next
    case True
    then obtain name r where name: "e_sound ev = Some name" "engineSoundTableRetrieve name (stable (en_w s)) = Inr r"
      by (auto simp: searchable_def)
    have "\<exists>s'. engine_turn False io_ok s = Inr (Some s') \<and> eq_rel (en_q s') xs \<and>
      stable (en_w s') = stable (en_w s) \<and> (\<not> fades ev \<longrightarrow> daemon_inv s')"
    proof (cases "r = None \<or> e_type ev \<noteq> event_type_code (se_type (the r))")
      case True
      then have "engine_turn False io_ok s = Inr (Some ?s)"
        using q'(1) name by (auto simp: engine_turn_def Let_def split: option.splits)
      then show ?thesis using inv1 q'(2) by simp
    next
      case False
      then obtain ent where ent: "r = Some ent" "e_type ev = event_type_code (se_type ent)" by auto
      obtain s' freed where s': "engineIO io_ok ev ?s = Inr (s', freed)" "en_q s' = q'" "engine_ok s'"
        "\<not> fades ev \<longrightarrow> mixer_ok (en_w s')" "stable (en_w s') = stable (en_w s)"
        "no_sbuffs (en_w s') = no_sbuffs (en_w s)"
        "\<exists>fs. lin_fade (en_w s') = Ptr fs \<and> length fs = length (sbs (en_w s'))"
        using engineIO_kept [OF inv1, of ev name ent io_ok] name ent by auto
      have "engine_turn False io_ok s = Inr (Some s')"
        using q'(1) name ent s'(1) by (simp add: engine_turn_def)
      moreover have "daemon_inv s'" if "\<not> fades ev"
        by (rule daemon_inv_frame [OF inv s'(3) _ s'(5,6,7)]) (use s'(2,4) q'(2) that in simp_all)
      ultimately show ?thesis using s'(2,5) q'(2) by auto
    qed
    then show ?thesis using True by simp
  qed
qed

lemma turn_fault_newest:
  "eq_rel (en_q s) (xs @ [ev]) \<Longrightarrow> turn_fault s = None \<longleftrightarrow> searchable (stable (en_w s)) ev"
  using engineDequeue_rel [of "en_q s" xs ev False]
  by (auto simp: turn_fault_def searchable_def split: option.splits sum.splits)

lemma turn_fault_empty: "eq_rel (en_q s) [] \<Longrightarrow> turn_fault s = None"
  using eq_rel_semaphore [of "en_q s" "[]"]
  by (simp add: turn_fault_def engineDequeue_def semaphoreAcquire_def)

section \<open>Every step\<close>

lemma mix_step:
  assumes inv: "daemon_inv s"
  shows "\<exists>s'. daemon_do Mix s = Inr s' \<and> daemon_inv s'"
proof -
  obtain xs where xs: "eq_rel (en_q s) xs" using inv by (auto simp: daemon_inv_def)
  have m: "mixer_ok (en_w s)" "engine_ok s" using inv by (simp_all add: daemon_inv_def)
  obtain c w where w: "mixer (en_w s) = Inr (c, w)" "mixer_ok w" "same_sizes (en_w s) w"
    using mixer_run [OF m(1)] by blast
  have ev: "ev_inv w" using w(2) by (simp add: mixer_ok_def play_ok_def)
  have n: "no_ebuffs w = no_ebuffs (en_w s)" "no_sbuffs w = no_sbuffs (en_w s)" "stable w = stable (en_w s)"
    "lin_fade w = lin_fade (en_w s)" "length (sbs w) = length (sbs (en_w s))"
    using w(3) map_eq_imp_length_eq [of sb_vol] by (auto simp: same_sizes_def vols_def)
  have e: "engine_ok (s\<lparr>en_w := w\<rparr>)" using engine_ok_sizes [OF m(2) ev n(1)] .
  have "daemon_inv (s\<lparr>en_w := w\<rparr>)"
    by (rule daemon_inv_frame [OF inv e, of xs]) (use inv w(2) n xs in \<open>auto simp: daemon_inv_def\<close>)
  then show ?thesis using w(1) by simp
qed

lemma arrive_step:
  assumes inv: "daemon_inv s" and a: "act_ok s (Arrive ev)"
  shows "\<exists>q. daemon_do (Arrive ev) s = Inr (s\<lparr>en_q := q\<rparr>) \<and> daemon_inv (s\<lparr>en_q := q\<rparr>) \<and>
    (\<forall>xs. eq_rel (en_q s) xs \<longrightarrow> eq_rel q (xs @ [ev]))"
proof -
  obtain xs0 where xs0: "eq_rel (en_q s) xs0" using inv by (auto simp: daemon_inv_def)
  have room: "length xs < SEM_VALUE_MAX" if "eq_rel (en_q s) xs" for xs
    using eq_rel_semaphore [OF that] a by auto
  obtain q where q: "engineEnqueue ev (en_q s) = Inr q" "eq_rel q (xs0 @ [ev])"
    using engineEnqueue_rel [OF xs0 room [OF xs0]] by blast
  have "eq_rel q (xs @ [ev])" if "eq_rel (en_q s) xs" for xs
    using engineEnqueue_rel [OF that room [OF that], of ev] q(1) by auto
  moreover have e: "engine_ok (s\<lparr>en_q := q\<rparr>)" "mixer_ok (en_w (s\<lparr>en_q := q\<rparr>))"
    using inv by (simp_all add: daemon_inv_def engine_ok_def)
  have "daemon_inv (s\<lparr>en_q := q\<rparr>)"
    by (rule daemon_inv_frame [OF inv e, of "xs0 @ [ev]"]) (use inv q(2) in \<open>auto simp: daemon_inv_def\<close>)
  ultimately show ?thesis using q(1) by auto
qed

lemma turn_step:
  assumes inv: "daemon_inv s"
  shows "case turn_fault s of
      None \<Rightarrow> \<exists>s'. daemon_do (Engine_Turn io_ok) s = Inr s' \<and> (act_ok s (Engine_Turn io_ok) \<longrightarrow> daemon_inv s')
    | Some f \<Rightarrow> daemon_do (Engine_Turn io_ok) s = Inl f"
proof -
  obtain xs where xs: "eq_rel (en_q s) xs" using inv by (auto simp: daemon_inv_def)
  show ?thesis
  proof (cases xs rule: rev_cases)
    case Nil
    then show ?thesis using turn_empty turn_fault_empty xs inv by simp
  next
    case (snoc ys ev)
    then have q: "eq_rel (en_q s) (ys @ [ev])" using xs by simp
    have nf: "act_ok s (Engine_Turn io_ok) \<longleftrightarrow> \<not> fades ev" using engineDequeue_rel [OF q, of False] by auto
    show ?thesis
      using turn_newest [OF inv q, of io_ok] turn_fault_newest [OF q] unfolding nf
      by (auto split: if_splits option.splits)
  qed
qed

lemma daemon_step:
  assumes inv: "daemon_inv s" and a: "act_ok s act" and run: "daemon_do act s = Inr s'"
  shows "daemon_inv s'"
proof (cases act)
  case (Arrive ev)
  then show ?thesis using arrive_step [OF inv, of ev] a run by auto
next
  case (Engine_Turn io_ok)
  then show ?thesis using turn_step [OF inv, of io_ok] a run by (auto split: option.splits)
next
  case Mix
  then show ?thesis using mix_step [OF inv] run by auto
qed

lemma daemon_reach_inv: "daemon_reach s0 s \<Longrightarrow> daemon_inv s0 \<Longrightarrow> daemon_inv s"
  by (induction rule: daemon_reach.induct) (auto intro: daemon_step)

section \<open>Shutdown\<close>

lemma foldE_collect:
  "(\<And>j acc. j < n \<Longrightarrow> \<exists>acc'. f j acc = Inr acc') \<Longrightarrow> \<exists>r. foldE f [0..<n] a = Inr r"
  using foldE_range_invariant [of "\<lambda>_ _. True" a n f] by auto

lemma free_segments_ok: "snd_ok s \<Longrightarrow> \<exists>fs. free_segments s = Inr fs"
  unfolding free_segments_def
  by (rule foldE_collect) (auto simp: snd_ok_def snd_segment_def split: option.splits)

lemma free_state_buf_ok:
  assumes "state_ok b"
  shows "\<exists>fs. free_state_buf b = Inr fs"
  unfolding free_state_buf_def
proof (rule foldE_collect)
  fix j acc
  assume j: "j < nat (sb_thresh_cnt b)"
  then obtain ts where ts: "sb_thresh b = Some ts" "sb_thresh_cnt b = int (length ts)"
    "\<forall>t\<in>set ts. snd_ok (state_snd t)" using assms by (cases "sb_thresh b") (auto simp: state_ok_def)
  then obtain fs where "free_segments (state_snd (ts ! j)) = Inr fs"
    using free_segments_ok [of "state_snd (ts ! j)"] j by auto
  then show "\<exists>acc'. bindE (get_threshold b (int j)) (\<lambda>t.
      bindE (free_segments (state_snd t)) (\<lambda>fs. Inr (acc @ fs))) = Inr acc'"
    using ts j by (simp add: get_threshold_def)
qed

lemma mixerShutdown_ok:
  assumes "mixer_ok w" and "lin_fade w = Ptr fs"
  shows "\<exists>freed w'. mixerShutdown (w\<lparr>sched := a, stable := t, mqueue := q\<rparr>) = Inr (freed, w') \<and>
     stable w' = t \<and> sched w' = a \<and> out_buf w' = Freed"
proof -
  have ev: "ev_inv w" and sb: "sbuffs w = Ptr (sbs w)" "length (sbs w) = unat (no_sbuffs w)"
    "\<forall>b\<in>set (sbs w). state_ok b"
    using assms(1) by (simp_all add: mixer_ok_def play_ok_def st_inv_def)
  note chan = chan_repD [OF ev_invD(1) [OF ev]]
  obtain xs where out: "out_buf w = Ptr xs" using assms(1) by (auto simp: mixer_ok_def)
  have "\<exists>r. foldE (\<lambda>i acc. bindE (pa_get (sbuffs w) (int i)) (\<lambda>b.
      bindE (free_state_buf b) (\<lambda>fs. Inr (acc @ fs)))) [0..<unat (no_sbuffs w)] [] = Inr r"
  proof (rule foldE_collect)
    fix i and acc :: "samples list"
    assume i: "i < unat (no_sbuffs w)"
    then have "state_ok (sbs w ! i)" using sb by simp
    then obtain fs where "free_state_buf (sbs w ! i) = Inr fs" using free_state_buf_ok by blast
    then show "\<exists>acc'. bindE (pa_get (sbuffs w) (int i)) (\<lambda>b.
        bindE (free_state_buf b) (\<lambda>fs. Inr (acc @ fs))) = Inr acc'" using sb i by simp
  qed
  then obtain freed where "foldE (\<lambda>i acc. bindE (pa_get (sbuffs w) (int i)) (\<lambda>b.
      bindE (free_state_buf b) (\<lambda>fs. Inr (acc @ fs)))) [0..<unat (no_sbuffs w)] [] = Inr freed"
    by blast
  then show ?thesis
    using chan(1,2,10) sb(1) out assms(2)
    by (simp add: mixerShutdown_def threadLock_def mixerFadeEffectShutdown_def)
qed

lemma engineShutdown_ok:
  assumes "daemon_inv s"
  shows "\<exists>s' q. engineShutdown s = Inr s' \<and> en_w s' = (en_w s)\<lparr>sched := Freed, stable := Null, mqueue := q\<rparr> \<and>
     eq_semaphore (en_q s') = Freed"
proof -
  have ev: "ev_inv (en_w s)" using assms by (simp add: daemon_inv_def engine_ok_def)
  obtain bs where bs: "stable (en_w s) = Ptr bs" "\<forall>b\<in>set bs. \<forall>p\<in>set b. loaded_ok (length (sbs (en_w s))) p"
    using assms by (auto simp: daemon_inv_def table_ok_def)
  have "sound_wf p" if "loaded_ok n p" for n p
    using that by (auto simp: sound_wf_def loaded_ok_def entry_ok_def split: entry_data.splits)
  then have "destroy_buckets bs = Inr (map (\<lambda>p. (p, owned_samples p)) (concat bs))"
    using bs(2) by (intro destroy_buckets_wf) blast
  moreover obtain freed q where "mixerQueueDestroy (mqueue (en_w s)) = Inr (freed, q)"
    using mixerQueueDestroy_frees_all [OF ev_invD(7) [OF ev]] by blast
  moreover obtain n where "eq_semaphore (en_q s) = Ptr n"
    using assms eq_rel_semaphore by (auto simp: daemon_inv_def)
  ultimately show ?thesis
    using bs(1) ev_invD(3) [OF ev]
    by (auto simp: engineShutdown_def engineSoundTableDestroy_def engineQueueDestroy_def semaphoreDestroy_def)
qed

section \<open>A sample daemon\<close>

definition bell_daemon :: engine where
  "bell_daemon = bell_engine\<lparr>en_q := snd (engineQueueInit True True engine_queue_static)\<rparr>"

lemma bell_daemon_inv: "daemon_inv bell_daemon"
proof -
  have parts: "sbs bell_world = []" "lin_fade bell_world = Ptr []" "out_buf bell_world = Ptr [0, 0]"
    "chunk_size bell_world = 2" "sbuffs bell_world = Ptr []" "no_sbuffs bell_world = 0"
    "stable bell_world = Ptr ((replicate 256 [])[195 := [bell_entry]])"
    by (simp_all add: bell_world_def idle_world_def sbs_def)
  have e: "engine_ok bell_daemon" "en_w bell_daemon = bell_world"
    using bell_engine_ok by (simp_all add: bell_daemon_def engine_ok_def bell_engine_def)
  have m: "mixer_ok bell_world" using bell_world_inv parts by (simp add: mixer_ok_def play_ok_def st_inv_def)
  have "loaded_ok 0 bell_entry" using bell_lookup(4) by (simp add: loaded_ok_def bell_entry_def)
  then have "\<forall>b\<in>set ((replicate 256 [])[195 := [bell_entry]]). \<forall>p\<in>set b. loaded_ok 0 p"
    by (intro ball_set_update) auto
  then have "table_ok 0 (stable bell_world)" using parts(7) by (simp add: table_ok_def)
  moreover have "eq_rel (en_q bell_daemon) []" using eq_rel_init by (simp add: bell_daemon_def)
  then have "\<exists>xs. eq_rel (en_q bell_daemon) xs" by blast
  ultimately show ?thesis using e m parts(1,2) by (simp add: daemon_inv_def)
qed

definition bell_call :: "string \<Rightarrow> EVENT" where
  "bell_call name = zero_event\<lparr>e_sound := Some name\<rparr>"

lemma bell_searchable: "searchable (stable (en_w bell_daemon)) (bell_call ''ab'')" "\<not> fades (bell_call name)"
  using bell_lookup(1) by (simp_all add: searchable_def fades_def bell_daemon_def bell_call_def zero_event_def)

text \<open>The name \<open>ba\<close> has the same hash as the only name in the table.\<close>

lemma bell_collision: "engineSoundTableRetrieve ''ba'' (stable (en_w bell_daemon)) = Inl Diverges"
proof -
  have st: "stable (en_w bell_daemon) = Ptr ((replicate 256 [])[195 := [bell_entry]])"
    by (simp add: bell_daemon_def bell_engine_def bell_world_def)
  have wf: "table_wf (stable (en_w bell_daemon))" by (simp add: st table_wf_def)
  have b: "bucket (slot ''ba'') (stable (en_w bell_daemon)) = [bell_entry]" by (simp add: st bucket_def hash_eval)
  show ?thesis
    unfolding retrieve_eq [OF wf] b by (simp add: hash_eval) (simp add: bell_entry_def strcaseeq_def tolower_def code_def)
qed

section \<open>Properties\<close>

text \<open>
  C1.  What the running daemon can do wrong.  Start in a consistent state (loaded table, idle or playing
  channels, loaded states without fades, queued events) and let whole calls follow each other in any order: arriving events with any
  contents while the semaphore has room, turns of the engine thread whose event does not ask for a fade, chunks of the
  mixer.  Every state reached is consistent; in it an arriving event is queued and the mixer mixes its chunk without
  a fault; and a turn of the engine returns unless the newest event in the queue has no name or its
  name cannot be looked up, and then it ends with exactly that fault: a read through \<open>NULL\<close>, a read in front of
  the table, or a search that never ends.  Calls are taken one at a time; what overlapping calls on
  the unlocked queue do is shown in Queue_Race.
\<close>

theorem daemon_step_outcomes:
  assumes "daemon_inv s0" and "daemon_reach s0 s"
  shows "daemon_inv s \<and>
    (\<exists>s'. daemon_do Mix s = Inr s') \<and>
    (\<forall>ev. act_ok s (Arrive ev) \<longrightarrow> (\<exists>s'. daemon_do (Arrive ev) s = Inr s')) \<and>
    (\<forall>io_ok. case turn_fault s of None \<Rightarrow> \<exists>s'. daemon_do (Engine_Turn io_ok) s = Inr s'
       | Some f \<Rightarrow> daemon_do (Engine_Turn io_ok) s = Inl f) \<and>
    (\<forall>a s'. act_ok s a \<longrightarrow> daemon_do a s = Inr s' \<longrightarrow> daemon_inv s')"
proof -
  have inv: "daemon_inv s" using daemon_reach_inv [OF assms(2,1)] .
  moreover have "\<exists>s'. daemon_do Mix s = Inr s'" using mix_step [OF inv] by blast
  moreover have "act_ok s (Arrive ev) \<longrightarrow> (\<exists>s'. daemon_do (Arrive ev) s = Inr s')" for ev
    using arrive_step [OF inv, of ev] by blast
  moreover have "case turn_fault s of None \<Rightarrow> \<exists>s'. daemon_do (Engine_Turn io_ok) s = Inr s'
      | Some f \<Rightarrow> daemon_do (Engine_Turn io_ok) s = Inl f" for io_ok
    using turn_step [OF inv, of io_ok] by (cases "turn_fault s") (simp del: daemon_do.simps act_ok.simps, blast, simp)
  ultimately show ?thesis using daemon_step [OF inv] by blast
qed

lemma bell_arrives:
  "\<exists>q. daemon_do (Arrive ev) bell_daemon = Inr (bell_daemon\<lparr>en_q := q\<rparr>) \<and> eq_rel q [ev] \<and>
     daemon_reach bell_daemon (bell_daemon\<lparr>en_q := q\<rparr>)"
proof -
  have q0: "eq_rel (en_q bell_daemon) []" using eq_rel_init by (simp add: bell_daemon_def)
  have a: "act_ok bell_daemon (Arrive ev)" using eq_rel_semaphore [OF q0] by (simp add: SEM_VALUE_MAX_def)
  obtain q where q: "daemon_do (Arrive ev) bell_daemon = Inr (bell_daemon\<lparr>en_q := q\<rparr>)" "eq_rel q [ev]"
    using arrive_step [OF bell_daemon_inv a] q0 by fastforce
  then show ?thesis using daemon_reach.step [OF daemon_reach.start a] by blast
qed

theorem daemon_step_outcomes_witness:
  "\<exists>s1 s2 s3. daemon_do (Arrive (bell_call ''ab'')) bell_daemon = Inr s1 \<and>
     daemon_do (Engine_Turn True) s1 = Inr s2 \<and> daemon_inv s2 \<and>
     daemon_do (Arrive (bell_call ''ba'')) bell_daemon = Inr s3 \<and>
     daemon_do (Engine_Turn True) s3 = Inl Diverges \<and> (\<exists>s4. daemon_do Mix s3 = Inr s4)"
proof -
  obtain q where q: "daemon_do (Arrive (bell_call ''ab'')) bell_daemon = Inr (bell_daemon\<lparr>en_q := q\<rparr>)"
    "eq_rel q [bell_call ''ab'']" "daemon_reach bell_daemon (bell_daemon\<lparr>en_q := q\<rparr>)" using bell_arrives by blast
  have "turn_fault (bell_daemon\<lparr>en_q := q\<rparr>) = None"
    using turn_fault_newest [of "bell_daemon\<lparr>en_q := q\<rparr>" "[]"] q(2) bell_searchable by simp
  moreover have "act_ok (bell_daemon\<lparr>en_q := q\<rparr>) (Engine_Turn True)"
    using engineDequeue_rel [of q "[]" "bell_call ''ab''" False] q(2) bell_searchable(2) by auto
  moreover note ok = daemon_step_outcomes [OF bell_daemon_inv q(3)]
  ultimately obtain s2 where s2: "daemon_do (Engine_Turn True) (bell_daemon\<lparr>en_q := q\<rparr>) = Inr s2"
    by (simp del: daemon_do.simps act_ok.simps) blast
  have inv2: "daemon_inv s2" using ok \<open>act_ok _ (Engine_Turn True)\<close> s2 by blast
  obtain r where r: "daemon_do (Arrive (bell_call ''ba'')) bell_daemon = Inr (bell_daemon\<lparr>en_q := r\<rparr>)"
    "eq_rel r [bell_call ''ba'']" "daemon_reach bell_daemon (bell_daemon\<lparr>en_q := r\<rparr>)" using bell_arrives by blast
  obtain r' where "engineDequeue False r = Inr (Some (bell_call ''ba'', r'))"
    using engineDequeue_rel [of r "[]"] r(2) by auto
  then have "turn_fault (bell_daemon\<lparr>en_q := r\<rparr>) = Some Diverges"
    using bell_collision by (simp add: turn_fault_def bell_call_def)
  then have "daemon_do (Engine_Turn True) (bell_daemon\<lparr>en_q := r\<rparr>) = Inl Diverges \<and>
    (\<exists>s4. daemon_do Mix (bell_daemon\<lparr>en_q := r\<rparr>) = Inr s4)"
    using daemon_step_outcomes [OF bell_daemon_inv r(3)] by (simp del: daemon_do.simps act_ok.simps)
  then show ?thesis using q(1) s2 inv2 r(1) by blast
qed

lemma packet_turn:
  assumes inv: "daemon_inv s" and sv: "sv_queue sv = en_q s" and q: "eq_rel (en_q s) xs"
    and room: "length xs < SEM_VALUE_MAX" and h: "h_content h = PROT_CONTENT_EVENT"
    and ev: "event_wf ev" "e_type ev = event_type_code EVENT_T" "e_sound ev = Some name"
    and lk: "engineSoundTableRetrieve name (stable (en_w s)) = Inr (Some ent)" "se_data ent = EventData e"
    and c: "round_robin (evs (en_w s)) (nat (en_lastc s)) = Some c"
  shows "\<exists>q s' n. serverProcessClientEventPacket expat h (wire_event ev @ rest) sv = Inr (sv\<lparr>sv_queue := q\<rparr>) \<and>
    engine_turn False io_ok (s\<lparr>en_q := q\<rparr>) = Inr (Some s') \<and> eq_rel (en_q s') xs \<and> n < unat (snd_cnt e) \<and>
    only_chan c (en_w s) (en_w s') \<and>
    evs (en_w s') ! c = added (snds e ! n) (lens e ! n) (real (unat (e_loc ev)) / 255) (e_flags ev) (evs (en_w s) ! c) \<and>
    mixer_ok (en_w s') \<and> mqueue (en_w s') = mqueue (en_w s) \<and> muls (en_w s') ! c = next_share (en_w s)"
proof -
  obtain q1 where q1: "engineEnqueue ev (en_q s) = Inr q1" "eq_rel q1 (xs @ [ev])"
    using engineEnqueue_rel [OF q room] by blast
  have pk: "serverProcessClientEventPacket expat h (wire_event ev @ rest) sv = Inr (sv\<lparr>sv_queue := q1\<rparr>)"
    using q1(1) evt.dec_enc [OF ev(1)] h sv
    by (simp add: serverProcessClientEventPacket_def prot_codes)
  obtain q2 where q2: "engineDequeue False q1 = Inr (Some (ev, q2))" "eq_rel q2 xs"
    using engineDequeue_rel [OF q1(2)] by blast
  have ok: "engine_ok (s\<lparr>en_q := q2\<rparr>)" using inv by (simp add: daemon_inv_def engine_ok_def)
  have "loaded_ok (length (sbs (en_w s))) ent"
    using table_ok_lookup lk(1) inv by (auto simp: daemon_inv_def)
  then have e: "se_type ent = EVENT_T" "entry_ok e" using lk(2) by (simp_all add: loaded_ok_def)
  obtain w n where w: "engineIO io_ok ev (s\<lparr>en_q := q2\<rparr>) = Inr (s\<lparr>en_q := q2, en_w := w,
        en_lastc := int (Suc c mod length (evs (en_w s)))\<rparr>, True)" "only_chan c (en_w s) w"
    "n < unat (snd_cnt e)"
    "evs w ! c = added (snds e ! n) (lens e ! n) (real (unat (e_loc ev)) / 255) (e_flags ev) (evs (en_w s) ! c)"
    "ev_inv w" "out_buf w = out_buf (en_w s)" "mqueue w = mqueue (en_w s)" "muls w ! c = next_share (en_w s)"
    using engineIO_event [OF ok ev(2,3) _ e(1) lk(2) e(2), of io_ok] lk(1) c by auto
  have "engine_turn False io_ok (s\<lparr>en_q := q1\<rparr>) = Inr (Some (s\<lparr>en_q := q2, en_w := w,
        en_lastc := int (Suc c mod length (evs (en_w s)))\<rparr>))"
    using q2(1) ev(2,3) lk(1) e(1) w(1) by (simp add: engine_turn_def)
  moreover have "mixer_ok w"
    using mixer_ok_frame [OF _ w(5) only_chan_same_rest [OF w(2)] w(6)] inv by (simp add: daemon_inv_def)
  ultimately show ?thesis using pk q2(2) w(2-4,7,8) by (intro exI) auto
qed

text \<open>
  From the wire to a channel.  In a consistent state with an idle channel, a binary packet with a
  well-formed event for a loaded sound is put into the engine queue, and the next turn of the engine
  thread, however many events are waiting, starts one of the sound's samples on the first idle channel
  with the position of the event; the events that were waiting are left in the queue.
\<close>

theorem packet_to_channel:
  assumes inv: "daemon_inv s" and sv: "sv_queue sv = en_q s" and q: "eq_rel (en_q s) xs"
    and room: "length xs < SEM_VALUE_MAX" and h: "h_content h = PROT_CONTENT_EVENT"
    and ev: "event_wf ev" "e_type ev = event_type_code EVENT_T" "e_sound ev = Some name"
    and lk: "engineSoundTableRetrieve name (stable (en_w s)) = Inr (Some ent)" "se_data ent = EventData e"
    and c: "round_robin (evs (en_w s)) (nat (en_lastc s)) = Some c"
  shows "\<exists>q s' n. serverProcessClientEventPacket expat h (wire_event ev @ rest) sv = Inr (sv\<lparr>sv_queue := q\<rparr>) \<and>
    engine_turn False io_ok (s\<lparr>en_q := q\<rparr>) = Inr (Some s') \<and> eq_rel (en_q s') xs \<and> n < unat (snd_cnt e) \<and>
    only_chan c (en_w s) (en_w s') \<and>
    evs (en_w s') ! c = added (snds e ! n) (lens e ! n) (real (unat (e_loc ev)) / 255) (e_flags ev) (evs (en_w s) ! c)"
  using packet_turn [OF assms] by blast

theorem packet_to_channel_witness:
  "\<exists>q s'. serverProcessClientEventPacket (\<lambda>_. []) sample_header
       (wire_event (zero_event\<lparr>e_sound := Some ''ab'', e_sound_len := 2\<rparr>) @ []) server_static =
       Inr (server_static\<lparr>sv_queue := q\<rparr>) \<and>
     engine_turn False True (bell_daemon\<lparr>en_q := q\<rparr>) = Inr (Some s') \<and>
     eb_snd_buf (evs (en_w s') ! 1) = Some [5, 6]"
proof -
  let ?ev = "zero_event\<lparr>e_sound := Some ''ab'', e_sound_len := 2\<rparr>"
  have parts: "evs bell_world = [zero_event_buf, zero_event_buf]" "en_w bell_daemon = bell_world"
    "en_lastc bell_daemon = 1" "en_w bell_engine = bell_world"
    by (simp_all add: bell_world_def part_defs idle_world_def bell_daemon_def bell_engine_def)
  have rr: "round_robin (evs (en_w bell_daemon)) (nat (en_lastc bell_daemon)) = Some 1"
    by (simp add: round_robin_def parts zero_event_buf_def upt_rec)
  have ev: "event_wf ?ev" "e_type ?ev = event_type_code EVENT_T" "e_sound ?ev = Some ''ab''"
    by (simp_all add: event_wf_def zero_event_def event_type_code_def)
  have q: "sv_queue server_static = en_q bell_daemon" "eq_rel (en_q bell_daemon) []"
    using eq_rel_init by (simp_all add: server_static_def bell_daemon_def)
  have lk: "engineSoundTableRetrieve ''ab'' (stable (en_w bell_daemon)) = Inr (Some bell_entry)"
    using bell_lookup(1) parts by simp
  have h: "h_content sample_header = PROT_CONTENT_EVENT" by (simp add: sample_header_def prot_codes)
  have "length ([] :: EVENT list) < SEM_VALUE_MAX" by (simp add: SEM_VALUE_MAX_def)
  from packet_to_channel [OF bell_daemon_inv q this h ev lk bell_lookup(3) rr, of "\<lambda>_. []" "[]" True]
  show ?thesis by (auto simp: added_def)
qed

fun engine_turns :: "nat \<Rightarrow> engine \<Rightarrow> engine result" where
  "engine_turns 0 s = Inr s"
| "engine_turns (Suc n) s = bindE (daemon_do (Engine_Turn True) s) (engine_turns n)"

lemma engine_turns_drain:
  assumes "daemon_inv s" and "eq_rel (en_q s) xs" and "\<forall>e\<in>set xs. \<not> fades e"
  shows "if \<forall>e\<in>set xs. searchable (stable (en_w s)) e
    then \<exists>s'. engine_turns (length xs) s = Inr s' \<and> engineQueueEmpty (en_q s') \<and> daemon_inv s'
    else \<exists>f. engine_turns (length xs) s = Inl f"
  using assms
proof (induction xs arbitrary: s rule: rev_induct)
  case Nil
  then show ?case using eq_rel_empty_iff by simp
next
  case (snoc ev xs)
  note turn = turn_newest [OF snoc.prems(1,2), of True]
  show ?case
  proof (cases "searchable (stable (en_w s)) ev")
    case True
    then obtain s' where s': "engine_turn False True s = Inr (Some s')" "daemon_inv s'" "eq_rel (en_q s') xs"
      "stable (en_w s') = stable (en_w s)" using turn snoc.prems(3) by auto
    then show ?thesis using snoc.IH [OF s'(2,3)] snoc.prems(3) True by simp
  next
    case False
    then show ?thesis using turn by auto
  qed
qed

text \<open>
  C36.  The engine thread catches up.  In a consistent state whose queued events do not ask for fades, as many turns of
  the engine thread as the semaphore counts empty the queue and leave a consistent state if the name of every queued
  event can be looked up; if one of them cannot, the turns never get through the queue.
\<close>

theorem engine_catches_up:
  assumes "daemon_inv s" and "eq_rel (en_q s) xs" and "\<forall>e\<in>set xs. \<not> fades e"
  shows "eq_semaphore (en_q s) = Ptr (length xs) \<and>
    (if \<forall>e\<in>set xs. searchable (stable (en_w s)) e
     then \<exists>s'. engine_turns (length xs) s = Inr s' \<and> engineQueueEmpty (en_q s') \<and> daemon_inv s'
     else \<exists>f. engine_turns (length xs) s = Inl f)"
  using engine_turns_drain [OF assms] eq_rel_semaphore [OF assms(2)] by simp

text \<open>Two events, one for a sound that is loaded and one for a sound that is not.\<close>

theorem engine_catches_up_witness:
  "\<exists>s1 s2 s3. daemon_do (Arrive (bell_call ''ab'')) bell_daemon = Inr s1 \<and>
     daemon_do (Arrive (bell_call ''x'')) s1 = Inr s2 \<and> \<not> engineQueueEmpty (en_q s2) \<and>
     engine_turns 2 s2 = Inr s3 \<and> engineQueueEmpty (en_q s3)"
proof -
  obtain q where q: "daemon_do (Arrive (bell_call ''ab'')) bell_daemon = Inr (bell_daemon\<lparr>en_q := q\<rparr>)"
    "eq_rel q [bell_call ''ab'']" "daemon_reach bell_daemon (bell_daemon\<lparr>en_q := q\<rparr>)" using bell_arrives by blast
  have inv: "daemon_inv (bell_daemon\<lparr>en_q := q\<rparr>)" using daemon_reach_inv [OF q(3) bell_daemon_inv] .
  have "act_ok (bell_daemon\<lparr>en_q := q\<rparr>) (Arrive (bell_call ''x''))"
    using eq_rel_semaphore [OF q(2)] by (simp add: SEM_VALUE_MAX_def)
  then obtain r where r: "daemon_do (Arrive (bell_call ''x'')) (bell_daemon\<lparr>en_q := q\<rparr>) = Inr (bell_daemon\<lparr>en_q := r\<rparr>)"
    "daemon_inv (bell_daemon\<lparr>en_q := r\<rparr>)" "eq_rel r [bell_call ''ab'', bell_call ''x'']"
    using arrive_step [OF inv] q(2) by fastforce
  have st: "stable (en_w bell_daemon) = Ptr ((replicate 256 [])[195 := [bell_entry]])"
    by (simp add: bell_daemon_def bell_engine_def bell_world_def)
  have "engineSoundTableRetrieve ''x'' (stable (en_w bell_daemon)) = Inr None"
    by (subst retrieve_eq) (simp_all add: st table_wf_def bucket_def hash_eval)
  then have "searchable (stable (en_w bell_daemon)) (bell_call ''x'')" by (simp add: searchable_def bell_call_def)
  then have "\<exists>s3. engine_turns 2 (bell_daemon\<lparr>en_q := r\<rparr>) = Inr s3 \<and> engineQueueEmpty (en_q s3)"
    using engine_catches_up [of "bell_daemon\<lparr>en_q := r\<rparr>" "[bell_call ''ab'', bell_call ''x'']"] r(2,3) bell_searchable
    by (auto simp: numeral_2_eq_2)
  moreover have "\<not> engineQueueEmpty r" using eq_rel_empty_iff [OF r(3)] by simp
  ultimately show ?thesis using q(1) r(1) by fastforce
qed

lemma engineShutdown_pb: "engineShutdown s = Inr s' \<Longrightarrow> en_pb s' = en_pb s"
  by (auto simp: engineShutdown_def bindE_eq_Inr_iff)

lemma enqueue_destroyed: "eq_semaphore q = Freed \<Longrightarrow> \<nexists>q'. engineEnqueue ev q = Inr q'"
  by (auto simp: engineEnqueue_def eq_release_def Let_def bindE_eq_Inr_iff split: option.splits)

text \<open>
  C35.  Shutdown and reload.  In a consistent daemon, with a server module whose own shutdown only closes
  its socket, \<open>SIGINT\<close> tears everything down without a fault and ends the process.  \<open>SIGHUP\<close> tears down
  the same structures and comes back: from then on no event can be put into the engine queue, and any further
  signal frees the scheduler a second time.  The mixer thread is not waited for: if it was running and
  mixes once more before it notices the request to end, it writes to the freed output buffer.
\<close>

theorem daemon_shutdown:
  assumes inv: "daemon_inv (engine_of p)" and bl: "broadcast_list (ps_sv (pr_ps p)) \<noteq> Freed"
  shows "handleSignal Inr seek_ok now SIGINT p = Inl ProcessExit \<and>
    (\<exists>p'. handleSignal Inr seek_ok now SIGHUP p = Inr p' \<and>
       (\<forall>ev. \<nexists>q. engineEnqueue ev (en_q (engine_of p')) = Inr q) \<and>
       (\<forall>sig. handleSignal Inr seek_ok now sig p' = Inl UseAfterFree) \<and>
       (mthread p = Some Running \<longrightarrow> mthread p' = Some CancelPending \<and> doMixing p' = Inl UseAfterFree))"
proof -
  let ?p = "p\<lparr>ethread := map_option threadKill (ethread p), mthread := map_option threadKill (mthread p)\<rparr>"
  have same: "engine_of ?p = engine_of p" by (simp add: engine_of_def)
  obtain en q where en: "engineShutdown (engine_of p) = Inr en" "eq_semaphore (en_q en) = Freed"
    "en_w en = (en_w (engine_of p))\<lparr>sched := Freed, stable := Null, mqueue := q\<rparr>"
    using engineShutdown_ok [OF inv] by blast
  have off: "fst (playbackModeOn None (en_pb en)) = 0"
    using engineShutdown_pb [OF en(1)] inv by (simp add: playbackModeOn_def daemon_inv_def engine_ok_def)
  obtain freed w where w: "mixerShutdown (en_w en) = Inr (freed, w)" "sched w = Freed" "out_buf w = Freed"
    using mixerShutdown_ok [of "en_w (engine_of p)"] inv unfolding en(3) daemon_inv_def by blast
  obtain ports where ports: "bc_ports (broadcast_list (ps_sv (pr_ps p))) = Inr ports"
    using bl by (cases "broadcast_list (ps_sv (pr_ps p))") auto
  have int: "handleSignal Inr seek_ok now SIGINT p = Inl ProcessExit"
    using en(1) w ports same off by (simp add: handleSignal_def serverShutdown_def put_engine_def Let_def)
  have hup: "\<exists>p'. handleSignal Inr seek_ok now SIGHUP p = Inr p' \<and> en_q (engine_of p') = en_q en \<and>
      ps_w (pr_ps p') = w \<and> mthread p' = map_option threadKill (mthread p)"
    using en(1) w ports same off
    by (simp add: handleSignal_def serverShutdown_def put_engine_def Let_def) (simp add: engine_of_def)
  have twice: "handleSignal Inr seek_ok now sig p' = Inl UseAfterFree" if "ps_w (pr_ps p') = w" for sig p'
    using that w(2) by (simp add: handleSignal_def engineShutdown_def engine_of_def)
  have late: "doMixing p' = Inl UseAfterFree" if "ps_w (pr_ps p') = w" "mthread p' = Some CancelPending" for p'
    using that w(3) by (simp add: doMixing_def mixer_def clear_output_def)
  from hup obtain p' where p': "handleSignal Inr seek_ok now SIGHUP p = Inr p'" "en_q (engine_of p') = en_q en"
    "ps_w (pr_ps p') = w" "mthread p' = map_option threadKill (mthread p)" by blast
  have "\<forall>ev. \<nexists>q. engineEnqueue ev (en_q (engine_of p')) = Inr q"
    using enqueue_destroyed en(2) p'(2) by simp
  then show ?thesis using int p'(1,4) twice [OF p'(3)] late [OF p'(3)] by auto
qed

definition bell_process :: process where
  "bell_process = put_engine bell_daemon process_static"

theorem daemon_shutdown_witness:
  "handleSignal Inr True zero_time SIGINT bell_process = Inl ProcessExit"
proof -
  have "engine_of bell_process = bell_daemon"
    by (simp add: bell_process_def put_engine_def engine_of_def)
  then show ?thesis
    using daemon_shutdown [of bell_process True zero_time] bell_daemon_inv
    by (simp add: bell_process_def put_engine_def process_static_def parser_static_def)
qed

text \<open>
  The daemon cannot start.  Whatever the command line and the environment, once the arguments are
  accepted and the sound device has been opened and configured (if that fails, the program ends
  there), the start-up reads through the NULL output buffer of the mixer: \<open>mixerInit\<close> sizes the
  buffer by its contents.
\<close>

theorem daemon_cannot_start:
  assumes "parseCmdlineOpts args = Inr a"
  shows "peep_main env args process_static = Inl NullDeref"
  using assms
  by (simp add: peep_main_def engineInit_def mixerInit_def engine_of_def process_static_def parser_static_def
      world_static_def pa_get_def)

theorem daemon_cannot_start_witness:
  "peep_main env [] process_static = Inl NullDeref"
  using daemon_cannot_start [of "[]" zero_args env] by (simp add: parseCmdlineOpts_def)

end
