(* ===== verification/Sound_Device.thy ===== *)
theory Sound_Device
  imports Peep_Prelude
begin

text \<open>
  alsa.c and oss.c: the two sound drivers.  The ALSA driver collects the mixed chunks in a buffer of its own
  and hands it to the card when it is full; the OSS driver writes through.  The ALSA library and the
  kernel are parameters: the size of a frame, the size of the card's buffer, and how many frames each
  write accepts.  Shown: with a card that accepts what it is given the card receives exactly the bytes of
  the chunks, in order, with less than one buffer pending; what a short write does to the stream;
  and that an unconfigured driver never returns.
\<close>

section \<open>The ALSA driver\<close>

text \<open>
  The card: bytes per frame, frames in its buffer, bits of a sample in memory, whether each of the
  five calls that set the format succeeds, and the frames accepted by the \<open>n\<close>-th write (negative for an
  error).
\<close>

record card =
  cd_frame_bytes :: int
  cd_frames :: int
  cd_width :: int
  cd_set_ok :: "nat \<Rightarrow> bool"
  cd_writei :: "nat \<Rightarrow> int \<Rightarrow> int"

text \<open>The static variables, with the writes made so far and the bytes the card has accepted.\<close>

record alsa =
  hwparams :: "unit ptr"
  audio_buffer :: "8 word list ptr"
  chunksize :: int
  buffer_pos :: int
  al_writes :: nat
  al_out :: "8 word list"

definition alsa_static :: alsa where
  "alsa_static = \<lparr>hwparams = Null, audio_buffer = Null, chunksize = 0, buffer_pos = 0, al_writes = 0, al_out = []\<rparr>"

text \<open>A failure shuts the program down.\<close>

definition soundInit_alsa :: "bool \<Rightarrow> bool \<Rightarrow> alsa \<Rightarrow> alsa result" where
  "soundInit_alsa open_ok any_ok s =
     (if \<not> open_ok then Inl ProcessExit
      else if \<not> any_ok then Inl ProcessExit else Inr (s\<lparr>hwparams := Ptr ()\<rparr>))"

text \<open>
  The number of bytes of the card's buffer is multiplied once more with the bytes of a frame.
  Allocations of non-negative sizes succeed; the old buffer is not freed.
\<close>

definition allocateAudioBuffer :: "card \<Rightarrow> int \<Rightarrow> alsa \<Rightarrow> int \<times> alsa" where
  "allocateAudioBuffer c chans s =
     (let bits_per_frame = cd_width c * chans;
          size = cd_frames c * cd_frame_bytes c * c_div bits_per_frame 8;
          s1 = s\<lparr>chunksize := size\<rparr> in
      if size < 0 then (0, s1\<lparr>audio_buffer := Null\<rparr>)
      else (1, s1\<lparr>audio_buffer := Ptr (replicate (nat size) 0)\<rparr>))"

definition soundSetFormat_alsa :: "card \<Rightarrow> int \<Rightarrow> alsa \<Rightarrow> int \<times> alsa" where
  "soundSetFormat_alsa c chans s =
     (if \<not> cd_set_ok c 0 then (0, s)
      else if \<not> cd_set_ok c 1 then (0, s)
      else if \<not> cd_set_ok c 2 then (0, s)
      else if \<not> cd_set_ok c 3 then (0, s)
      else if \<not> cd_set_ok c 4 then (0, s)
      else let (r, s1) = allocateAudioBuffer c chans s in if r = 0 then (0, s1) else (1, s1))"

text \<open>\<open>memcpy (audio_buffer + buffer_pos, data, write_size)\<close>; reading and writing stay in bounds or fault.\<close>

definition copy_to_buffer :: "int \<Rightarrow> 8 word list \<Rightarrow> alsa \<Rightarrow> alsa result" where
  "copy_to_buffer n dat s =
     (if n = 0 then Inr s
      else bindE (pget (audio_buffer s)) (\<lambda>buf.
        if 0 < n \<and> nat n \<le> length dat \<and> 0 \<le> buffer_pos s \<and> nat (buffer_pos s + n) \<le> length buf
        then Inr (s\<lparr>audio_buffer := Ptr (take (nat (buffer_pos s)) buf @ take (nat n) dat @
                    drop (nat (buffer_pos s + n)) buf)\<rparr>)
        else Inl OutOfBounds))"

text \<open>The full buffer goes to the card; the result is the number of bytes it took.\<close>

definition write_buffer :: "card \<Rightarrow> alsa \<Rightarrow> (int \<times> alsa) result" where
  "write_buffer c s =
     (let frames = c_div (chunksize s) (cd_frame_bytes c);
          written_frames = cd_writei c (al_writes s) frames;
          taken = written_frames * cd_frame_bytes c in
      bindE (if taken \<le> 0 then Inr [] else pget (audio_buffer s)) (\<lambda>buf.
      Inr (taken, s\<lparr>al_writes := Suc (al_writes s), al_out := al_out s @ take (nat taken) buf\<rparr>)))"

text \<open>
  The amount copied: what is left of the data or the room in the buffer, compared as unsigned 64-bit
  numbers and stored in an \<open>int\<close>.
\<close>

definition write_amount :: "nat \<Rightarrow> alsa \<Rightarrow> int" where
  "write_amount data_size s =
     (let room = unat (word_of_int (chunksize s - buffer_pos s) :: 64 word) in
      sint (of_nat (if data_size \<le> room then data_size else room) :: 32 word))"

partial_function (option) chunk_loop :: "card \<Rightarrow> nat \<Rightarrow> 8 word list \<Rightarrow> nat \<Rightarrow> alsa \<Rightarrow> (int \<times> alsa) result option" where
  "chunk_loop c len dat data_size s =
     (if data_size = 0 then Some (Inr (int len, s))
      else let write_size = write_amount data_size s in
        bindO (Some (copy_to_buffer write_size dat s)) (\<lambda>s1.
        let dat1 = drop (nat write_size) dat; size1 = data_size - nat write_size;
            s2 = s1\<lparr>buffer_pos := buffer_pos s1 + write_size\<rparr> in
        if buffer_pos s2 = chunksize s2
        then bindO (Some (write_buffer c s2)) (\<lambda>(written, s3).
             if written \<noteq> chunksize s3 then Some (Inr (written, s3))
             else chunk_loop c len dat1 size1 (s3\<lparr>buffer_pos := 0\<rparr>))
        else chunk_loop c len dat1 size1 s2))"

definition soundPlayChunk_alsa :: "card \<Rightarrow> bool \<Rightarrow> 8 word list \<Rightarrow> nat \<Rightarrow> alsa \<Rightarrow> (int \<times> alsa) result" where
  "soundPlayChunk_alsa c handle dat len s =
     (if \<not> handle then Inr (0, s) else loopE (chunk_loop c len dat len s))"

text \<open>The pointers are not reset.\<close>

definition soundClose_alsa :: "alsa \<Rightarrow> alsa result" where
  "soundClose_alsa s =
     bindE (pfree (audio_buffer s)) (\<lambda>b. bindE (pfree (hwparams s)) (\<lambda>h.
     Inr (s\<lparr>audio_buffer := b, hwparams := h\<rparr>)))"

section \<open>The OSS driver\<close>

text \<open>
  The handle is the address of the descriptor, or \<open>NULL\<close> without a device; a failing \<open>open\<close> shuts the
  program down.  \<open>wr n\<close> is what \<open>write\<close> returns for \<open>n\<close> bytes.
\<close>

definition soundInit_oss :: "bool \<Rightarrow> int option \<Rightarrow> int option result" where
  "soundInit_oss has_device fd =
     (if \<not> has_device then Inr None
      else case fd of None \<Rightarrow> Inl ProcessExit | Some d \<Rightarrow> Inr (Some d))"

definition soundSetFormat_oss :: "bool \<Rightarrow> bool \<Rightarrow> bool \<Rightarrow> int option \<Rightarrow> int result" where
  "soundSetFormat_oss fmt_ok chans_ok speed_ok handle =
     (case handle of None \<Rightarrow> Inl NullDeref
      | Some fd \<Rightarrow> Inr (if \<not> fmt_ok then 0 else if \<not> chans_ok then 0 else if \<not> speed_ok then 0 else 1))"

definition soundPlayChunk_oss :: "(nat \<Rightarrow> int) \<Rightarrow> int option \<Rightarrow> 8 word list \<Rightarrow> nat \<Rightarrow> (int \<times> 8 word list) result" where
  "soundPlayChunk_oss wr handle dat len =
     (case handle of None \<Rightarrow> Inl NullDeref | Some fd \<Rightarrow> Inr (wr len, take (nat (wr len)) dat))"

section \<open>The stream behind the buffer\<close>

text \<open>A configured driver: \<open>k\<close> bytes of buffer, \<open>p\<close> of them used.\<close>

definition alsa_at :: "nat \<Rightarrow> nat \<Rightarrow> 8 word list \<Rightarrow> alsa \<Rightarrow> bool" where
  "alsa_at k p buf s \<longleftrightarrow> audio_buffer s = Ptr buf \<and> length buf = k \<and> chunksize s = int k \<and>
     buffer_pos s = int p \<and> p < k \<and> k < 2 ^ 31"

definition alsa_ready :: "card \<Rightarrow> alsa \<Rightarrow> bool" where
  "alsa_ready c s \<longleftrightarrow> 0 < cd_frame_bytes c \<and> cd_frame_bytes c dvd chunksize s \<and> (\<exists>k p buf. alsa_at k p buf s)"

text \<open>The bytes handed to the driver so far: those the card has and those waiting in the buffer.\<close>

definition alsa_stream :: "alsa \<Rightarrow> 8 word list" where
  "alsa_stream s = al_out s @ (case audio_buffer s of Ptr buf \<Rightarrow> take (nat (buffer_pos s)) buf | _ \<Rightarrow> [])"

lemma stream_at: "alsa_at k p buf s \<Longrightarrow> alsa_stream s = al_out s @ take p buf"
  by (simp add: alsa_at_def alsa_stream_def)

lemma write_amount_at:
  assumes "alsa_at k p buf s" and "m < 2 ^ 31"
  shows "write_amount m s = int (min m (k - p))"
proof -
  have kp: "k < 2 ^ 31" "chunksize s - buffer_pos s = int (k - p)"
    using assms(1) by (simp_all add: alsa_at_def of_nat_diff)
  have "k - p < 2 ^ 64" using kp(1) by simp
  then have room: "unat (word_of_int (int (k - p)) :: 64 word) = k - p" by (simp add: unsigned_of_nat take_bit_nat_eq_self)
  have "min m (k - p) < 2 ^ 32" "min m (k - p) < 2 ^ 31" using assms(2) by simp_all
  then have "sint (of_nat (min m (k - p)) :: 32 word) = int (min m (k - p))"
    by (simp only: sint32_small unat_of_nat32)
  then show ?thesis unfolding write_amount_def kp(2) Let_def room min_def .
qed

text \<open>One turn of the loop on a configured driver; \<open>n\<close> bytes are copied.\<close>

definition refill :: "nat \<Rightarrow> nat \<Rightarrow> 8 word list \<Rightarrow> 8 word list \<Rightarrow> 8 word list" where
  "refill p n dat buf = take p buf @ take n dat @ drop (p + n) buf"

lemma copy_at:
  assumes at: "alsa_at k p buf s" and n: "n \<le> length dat" "p + n \<le> k"
  shows "copy_to_buffer (int n) dat s = Inr (s\<lparr>audio_buffer := Ptr (refill p n dat buf)\<rparr>)"
proof (cases "n = 0")
  case True
  have "s\<lparr>audio_buffer := Ptr buf\<rparr> = s" using at by (cases s) (simp add: alsa_at_def)
  then show ?thesis using True by (simp add: copy_to_buffer_def refill_def)
next
  case False
  then show ?thesis using at n
    by (simp add: copy_to_buffer_def alsa_at_def refill_def nat_int_add of_nat_add [symmetric] del: of_nat_add)
qed

lemma chunk_turn_part:
  assumes at: "alsa_at k p buf s" and m: "0 < length dat" "length dat < 2 ^ 31" and less: "p + length dat < k"
  shows "chunk_loop c len dat (length dat) s =
      Some (Inr (int len, s\<lparr>audio_buffer := Ptr (refill p (length dat) dat buf), buffer_pos := int (p + length dat)\<rparr>))"
proof -
  have w: "write_amount (length dat) s = int (length dat)" using write_amount_at [OF at m(2)] less by simp
  have pos: "buffer_pos s = int p" "chunksize s = int k" using at by (simp_all add: alsa_at_def)
  show ?thesis
    using copy_at [OF at, of "length dat" dat] m less
    by (subst chunk_loop.simps) (simp add: w pos Let_def chunk_loop.simps [of c len _ 0])
qed

lemma chunk_turn_full:
  assumes at: "alsa_at k p buf s" and m: "length dat < 2 ^ 31" and n: "p + n = k" "n \<le> length dat"
    and fr: "0 < cd_frame_bytes c" "cd_frame_bytes c dvd int k"
    and w: "taken = cd_writei c (al_writes s) (int k div cd_frame_bytes c) * cd_frame_bytes c"
  shows "chunk_loop c len dat (length dat) s =
     (let s1 = s\<lparr>audio_buffer := Ptr (refill p n dat buf), buffer_pos := int k, al_writes := Suc (al_writes s),
                al_out := al_out s @ take (nat taken) (refill p n dat buf)\<rparr> in
      if taken \<noteq> int k then Some (Inr (taken, s1))
      else chunk_loop c len (drop n dat) (length dat - n) (s1\<lparr>buffer_pos := 0\<rparr>))"
proof -
  have pos: "buffer_pos s = int p" "chunksize s = int k" "p < k" using at by (simp_all add: alsa_at_def)
  have "0 < n" using n(1) pos(3) by linarith
  then have ne: "0 < n" "dat \<noteq> []" using n(2) by auto
  have "min (length dat) (k - p) = n" using n by simp
  then have wa: "write_amount (length dat) s = int n" using write_amount_at [OF at m] by simp
  have div: "c_div (int k) (cd_frame_bytes c) = int k div cd_frame_bytes c"
    using fr(1) pos(3) by (simp add: c_div_def)
  have full: "int p + int n = int k" using n(1) by simp
  show ?thesis
    using copy_at [OF at n(2)] n(1) ne
    by (subst chunk_loop.simps) (simp add: wa pos(1,2) Let_def write_buffer_def div full w [symmetric])
qed

lemma length_refill [simp]:
  "p + n \<le> length buf \<Longrightarrow> n \<le> length dat \<Longrightarrow> length (refill p n dat buf) = length buf"
  by (simp add: refill_def)

lemma take_refill:
  "p + n \<le> length buf \<Longrightarrow> n \<le> length dat \<Longrightarrow> take (p + n) (refill p n dat buf) = take p buf @ take n dat"
  by (simp add: refill_def)

definition accepting :: "card \<Rightarrow> bool" where
  "accepting c \<longleftrightarrow> (\<forall>n f. cd_writei c n f = f)"

lemma chunk_loop_stream:
  assumes "alsa_at k p buf s" and "0 < cd_frame_bytes c" "cd_frame_bytes c dvd int k" and "accepting c"
    and "length dat < 2 ^ 31"
  shows "\<exists>s' p' buf'. chunk_loop c len dat (length dat) s = Some (Inr (int len, s')) \<and> alsa_at k p' buf' s' \<and>
     alsa_stream s' = alsa_stream s @ dat"
  using assms
proof (induction "length dat" arbitrary: dat p buf s rule: less_induct)
  case less
  note at = less.prems(1) and fr = less.prems(2,3)
  have pk: "p < k" "length buf = k" using at by (simp_all add: alsa_at_def)
  show ?case
  proof (cases "dat = []")
    case True
    then show ?thesis using at by (intro exI [of _ s] exI [of _ p] exI [of _ buf]) (simp add: chunk_loop.simps)
  next
    case False
    show ?thesis
    proof (cases "p + length dat < k")
      case True
      let ?s = "s\<lparr>audio_buffer := Ptr (refill p (length dat) dat buf), buffer_pos := int (p + length dat)\<rparr>"
      have "alsa_at k (p + length dat) (refill p (length dat) dat buf) ?s"
        using at True pk(2) by (simp add: alsa_at_def)
      moreover from this have "alsa_stream ?s = alsa_stream s @ dat"
        using stream_at [OF at] take_refill [of p "length dat" buf dat] True pk(2) by (simp add: stream_at)
      ultimately show ?thesis using chunk_turn_part [OF at _ less.prems(5) True, of c len] False by blast
    next
      case full: False
      define n where "n = k - p"
      have n: "p + n = k" "n \<le> length dat" "0 < n" using full pk(1) by (simp_all add: n_def)
      let ?buf = "refill p n dat buf"
      let ?s = "s\<lparr>audio_buffer := Ptr ?buf, al_writes := Suc (al_writes s), al_out := al_out s @ ?buf, buffer_pos := 0\<rparr>"
      have buf: "length ?buf = k" "?buf = take p buf @ take n dat"
        using n pk(2) take_refill [of p n buf dat] by simp_all
      have taken: "int k = cd_writei c (al_writes s) (int k div cd_frame_bytes c) * cd_frame_bytes c"
        using less.prems(3,4) by (simp add: accepting_def)
      have step: "chunk_loop c len dat (length dat) s = chunk_loop c len (drop n dat) (length (drop n dat)) ?s"
        using chunk_turn_full [OF at less.prems(5) n(1,2) fr taken, of len] buf(1) by (simp add: Let_def)
      have at': "alsa_at k 0 ?buf ?s" using at buf(1) n(3) pk(1) by (simp add: alsa_at_def)
      have "length (drop n dat) < length dat" using n by simp
      moreover have "length (drop n dat) < 2 ^ 31" using less.prems(5) by simp
      ultimately obtain s' p' buf' where r: "chunk_loop c len (drop n dat) (length (drop n dat)) ?s = Some (Inr (int len, s'))"
        "alsa_at k p' buf' s'" "alsa_stream s' = alsa_stream ?s @ drop n dat"
        using less.hyps [OF _ at' fr less.prems(4)] by blast
      have "alsa_stream ?s @ drop n dat = alsa_stream s @ dat"
        using stream_at [OF at] stream_at [OF at'] buf(2) by simp
      then show ?thesis using step r by auto
    qed
  qed
qed

text \<open>Several chunks in a row, as the mixer hands them over.\<close>

fun play_all :: "card \<Rightarrow> 8 word list list \<Rightarrow> alsa \<Rightarrow> (int list \<times> alsa) result" where
  "play_all c [] s = Inr ([], s)"
| "play_all c (d # ds) s =
     bindE (soundPlayChunk_alsa c True d (length d) s) (\<lambda>(r, s1).
     bindE (play_all c ds s1) (\<lambda>(rs, s2). Inr (r # rs, s2)))"

lemma play_all_stream:
  assumes "alsa_at k p buf s" and "0 < cd_frame_bytes c" "cd_frame_bytes c dvd int k" and "accepting c"
    and "\<forall>d\<in>set ds. length d < 2 ^ 31"
  shows "\<exists>s' p' buf'. play_all c ds s = Inr (map (int \<circ> length) ds, s') \<and> alsa_at k p' buf' s' \<and>
     alsa_stream s' = alsa_stream s @ concat ds"
  using assms(1,5)
proof (induction ds arbitrary: s p buf)
  case Nil
  then show ?case by auto
next
  case (Cons d ds)
  obtain s1 p1 buf1 where 1: "chunk_loop c (length d) d (length d) s = Some (Inr (int (length d), s1))"
    "alsa_at k p1 buf1 s1" "alsa_stream s1 = alsa_stream s @ d"
    using chunk_loop_stream [OF Cons.prems(1) assms(2-4)] Cons.prems(2) by fastforce
  obtain s2 p2 buf2 where 2: "play_all c ds s1 = Inr (map (int \<circ> length) ds, s2)" "alsa_at k p2 buf2 s2"
    "alsa_stream s2 = alsa_stream s1 @ concat ds"
    using Cons.IH [OF 1(2)] Cons.prems(2) by auto
  show ?case using 1 2 by (auto simp: soundPlayChunk_alsa_def)
qed

section \<open>Short writes and missing formats\<close>

text \<open>A full buffer left behind by a short write is written again, whole, before anything else.\<close>

lemma full_buffer_again:
  assumes s: "audio_buffer s = Ptr buf" "length buf = k" "chunksize s = int k" "buffer_pos s = int k" "0 < k"
    and fr: "0 < cd_frame_bytes c" "cd_frame_bytes c dvd int k"
    and w: "cd_writei c (al_writes s) (int k div cd_frame_bytes c) = int k div cd_frame_bytes c"
    and d: "d \<noteq> []"
  shows "chunk_loop c len d (length d) s =
     chunk_loop c len d (length d) (s\<lparr>al_writes := Suc (al_writes s), al_out := al_out s @ buf, buffer_pos := 0\<rparr>)"
proof -
  have amount: "write_amount (length d) s = 0" using s(3,4) d by (simp add: write_amount_def Let_def)
  have div: "c_div (int k) (cd_frame_bytes c) = int k div cd_frame_bytes c"
    using fr(1) s(5) by (simp add: c_div_def)
  have pos: "s\<lparr>buffer_pos := int k\<rparr> = s" using s(4) by (cases s) simp
  show ?thesis
    using s d fr w
    by (subst chunk_loop.simps) (simp add: amount copy_to_buffer_def Let_def write_buffer_def div pos)
qed

lemma chunk_loop_unset:
  assumes "\<And>n. cd_writei c n 0 = 0"
  shows "chunksize s = 0 \<Longrightarrow> buffer_pos s = 0 \<Longrightarrow> 0 < m \<Longrightarrow> chunk_loop c len dat m s = None"
proof (rule ccontr)
  assume s: "chunksize s = 0" "buffer_pos s = 0" "0 < m" and "chunk_loop c len dat m s \<noteq> None"
  then obtain y where y: "chunk_loop c len dat m s = Some y" by blast
  have "\<not> (c' = c \<and> chunksize s = 0 \<and> buffer_pos s = 0 \<and> 0 < m)"
    if "chunk_loop c' len dat m s = Some y" for c' len dat m s y
  proof (rule chunk_loop.raw_induct [OF _ that], goal_cases)
    case (1 loop c' len dat m s y)
    show ?case
    proof
      assume h: "c' = c \<and> chunksize s = 0 \<and> buffer_pos s = 0 \<and> 0 < m"
      have amount: "write_amount m s = 0" using h by (simp add: write_amount_def Let_def)
      have "loop c len dat m (s\<lparr>buffer_pos := 0, al_writes := Suc (al_writes s), al_out := al_out s, buffer_pos := 0\<rparr>) = Some y"
        using 1(2) h amount assms by (simp add: copy_to_buffer_def Let_def write_buffer_def c_div_def)
      from 1(1) [OF this] h show False by simp
    qed
  qed
  from this [OF y] s show False by simp
qed

section \<open>Properties\<close>

text \<open>
  C17.  The audio stream.  On a configured driver whose card accepts every write, any sequence of chunks is
  taken whole: each call returns the length of its chunk, what the card has received followed by what waits in
  the buffer grows by exactly the bytes of the chunks, in order, and less than one buffer is
  waiting.  So the driver implements a byte stream.
\<close>

theorem alsa_stream_refines:
  assumes "alsa_ready c s" and "accepting c" and "\<forall>d\<in>set ds. length d < 2 ^ 31"
  shows "\<exists>s'. play_all c ds s = Inr (map (int \<circ> length) ds, s') \<and> alsa_ready c s' \<and>
    alsa_stream s' = alsa_stream s @ concat ds \<and>
    (\<exists>rest. alsa_stream s' = al_out s' @ rest \<and> int (length rest) < chunksize s')"
proof -
  obtain k p buf where at: "alsa_at k p buf s" and fr: "0 < cd_frame_bytes c" "cd_frame_bytes c dvd int k"
    using assms(1) by (auto simp: alsa_ready_def alsa_at_def)
  obtain s' p' buf' where r: "play_all c ds s = Inr (map (int \<circ> length) ds, s')" "alsa_at k p' buf' s'"
    "alsa_stream s' = alsa_stream s @ concat ds"
    using play_all_stream [OF at fr assms(2,3)] by blast
  have "alsa_ready c s'" using r(2) fr by (auto simp: alsa_ready_def alsa_at_def)
  moreover have "alsa_stream s' = al_out s' @ take p' buf'" "int (length (take p' buf')) < chunksize s'"
    using stream_at [OF r(2)] r(2) by (simp_all add: alsa_at_def)
  ultimately show ?thesis using r(1,3) by blast
qed

definition sample_card :: card where
  "sample_card = \<lparr>cd_frame_bytes = 2, cd_frames = 1, cd_width = 8, cd_set_ok = (\<lambda>_. True), cd_writei = (\<lambda>n f. f)\<rparr>"

definition sample_driver :: alsa where
  "sample_driver = snd (soundSetFormat_alsa sample_card 2 alsa_static)"

lemma sample_driver_at: "alsa_at 4 0 [0, 0, 0, 0] sample_driver"
proof -
  have "replicate 4 (0 :: 8 word) = [0, 0, 0, 0]" by (simp add: eval_nat_numeral)
  then show ?thesis
    by (simp add: alsa_at_def sample_driver_def soundSetFormat_alsa_def allocateAudioBuffer_def sample_card_def
        alsa_static_def c_div_def Let_def)
qed

lemma sample_driver_ready: "alsa_ready sample_card sample_driver"
  using sample_driver_at by (auto simp: alsa_ready_def alsa_at_def sample_card_def)

theorem alsa_stream_refines_witness:
  "\<exists>s'. play_all sample_card [[1, 2, 3], [4, 5, 6]] sample_driver = Inr ([3, 3], s') \<and>
     alsa_stream s' = [1, 2, 3, 4, 5, 6]"
proof -
  have "accepting sample_card" by (simp add: accepting_def sample_card_def)
  from alsa_stream_refines [OF sample_driver_ready this, of "[[1, 2, 3], [4, 5, 6]]"] obtain s' where
    "play_all sample_card [[1, 2, 3], [4, 5, 6]] sample_driver = Inr ([3, 3], s')"
    "alsa_stream s' = alsa_stream sample_driver @ [1, 2, 3, 4, 5, 6]"
    by (auto simp del: play_all.simps)
  moreover have "alsa_stream sample_driver = []"
    using stream_at [OF sample_driver_at]
    by (simp add: sample_driver_def soundSetFormat_alsa_def allocateAudioBuffer_def alsa_static_def Let_def sample_card_def)
  ultimately show ?thesis by auto
qed

text \<open>
  C40.  A short write.  When the buffer fills and the card takes only the first \<open>t\<close> bytes of it, the call
  returns \<open>t\<close>, the data behind the buffer are lost, and the whole buffer is written again by the next
  call: the first \<open>t\<close> bytes are heard twice.  Before a format is set the driver never returns.
\<close>

theorem alsa_short_write:
  assumes at: "alsa_at k p buf s" and fr: "0 < cd_frame_bytes c" "cd_frame_bytes c dvd int k"
    and dat: "k \<le> p + length dat" "length dat < 2 ^ 31"
    and short: "int t = cd_writei c (al_writes s) (int k div cd_frame_bytes c) * cd_frame_bytes c" "t < k"
    and good: "cd_writei c (Suc (al_writes s)) (int k div cd_frame_bytes c) = int k div cd_frame_bytes c"
    and d: "d \<noteq> []" "length d < k"
  shows "\<exists>s1 s2. soundPlayChunk_alsa c True dat (length dat) s = Inr (int t, s1) \<and>
      soundPlayChunk_alsa c True d (length d) s1 = Inr (int (length d), s2) \<and>
      (let block = take p buf @ take (k - p) dat in
       al_out s1 = al_out s @ take t block \<and> alsa_stream s2 = al_out s @ take t block @ block @ d)"
proof -
  have pk: "p < k" "length buf = k" "k < 2 ^ 31" "chunksize s = int k" using at by (simp_all add: alsa_at_def)
  have n: "p + (k - p) = k" "k - p \<le> length dat" using pk(1) dat(1) by simp_all
  define b where "b = refill p (k - p) dat buf"
  have b: "length b = k" "b = take p buf @ take (k - p) dat"
    using take_refill [of p "k - p" buf dat] n pk(2) by (simp_all add: b_def)
  define s1 where "s1 = s\<lparr>audio_buffer := Ptr b, buffer_pos := int k, al_writes := Suc (al_writes s),
     al_out := al_out s @ take t b\<rparr>"
  have s1: "audio_buffer s1 = Ptr b" "chunksize s1 = int k" "buffer_pos s1 = int k"
    "al_writes s1 = Suc (al_writes s)" "al_out s1 = al_out s @ take t b" using pk(4) by (simp_all add: s1_def)
  define s2 where "s2 = s1\<lparr>al_writes := Suc (al_writes s1), al_out := al_out s1 @ b, buffer_pos := 0\<rparr>"
  have s2: "audio_buffer s2 = Ptr b" "chunksize s2 = int k" "buffer_pos s2 = 0"
    "al_out s2 = al_out s @ take t b @ b" using s1 by (simp_all add: s2_def)
  have first: "chunk_loop c (length dat) dat (length dat) s = Some (Inr (int t, s1))"
    using chunk_turn_full [OF at dat(2) n fr short(1)] short(2) by (simp add: Let_def b_def [symmetric] s1_def)
  have k0: "0 < k" using pk(1) by linarith
  have again: "chunk_loop c (length d) d (length d) s1 = chunk_loop c (length d) d (length d) s2"
    unfolding s2_def
    by (rule full_buffer_again [OF s1(1) b(1) s1(2,3) k0 fr _ d(1)]) (use good s1(4) in simp)
  have at2: "alsa_at k 0 b s2" using s2 b(1) pk(3) k0 by (simp add: alsa_at_def)
  have less: "0 + length d < k" "0 < length d" "length d < 2 ^ 31" using d pk(3) by simp_all
  define s3 where "s3 = s2\<lparr>audio_buffer := Ptr (refill 0 (length d) d b), buffer_pos := int (0 + length d)\<rparr>"
  have third: "chunk_loop c (length d) d (length d) s2 = Some (Inr (int (length d), s3))"
    unfolding s3_def using chunk_turn_part [OF at2 less(2,3,1)] .
  have "alsa_stream s3 = al_out s @ take t b @ b @ d"
    using s2(4) by (simp add: s3_def alsa_stream_def refill_def)
  then show ?thesis
    unfolding soundPlayChunk_alsa_def using first again third s1(5) b(2)
    by (intro exI [of _ s1] exI [of _ s3]) (simp add: Let_def)
qed

theorem alsa_short_write_witness:
  "\<exists>s1 s2. soundPlayChunk_alsa (sample_card\<lparr>cd_writei := \<lambda>n f. if n = 0 then 1 else f\<rparr>) True [1, 2, 3, 4, 5] 5 sample_driver
       = Inr (2, s1) \<and>
     soundPlayChunk_alsa (sample_card\<lparr>cd_writei := \<lambda>n f. if n = 0 then 1 else f\<rparr>) True [6] 1 s1 = Inr (1, s2) \<and>
     alsa_stream s2 = [1, 2, 1, 2, 3, 4, 6]"
proof -
  have d: "al_writes sample_driver = 0" "al_out sample_driver = []"
    by (simp_all add: sample_driver_def soundSetFormat_alsa_def allocateAudioBuffer_def alsa_static_def Let_def sample_card_def)
  have five: "(5 :: nat) = Suc (Suc (Suc (Suc (Suc 0))))" by simp
  have "take 4 [1, 2, 3, 4, 5 :: 8 word] = [1, 2, 3, 4]" by (simp add: eval_nat_numeral)
  moreover have "take 2 [1, 2, 3, 4 :: 8 word] = [1, 2]" by (simp add: eval_nat_numeral)
  ultimately show ?thesis
    using alsa_short_write [OF sample_driver_at,
        of "sample_card\<lparr>cd_writei := \<lambda>n f. if n = 0 then 1 else f\<rparr>" "[1, 2, 3, 4, 5]" 2 "[6]"] d
    unfolding five by (auto simp: sample_card_def Let_def)
qed

text \<open>
  A driver without a format never returns from a chunk that is not empty.
\<close>

theorem alsa_unset_diverges:
  assumes "\<And>n. cd_writei c n 0 = 0" and "0 < len"
  shows "soundPlayChunk_alsa c True dat len alsa_static = Inl Diverges"
  using chunk_loop_unset [OF assms(1)] assms(2)
  by (simp add: soundPlayChunk_alsa_def alsa_static_def)

end
