(* ===== verification/Audio_Path.thy ===== *)
theory Audio_Path
  imports Mixer_Chunk Sound_Device
begin

text \<open>
  From the mixer to the card: the last step of \<open>mixer\<close> hands the chunk, as bytes, to the sound driver.  The
  model of the mixer returns the chunk; here it goes through the ALSA driver.  Shown: a mixer that runs
  for any number of turns puts the bytes of its chunks, and nothing else, into the stream of the card.
\<close>

section \<open>Mixing onto the card\<close>

text \<open>The memory of the samples, the low byte first.\<close>

definition sample_bytes :: "16 word \<Rightarrow> 8 word list" where
  "sample_bytes x = [ucast x, ucast (drop_bit 8 x)]"

definition chunk_bytes :: "16 word list \<Rightarrow> 8 word list" where
  "chunk_bytes xs = concat (map sample_bytes xs)"

lemma length_chunk_bytes [simp]: "length (chunk_bytes xs) = 2 * length xs"
  by (induction xs) (simp_all add: chunk_bytes_def sample_bytes_def)

definition mixer_to_card :: "card \<Rightarrow> world \<times> alsa \<Rightarrow> (world \<times> alsa) result" where
  "mixer_to_card c = (\<lambda>(w, s).
     bindE (mixer w) (\<lambda>(chunk, w1).
     bindE (soundPlayChunk_alsa c True (chunk_bytes chunk) (chunk_size w1 * 2) s) (\<lambda>(r, s1).
     Inr (w1, s1))))"

fun mix_turns :: "nat \<Rightarrow> card \<Rightarrow> world \<times> alsa \<Rightarrow> (world \<times> alsa) result" where
  "mix_turns 0 c p = Inr p"
| "mix_turns (Suc n) c p = bindE (mixer_to_card c p) (mix_turns n c)"

text \<open>A read of the stream gives the samples back.\<close>

lemma sample_bytes_back:
  "sample_bytes x = [lo, hi] \<Longrightarrow> x = or (ucast lo) (push_bit 8 (ucast hi))"
  unfolding sample_bytes_def
  by (auto intro!: bit_word_eqI simp: bit_simps)

lemma mix_turns_stream:
  assumes "mixer_ok w" and "frame_peak w \<le> 32768" and "chunk_size w < 2 ^ 30"
    and "alsa_at k p buf s" and "0 < cd_frame_bytes c" "cd_frame_bytes c dvd int k" and "accepting c"
  shows "\<exists>w' s' cs p' buf'. mix_turns n c (w, s) = Inr (w', s') \<and> play_chunks n w = Inr (cs, w') \<and> mixer_ok w' \<and>
     alsa_at k p' buf' s' \<and> alsa_stream s' = alsa_stream s @ concat (map chunk_bytes cs)"
  using assms(1-4)
proof (induction n arbitrary: w s p buf)
  case 0
  then show ?case by auto
next
  case (Suc n)
  obtain x w1 where x: "mixer w = Inr (x, w1)" "length x = chunk_size w" "mixer_ok w1" "same_sizes w w1"
    using mixer_run [OF Suc.prems(1)] by blast
  have same: "frame_peak w1 = frame_peak w" "chunk_size w1 = chunk_size w"
    using x(4) by (simp_all add: frame_peak_def same_sizes_def)
  have len: "length (chunk_bytes x) = chunk_size w1 * 2" "length (chunk_bytes x) < 2 ^ 31"
    using x(2) same(2) Suc.prems(3) by simp_all
  obtain s1 p1 buf1 where s1: "chunk_loop c (chunk_size w1 * 2) (chunk_bytes x) (chunk_size w1 * 2) s =
      Some (Inr (int (chunk_size w1 * 2), s1))"
    "alsa_at k p1 buf1 s1" "alsa_stream s1 = alsa_stream s @ chunk_bytes x"
    using chunk_loop_stream [OF Suc.prems(4) assms(5-7) len(2), of "chunk_size w1 * 2"] unfolding len(1) by blast
  have step: "mixer_to_card c (w, s) = Inr (w1, s1)"
    using x(1) s1(1) by (simp add: mixer_to_card_def soundPlayChunk_alsa_def)
  obtain w2 s2 cs p2 buf2 where r: "mix_turns n c (w1, s1) = Inr (w2, s2)" "play_chunks n w1 = Inr (cs, w2)"
    "mixer_ok w2" "alsa_at k p2 buf2 s2" "alsa_stream s2 = alsa_stream s1 @ concat (map chunk_bytes cs)"
    using Suc.IH [OF x(3) _ _ s1(2)] Suc.prems(2,3) unfolding same by blast
  show ?case using step r x(1) s1(3) by (intro exI [of _ w2] exI [of _ s2] exI [of _ "x # cs"]) auto
qed

section \<open>Properties\<close>

text \<open>
  C18.  What is heard.  From a consistent mixer whose states do not ask for fades and are in sum not louder than full
  volume, chunks shorter than \<open>2 ^ 30\<close>, and a configured card that accepts every write, any number of turns returns, and the stream of the card grows by exactly the
  bytes of the chunks the mixer computes, in order, each of full length; every sample in them is the integer
  sum of the contributions to its frame.
\<close>

theorem mixed_chunks_reach_card:
  assumes "mixer_ok w" and "sum_list (vols w) \<le> 1" and "chunk_size w < 2 ^ 30"
    and "alsa_ready c s" and "accepting c"
  shows "\<exists>w' s' cs. mix_turns n c (w, s) = Inr (w', s') \<and> play_chunks n w = Inr (cs, w') \<and> mixer_ok w' \<and>
    alsa_ready c s' \<and> alsa_stream s' = alsa_stream s @ concat (map chunk_bytes cs) \<and>
    length cs = n \<and> (\<forall>x\<in>set cs. length x = chunk_size w) \<and> map (map sint) cs = exact_chunks n w"
proof -
  obtain k p buf where at: "alsa_at k p buf s" and fr: "0 < cd_frame_bytes c" "cd_frame_bytes c dvd int k"
    using assms(4) by (auto simp: alsa_ready_def alsa_at_def)
  have peak: "frame_peak w \<le> 32768"
    using assms(2) by (simp add: frame_peak_def EVENT_PEAK_def STATE_PEAK_def)
  obtain w' s' cs p' buf' where r: "mix_turns n c (w, s) = Inr (w', s')" "play_chunks n w = Inr (cs, w')"
    "mixer_ok w'" "alsa_at k p' buf' s'" "alsa_stream s' = alsa_stream s @ concat (map chunk_bytes cs)"
    using mix_turns_stream [OF assms(1) peak assms(3) at fr assms(5)] by blast
  have "alsa_ready c s'" using r(4) fr by (auto simp: alsa_ready_def alsa_at_def)
  then show ?thesis using play_chunks_run [OF assms(1) peak, of n] r by auto
qed

theorem mixed_chunks_reach_card_witness:
  "\<exists>w' s' c cs. mix_turns 3 sample_card (chime_world, sample_driver) = Inr (w', s') \<and> map sint c = [190, -220] \<and>
     alsa_stream s' = alsa_stream sample_driver @ chunk_bytes c @ concat (map chunk_bytes cs)"
proof -
  have "sum_list (vols chime_world) \<le> 1" "chunk_size chime_world < 2 ^ 30" "accepting sample_card"
    by (simp_all add: chime_world_parts accepting_def sample_card_def)
  from mixed_chunks_reach_card [OF chime_world_ok this(1,2) sample_driver_ready this(3), of 3]
  obtain w' s' cs where r: "mix_turns 3 sample_card (chime_world, sample_driver) = Inr (w', s')" "length cs = 3"
    "alsa_stream s' = alsa_stream sample_driver @ concat (map chunk_bytes cs)"
    "map (map sint) cs = exact_chunks 3 chime_world" by blast
  then obtain c ds where c: "cs = c # ds" "map sint c = [190, -220]"
    by (cases cs) (auto simp: numeral_3_eq_3 chime_exact)
  have "concat (map chunk_bytes cs) = chunk_bytes c @ concat (map chunk_bytes ds)" using c(1) by simp
  then show ?thesis using r(1,3) c(2) by metis
qed

end
