(* ===== verification/Sound_Mix.thy ===== *)
theory Sound_Mix
  imports Mixer_Chunk
begin

text \<open>
  What the mixer computes, exactly, from the event sounds that are playing, when nothing waits in the queue
  and the states are silent.  Shown: the chunks, joined, are the superposition of the scaled samples of
  what is left of every sound, each once and in order, and then silence; the sums never wrap, so
  that they are sums of integers; every channel becomes free with its last sample.
\<close>

section \<open>What is left of a sound\<close>

text \<open>A sample as it is heard: even positions are on the left.\<close>

definition scaled_sample :: "samples \<Rightarrow> real \<Rightarrow> real \<Rightarrow> nat \<Rightarrow> 16 word" where
  "scaled_sample d dyn st k =
     word_of_int (trunc (of_int (sint (d ! k)) * dyn * 0.6 * (if even k then st else 1 - st)))"

definition channel_rest :: "nat \<Rightarrow> world \<Rightarrow> 16 word list" where
  "channel_rest c w = (let b = evs w ! c in case eb_snd_buf b of None \<Rightarrow> []
     | Some d \<Rightarrow> map (scaled_sample d (muls w ! c) (eb_stereo_pos b)) [unat (eb_pos b)..<unat (eb_len b)])"

text \<open>A list of samples read beyond its end is silence.\<close>

definition or_silence :: "16 word list \<Rightarrow> nat \<Rightarrow> 16 word" where
  "or_silence xs k = (if k < length xs then xs ! k else 0)"

lemma or_silence_drop: "or_silence (drop n xs) k = or_silence xs (n + k)"
  by (auto simp: or_silence_def)

lemma or_silence_Nil [simp]: "or_silence [] k = 0"
  by (simp add: or_silence_def)

lemma map_or_silence: "map (or_silence xs) [0..<n] = take n (xs @ replicate n 0)"
  by (rule nth_equalityI) (auto simp: or_silence_def nth_append)

text \<open>Sounds may play, but nothing can follow them.\<close>

definition ensemble :: "world \<Rightarrow> bool" where
  "ensemble w \<longleftrightarrow> play_ok w \<and> mixerQueueEmpty (mqueue w) \<and> (\<forall>b\<in>set (sbs w). sb_vol b = 0)"

lemma ensembleD:
  assumes "ensemble w"
  shows "ev_inv w" "st_inv w" "mixerQueueEmpty (mqueue w)" "b \<in> set (sbs w) \<Longrightarrow> sb_vol b = 0"
  using assms by (auto simp: ensemble_def play_ok_def)

lemma channel_rest_out: "channel_rest c (w\<lparr>out_buf := o'\<rparr>) = channel_rest c w"
proof -
  have parts: "evs (w\<lparr>out_buf := o'\<rparr>) = evs w" "muls (w\<lparr>out_buf := o'\<rparr>) = muls w" by (simp_all add: part_defs)
  show ?thesis unfolding channel_rest_def parts ..
qed

lemma rest_empty_iff:
  assumes "ensemble w" and "c < length (evs w)"
  shows "channel_rest c w = [] \<longleftrightarrow> eb_snd_buf (evs w ! c) = None"
  using ev_invD(2) [OF ensembleD(1) [OF assms(1)] assms(2)]
  by (auto simp: channel_rest_def buf_ok_def Let_def split: option.splits)

lemma channel_rest_other:
  assumes "only_chan c w w'" and "j \<noteq> c"
  shows "channel_rest j w' = channel_rest j w"
proof -
  have same: "evs w' ! j = evs w ! j" "muls w' ! j = muls w ! j" using assms by (simp_all add: only_chan_def)
  show ?thesis unfolding channel_rest_def same ..
qed

text \<open>What keeps an ensemble: the states and the queue are left alone.\<close>

lemma ensemble_step:
  assumes "ensemble w" and "ev_inv w'" and "only_chan c w w'" and "mqueue w' = mqueue w"
  shows "ensemble w'"
proof -
  have sb: "sbs w' = sbs w" "st_inv w'"
    using assms(3) st_inv_frame [OF ensembleD(2) [OF assms(1)]] by (simp_all add: only_chan_def sbs_def)
  show ?thesis
    using assms(2,3,4) sb ensembleD [OF assms(1)] by (simp add: ensemble_def play_ok_def only_chan_def)
qed

text \<open>What mixing never changes.\<close>

definition same_setup :: "world \<Rightarrow> world \<Rightarrow> bool" where
  "same_setup w w' \<longleftrightarrow> length (evs w') = length (evs w) \<and> chunk_size w' = chunk_size w \<and>
     sbuffs w' = sbuffs w \<and> stable w' = stable w"

lemma same_setup_refl [simp]: "same_setup w w"
  by (simp add: same_setup_def)

lemma same_setup_trans: "same_setup w w' \<Longrightarrow> same_setup w' w'' \<Longrightarrow> same_setup w w''"
  by (simp add: same_setup_def)

lemma only_chan_setup: "only_chan c w w' \<Longrightarrow> same_setup w w'"
  by (simp add: only_chan_def same_setup_def)

section \<open>One frame\<close>

lemma mix_event_idle:
  assumes "ev_inv w" and "j < length (evs w)" and "eb_snd_buf (evs w ! j) = None"
  shows "mix_event i j w = Inr w"
  using assms chan_repD(1) [OF ev_invD(1) [OF assms(1)]] by (simp add: mix_event_def)

lemma remove_keeps_queue:
  assumes inv: "ev_inv w" and j: "j < length (evs w)" and d: "eb_snd_buf (evs w ! j) = Some d"
    and b': "eb_snd_buf b' = eb_snd_buf (evs w ! j)"
    and run: "mixerRemoveEvent j (w\<lparr>ebuffs := Ptr ((evs w)[j := b'])\<rparr>) = Inr w'"
  shows "mqueue w' = mqueue w"
proof -
  note i = ev_invD [OF inv]
  have "j < length ((evs w)[j := b'])" "eb_snd_buf ((evs w)[j := b'] ! j) \<noteq> None" "j < length (scheds w)"
    using j d b' i(4) by auto
  from mixerRemoveEvent_occupied(1) [OF chan_rep_advance [OF i(1) j b'] this(1,2) _ this(3)] show ?thesis
    using run i(3,5) by auto
qed

definition put_frame :: "nat \<Rightarrow> 16 word \<Rightarrow> 16 word \<Rightarrow> 16 word list \<Rightarrow> 16 word list" where
  "put_frame i l r xs = xs[i := xs ! i + l, Suc i := xs ! Suc i + r]"

lemma put_frame_0 [simp]: "put_frame i 0 0 xs = xs"
  by (simp add: put_frame_def)

lemma length_put_frame [simp]: "length (put_frame i l r xs) = length xs"
  by (simp add: put_frame_def)

lemma put_frame_put_frame:
  "Suc i < length xs \<Longrightarrow> put_frame i l' r' (put_frame i l r xs) = put_frame i (l + l') (r + r') xs"
  by (simp add: put_frame_def list_update_swap [of i "Suc i"] add.assoc)

lemma put_frame_nth:
  assumes "Suc i < length xs"
  shows "put_frame i l r xs ! p = (if p = i then xs ! i + l else if p = Suc i then xs ! Suc i + r else xs ! p)"
  using assms by (simp add: put_frame_def nth_list_update)

lemma mix_event_rest:
  assumes ens: "ensemble w" and j: "c < length (evs w)" and out: "out_buf w = Ptr xs" "Suc i < length xs"
  shows "\<exists>w'. mix_event i c w = Inr w' \<and> ensemble w' \<and> only_chan c w w' \<and>
    out_buf w' = Ptr (put_frame i (or_silence (channel_rest c w) 0) (or_silence (channel_rest c w) 1) xs) \<and> channel_rest c w' = drop 2 (channel_rest c w)"
proof (cases "eb_snd_buf (evs w ! c)")
  case None
  then show ?thesis
    using mix_event_idle [OF ensembleD(1) [OF ens] j None] rest_empty_iff [OF ens j] ens out(1) by simp
next
  case (Some d)
  let ?b = "evs w ! c"
  let ?b' = "?b\<lparr>eb_pos := eb_pos ?b + 2\<rparr>" and ?p = "unat (eb_pos ?b)" and ?n = "unat (eb_len ?b)"
  let ?s = "scaled_sample d (muls w ! c) (eb_stereo_pos ?b)"
  note inv = ensembleD(1) [OF ens]
  note i = ev_invD [OF inv] and r = chan_repD [OF ev_invD(1) [OF inv]]
  have ok: "sample_ok d (eb_len ?b)" "even ?p" "?p < ?n" "0 \<le> eb_stereo_pos ?b" "eb_stereo_pos ?b \<le> 1"
    using i(2) [OF j] Some by (simp_all add: buf_ok_def)
  have len: "even ?n" "?n \<le> length d" using ok(1) by (auto simp: sample_ok_def)
  note fs = frame_step [OF ok(2) len(1) ok(3)]
  have p1: "Suc ?p < ?n" using ok(2,3) len by (elim evenE) simp
  have rest: "channel_rest c w = map ?s [?p..<?n]" using Some by (simp add: channel_rest_def Let_def)
  have l: "event_sample d (eb_pos ?b) (muls w ! c) (eb_stereo_pos ?b) =
      Inr (trunc (of_int (sint (d ! ?p)) * muls w ! c * 0.6 * eb_stereo_pos ?b))"
    using event_sample_exact [of "eb_pos ?b" d] muls_bounds [OF inv j] ok len by simp
  have rr: "event_sample d (eb_pos ?b + 1) (muls w ! c) (1 - eb_stereo_pos ?b) =
      Inr (trunc (of_int (sint (d ! Suc ?p)) * muls w ! c * 0.6 * (1 - eb_stereo_pos ?b)))"
    using event_sample_exact [of "eb_pos ?b + 1" d] muls_bounds [OF inv j] ok len p1 fs(1) by simp
  have vals: "or_silence (channel_rest c w) 0 = ?s ?p" "or_silence (channel_rest c w) 1 = ?s (Suc ?p)"
    using p1 ok(3) less_diff_conv [of 1 ?n ?p] by (simp_all add: rest or_silence_def)
  define w2 where "w2 = w\<lparr>out_buf := Ptr (put_frame i (or_silence (channel_rest c w) 0) (or_silence (channel_rest c w) 1) xs)\<rparr>"
  have w2: "ev_inv w2" "evs w2 = evs w" "muls w2 = muls w" "only_chan c w w2" "mqueue w2 = mqueue w"
    "out_buf w2 = Ptr (put_frame i (or_silence (channel_rest c w) 0) (or_silence (channel_rest c w) 1) xs)"
    using inv by (simp_all add: w2_def part_defs only_chan_def)
  let ?w3 = "w2\<lparr>ebuffs := Ptr ((evs w)[c := ?b'])\<rparr>"
  have run: "mix_event i c w =
      (if eb_pos ?b' = eb_len ?b'
       then bindE (mixerRemoveEvent c ?w3) (\<lambda>w4.
              if \<not> mixerQueueEmpty (mqueue w4) then mixerAddOldEvent c w4 else Inr w4)
       else Inr ?w3)"
    using Some r(1,2,4) j l rr out ok(2) vals
    by (simp add: mix_event_def Let_def mixerApplyEventFilters_def w2_def put_frame_def scaled_sample_def)
  show ?thesis
  proof (cases "eb_pos ?b' = eb_len ?b'")
    case False
    have inv3: "ev_inv ?w3" using ev_inv_advance [of w2 c d ?b'] w2 j Some False by simp
    have only: "only_chan c w ?w3" using w2(4) w2(2) by (simp add: only_chan_def part_defs)
    have parts: "evs ?w3 = (evs w)[c := ?b']" "muls ?w3 = muls w" using w2 by (simp_all add: part_defs)
    have "channel_rest c ?w3 = map ?s [?p + 2..<?n]"
      using parts Some j fs(2) by (simp add: channel_rest_def Let_def)
    also have "\<dots> = drop 2 (channel_rest c w)" by (simp add: rest drop_map)
    finally show ?thesis
      using run False ensemble_step [OF ens inv3 only] only w2(5,6) by simp
  next
    case True
    have last: "?n = ?p + 2" using True fs(2) by simp
    obtain w4 where w4: "mixerRemoveEvent c ?w3 = Inr w4" "ev_inv w4" "only_chan c w2 w4"
      "out_buf w4 = out_buf w2" "eb_snd_buf (evs w4 ! c) = None"
      using remove_finished [of w2 c d ?b'] w2 j Some by auto
    have q: "mqueue w4 = mqueue w" using remove_keeps_queue [of w2 c d ?b' w4] w4(1) w2 j Some by simp
    have only: "only_chan c w w4" using only_chan_trans [OF w2(4) w4(3)] .
    have "channel_rest c w4 = drop 2 (channel_rest c w)"
      using w4(5) by (simp add: channel_rest_def [of c w4] Let_def rest last)
    then show ?thesis
      using run True w4(1,4) w2(6) q ensembleD(3) [OF ens] ensemble_step [OF ens w4(2) only q] only by simp
  qed
qed

text \<open>The sum of all channels at one position.\<close>

definition mixed :: "world \<Rightarrow> nat \<Rightarrow> 16 word" where
  "mixed w p = (\<Sum>j<length (evs w). or_silence (channel_rest j w) p)"

lemma mixed_out: "mixed (w\<lparr>out_buf := o'\<rparr>) p = mixed w p"
proof -
  have "evs (w\<lparr>out_buf := o'\<rparr>) = evs w" by (simp add: part_defs)
  then show ?thesis by (simp add: mixed_def channel_rest_out)
qed

text \<open>What one event has left of the sounds, \<open>n\<close> samples later.\<close>

definition moved_on :: "nat \<Rightarrow> world \<Rightarrow> world \<Rightarrow> bool" where
  "moved_on n w w' \<longleftrightarrow> same_setup w w' \<and> ensemble w' \<and>
     (\<forall>j<length (evs w). channel_rest j w' = drop n (channel_rest j w))"

lemma moved_onD:
  assumes "moved_on n w w'"
  shows "same_setup w w'" "ensemble w'" "j < length (evs w) \<Longrightarrow> channel_rest j w' = drop n (channel_rest j w)"
  using assms by (auto simp: moved_on_def)

lemma moved_on_refl: "ensemble w \<Longrightarrow> moved_on 0 w w"
  by (simp add: moved_on_def)

lemma moved_on_trans:
  assumes "moved_on n w w'" and "moved_on k w' w''"
  shows "moved_on (n + k) w w''"
proof -
  have "length (evs w') = length (evs w)" using moved_onD(1) [OF assms(1)] by (simp add: same_setup_def)
  with assms show ?thesis unfolding moved_on_def by (auto simp: add.commute intro: same_setup_trans)
qed

lemma moved_on_mixed:
  assumes "moved_on n w w'"
  shows "mixed w' p = mixed w (n + p)"
proof -
  have "length (evs w') = length (evs w)" using moved_onD(1) [OF assms] by (simp add: same_setup_def)
  then show ?thesis
    using moved_onD(3) [OF assms] by (auto simp: mixed_def or_silence_drop intro!: sum.cong)
qed

lemma mix_events_rest:
  assumes ens: "ensemble w" and out: "out_buf w = Ptr xs" "Suc i < length xs"
  shows "\<exists>w'. foldE (mix_event i) [0..<unat (no_ebuffs w)] w = Inr w' \<and> moved_on 2 w w' \<and>
    out_buf w' = Ptr (put_frame i (mixed w 0) (mixed w 1) xs)"
proof -
  let ?n = "length (evs w)"
  let ?sum = "\<lambda>k p. \<Sum>j<k. or_silence (channel_rest j w) p"
  define P where "P k w' \<longleftrightarrow> ensemble w' \<and> same_setup w w' \<and>
      out_buf w' = Ptr (put_frame i (?sum k 0) (?sum k 1) xs) \<and>
      (\<forall>j<?n. channel_rest j w' = drop (if j < k then 2 else 0) (channel_rest j w))" for k w'
  have "P 0 w" using ens out by (simp add: P_def)
  moreover have "\<exists>w2. mix_event i k w1 = Inr w2 \<and> P (Suc k) w2" if k: "k < ?n" and P: "P k w1" for k w1
  proof -
    note p = P [unfolded P_def]
    have n1: "length (evs w1) = ?n" and rest: "channel_rest k w1 = channel_rest k w"
      using p k by (simp_all add: same_setup_def)
    obtain w2 where w2: "mix_event i k w1 = Inr w2" "ensemble w2" "only_chan k w1 w2"
      "out_buf w2 = Ptr (put_frame i (or_silence (channel_rest k w) 0) (or_silence (channel_rest k w) 1)
         (put_frame i (?sum k 0) (?sum k 1) xs))" "channel_rest k w2 = drop 2 (channel_rest k w)"
      using mix_event_rest [of w1 k "put_frame i (?sum k 0) (?sum k 1) xs" i] p k n1 out(2) unfolding rest
      by auto
    have "channel_rest j w2 = drop (if j < Suc k then 2 else 0) (channel_rest j w)" if "j < ?n" for j
      using p that w2(5) channel_rest_other [OF w2(3), of j] by (cases "j = k") (auto simp: less_Suc_eq)
    then have "P (Suc k) w2"
      using w2(2,4) put_frame_put_frame [OF out(2)] same_setup_trans [OF _ only_chan_setup [OF w2(3)]] p
      by (simp add: P_def)
    with w2(1) show ?thesis by blast
  qed
  ultimately obtain w' where w': "foldE (mix_event i) [0..<?n] w = Inr w'" "P ?n w'"
    using foldE_range_invariant [of P w ?n "mix_event i"] by blast
  have "unat (no_ebuffs w) = ?n" using chan_repD(3) [OF ev_invD(1) [OF ensembleD(1) [OF ens]]] by simp
  with w' show ?thesis by (simp add: P_def moved_on_def mixed_def)
qed

lemma mix_state_silent:
  assumes "st_inv w" and "j < length (sbs w)" and "sb_vol (sbs w ! j) = 0"
  shows "mix_state i j w = Inr w"
proof -
  have sb: "sbuffs w = Ptr (sbs w)" and ok: "state_ok (sbs w ! j)"
    using assms(1,2) by (simp_all add: st_inv_def)
  show ?thesis
    using sb assms(2,3) sndptr_eq [OF sb assms(2) state_ok_thresh [OF ok], of 0]
    by (simp add: mix_state_def)
qed

lemma mix_frame_rest:
  assumes ens: "ensemble w" and out: "out_buf w = Ptr xs" "Suc i < length xs"
  shows "\<exists>w'. mix_frame i w = Inr w' \<and> moved_on 2 w w' \<and>
    out_buf w' = Ptr (put_frame i (mixed w 0) (mixed w 1) xs)"
proof -
  obtain w' where w': "foldE (mix_event i) [0..<unat (no_ebuffs w)] w = Inr w'" "moved_on 2 w w'"
    "out_buf w' = Ptr (put_frame i (mixed w 0) (mixed w 1) xs)"
    using mix_events_rest [OF ens out] by blast
  note e = ensembleD [OF moved_onD(2) [OF w'(2)]]
  have n: "unat (no_sbuffs w') = length (sbs w')" using e(2) by (simp add: st_inv_def)
  have "\<exists>v. foldE (mix_state i) [0..<length (sbs w')] w' = Inr v \<and> v = w'"
    by (rule foldE_range_invariant) (use mix_state_silent [OF e(2)] e(4) in auto)
  then show ?thesis using w' n by (simp add: mix_frame_def)
qed

section \<open>Chunks\<close>

lemma mix_frames_rest:
  assumes ens: "ensemble w" and out: "out_buf w = Ptr xs" "2 * n \<le> length xs" and zero: "\<forall>p<2 * n. xs ! p = 0"
  shows "\<exists>w' ys. foldE mix_frame (map ((*) 2) [0..<n]) w = Inr w' \<and> moved_on (2 * n) w w' \<and>
    out_buf w' = Ptr ys \<and> length ys = length xs \<and> (\<forall>p<2 * n. ys ! p = mixed w p)"
proof -
  define P where "P k w' \<longleftrightarrow> moved_on (2 * k) w w' \<and>
      (\<exists>ys. out_buf w' = Ptr ys \<and> length ys = length xs \<and>
         (\<forall>p<2 * n. ys ! p = (if p < 2 * k then mixed w p else 0)))" for k w'
  have "P 0 w" using moved_on_refl [OF ens] out zero by (auto simp: P_def)
  moreover have "\<exists>w2. mix_frame (2 * k) w1 = Inr w2 \<and> P (Suc k) w2" if k: "k < n" and P: "P k w1" for k w1
  proof -
    from P obtain ys where ys: "out_buf w1 = Ptr ys" "length ys = length xs"
      "\<forall>p<2 * n. ys ! p = (if p < 2 * k then mixed w p else 0)" by (auto simp: P_def)
    have m1: "moved_on (2 * k) w w1" using P by (simp add: P_def)
    have room: "Suc (2 * k) < length ys" using k out(2) ys(2) by simp
    obtain w2 where w2: "mix_frame (2 * k) w1 = Inr w2" "moved_on 2 w1 w2"
      "out_buf w2 = Ptr (put_frame (2 * k) (mixed w (2 * k)) (mixed w (2 * k + 1)) ys)"
      using mix_frame_rest [OF moved_onD(2) [OF m1] ys(1) room] moved_on_mixed [OF m1] by auto
    have "\<forall>p<2 * n. put_frame (2 * k) (mixed w (2 * k)) (mixed w (2 * k + 1)) ys ! p =
        (if p < 2 * Suc k then mixed w p else 0)"
      unfolding put_frame_nth [OF room] using ys(3) k by auto
    then have "P (Suc k) w2"
      using w2(3) ys(2) moved_on_trans [OF m1 w2(2)] by (simp add: P_def)
    with w2(1) show ?thesis by blast
  qed
  ultimately obtain w' where "foldE (\<lambda>k. mix_frame (2 * k)) [0..<n] w = Inr w'" "P n w'"
    using foldE_range_invariant [of P w n "\<lambda>k. mix_frame (2 * k)"] by blast
  then show ?thesis by (auto simp: P_def foldE_map)
qed

lemma mixer_rest:
  assumes ok: "mixer_ok w" and ens: "ensemble w"
  shows "\<exists>w'. mixer w = Inr (map (mixed w) [0..<chunk_size w], w') \<and> mixer_ok w' \<and>
    moved_on (chunk_size w) w w'"
proof -
  from ok obtain xs where xs: "out_buf w = Ptr xs" "chunk_size w \<le> length xs" "even (chunk_size w)"
    by (auto simp: mixer_ok_def)
  obtain n where n: "chunk_size w = 2 * n" using xs(3) by (elim evenE)
  let ?zs = "replicate (chunk_size w) 0 @ drop (chunk_size w) xs"
  let ?w1 = "w\<lparr>out_buf := Ptr ?zs\<rparr>"
  have clear: "clear_output w = Inr ?w1" using xs by (simp add: clear_output_def)
  have only: "only_chan 0 w ?w1" by (simp add: only_chan_def part_defs)
  have e1: "ensemble ?w1" using ensemble_step [OF ens _ only] ensembleD(1) [OF ens] by simp
  have m1: "moved_on 0 w ?w1"
    using only_chan_setup [OF only] e1 by (simp add: moved_on_def channel_rest_out)
  obtain w' ys where w': "foldE mix_frame (map ((*) 2) [0..<n]) ?w1 = Inr w'" "moved_on (2 * n) ?w1 w'"
    "out_buf w' = Ptr ys" "length ys = length xs" "\<forall>p<2 * n. ys ! p = mixed w p"
    using mix_frames_rest [OF e1, of ?zs n] xs(2) n unfolding mixed_out by (auto simp: nth_append)
  have m: "moved_on (chunk_size w) w w'" using moved_on_trans [OF m1 w'(2)] n by simp
  have size: "chunk_size w' = chunk_size w" using moved_onD(1) [OF m] by (simp add: same_setup_def)
  have "take (chunk_size w) ys = map (mixed w) [0..<chunk_size w]"
    using w'(4,5) xs(2) n by (intro nth_equalityI) auto
  then have "mixer w = Inr (map (mixed w) [0..<chunk_size w], w')"
    using clear w'(1,3) size n by (simp add: mixer_def)
  moreover have "mixer_ok w'" using moved_onD(2) [OF m] w'(3,4) xs size by (simp add: mixer_ok_def ensemble_def)
  ultimately show ?thesis using m by blast
qed

lemma map_upto_append: "map f [0..<a] @ map (\<lambda>p. f (a + p)) [0..<b] = map f [0..<a + b]"
  by (rule nth_equalityI) (auto simp: nth_append)

lemma play_chunks_rest:
  assumes "mixer_ok w" and "ensemble w"
  shows "\<exists>cs w'. play_chunks n w = Inr (cs, w') \<and> mixer_ok w' \<and> moved_on (n * chunk_size w) w w' \<and>
    concat cs = map (mixed w) [0..<n * chunk_size w]"
  using assms
proof (induction n arbitrary: w)
  case 0
  then show ?case by (simp add: moved_on_refl)
next
  case (Suc n)
  obtain w1 where w1: "mixer w = Inr (map (mixed w) [0..<chunk_size w], w1)" "mixer_ok w1"
    "moved_on (chunk_size w) w w1"
    using mixer_rest [OF Suc.prems] by blast
  have size: "chunk_size w1 = chunk_size w" using moved_onD(1) [OF w1(3)] by (simp add: same_setup_def)
  have m1: "mixed w1 = (\<lambda>p. mixed w (chunk_size w + p))" using moved_on_mixed [OF w1(3)] by blast
  obtain cs w2 where cs: "play_chunks n w1 = Inr (cs, w2)" "mixer_ok w2" "moved_on (n * chunk_size w) w1 w2"
    "concat cs = map (\<lambda>p. mixed w (chunk_size w + p)) [0..<n * chunk_size w]"
    using Suc.IH [OF w1(2) moved_onD(2) [OF w1(3)]] unfolding size m1 by blast
  show ?case
    using w1(1) cs moved_on_trans [OF w1(3) cs(3)] map_upto_append [of "mixed w" "chunk_size w" "n * chunk_size w"]
    by (simp add: add.commute)
qed

section \<open>The sums do not wrap\<close>

lemma peak_short: "\<bar>real_of_int k\<bar> \<le> EVENT_PEAK \<Longrightarrow> \<bar>k\<bar> \<le> 32767"
  by (simp add: EVENT_PEAK_def)

lemma sint16_small: "\<bar>k\<bar> \<le> 32767 \<Longrightarrow> sint (word_of_int k :: 16 word) = k"
  by (rule sint16_of_int) simp_all

lemma sint_word_sum:
  fixes f :: "nat \<Rightarrow> 16 word"
  assumes "\<bar>\<Sum>j<n. sint (f j)\<bar> \<le> 32767"
  shows "sint (\<Sum>j<n. f j) = (\<Sum>j<n. sint (f j))"
proof -
  have "(\<Sum>j<n. f j) = word_of_int (\<Sum>j<n. sint (f j))"
    by (induction n) simp_all
  then show ?thesis using sint16_small [OF assms] by simp
qed

lemma channel_rest_bound:
  assumes inv: "ev_inv w" and j: "j < length (evs w)"
  shows "\<bar>real_of_int (sint (or_silence (channel_rest j w) p))\<bar> \<le> EVENT_PEAK * muls w ! j"
proof (cases "p < length (channel_rest j w)")
  case False
  then show ?thesis using muls_bounds(1) [OF inv j] by (simp add: or_silence_def EVENT_PEAK_def)
next
  case True
  let ?b = "evs w ! j"
  from True obtain d where d: "eb_snd_buf ?b = Some d"
    by (auto simp: channel_rest_def Let_def split: option.splits)
  have ok: "sample_ok d (eb_len ?b)" "0 \<le> eb_stereo_pos ?b" "eb_stereo_pos ?b \<le> 1"
    using ev_invD(2) [OF inv j] d by (simp_all add: buf_ok_def)
  let ?k = "unat (eb_pos ?b) + p"
  let ?st = "if even ?k then eb_stereo_pos ?b else 1 - eb_stereo_pos ?b"
  have k: "?k < unat (eb_len ?b)" and rest: "or_silence (channel_rest j w) p =
      scaled_sample d (muls w ! j) (eb_stereo_pos ?b) ?k"
    using True d by (simp_all add: channel_rest_def Let_def or_silence_def)
  have "unat (of_nat m :: 32 word) = m" if "m < unat (eb_len ?b)" for m
    using that unsigned_less [of "eb_len ?b", where ?'a = nat] by (simp add: unat_of_nat take_bit_nat_eq_self)
  from this [OF k] have "unat (of_nat ?k :: 32 word) = ?k" .
  then obtain v where v: "event_sample d (of_nat ?k) (muls w ! j) ?st = Inr v"
      "\<bar>of_int v\<bar> \<le> EVENT_PEAK * muls w ! j"
      "v = trunc (of_int (sint (d ! ?k)) * muls w ! j * 0.6 * ?st)"
    using event_sample_ok [of "of_nat ?k" d "muls w ! j" ?st]
      event_sample_exact [of "of_nat ?k" d "muls w ! j" ?st] muls_bounds [OF inv j] ok k
    by (auto simp: sample_ok_def split: if_splits)
  have "EVENT_PEAK * muls w ! j \<le> EVENT_PEAK * 1"
    using muls_bounds(2) [OF inv j] by (intro mult_left_mono) (simp_all add: EVENT_PEAK_def)
  then have "\<bar>v\<bar> \<le> 32767" using v(2) by (simp add: EVENT_PEAK_def)
  then have "sint (word_of_int v :: 16 word) = v" by (rule sint16_small)
  then show ?thesis using v rest by (simp add: scaled_sample_def)
qed

lemma mixed_exact:
  assumes "ensemble w"
  shows "sint (mixed w p) = (\<Sum>j<length (evs w). sint (or_silence (channel_rest j w) p))"
    and "\<bar>real_of_int (sint (mixed w p))\<bar> \<le> EVENT_PEAK"
proof -
  let ?n = "length (evs w)" and ?f = "\<lambda>j. or_silence (channel_rest j w) p"
  note inv = ensembleD(1) [OF assms] and r = chan_repD [OF ev_invD(1) [OF ensembleD(1) [OF assms]]]
  have "\<bar>real_of_int (\<Sum>j<?n. sint (?f j))\<bar> \<le> (\<Sum>j<?n. \<bar>real_of_int (sint (?f j))\<bar>)"
    by (simp add: sum_abs)
  also have "\<dots> \<le> (\<Sum>j<?n. EVENT_PEAK * muls w ! j)"
    using channel_rest_bound [OF inv] by (intro sum_mono) simp
  also have "\<dots> = EVENT_PEAK * sum_list (muls w)"
    using r(4) by (simp add: sum_distrib_left sum_list_sum_nth atLeast0LessThan)
  also have "\<dots> \<le> EVENT_PEAK * 1"
    using r(8) by (intro mult_left_mono) (simp_all add: EVENT_PEAK_def)
  finally have b: "\<bar>real_of_int (\<Sum>j<?n. sint (?f j))\<bar> \<le> EVENT_PEAK" by simp
  from sint_word_sum [OF peak_short [OF this]] show "sint (mixed w p) = (\<Sum>j<?n. sint (?f j))"
    by (simp add: mixed_def)
  then show "\<bar>real_of_int (sint (mixed w p))\<bar> \<le> EVENT_PEAK" using b by simp
qed

section \<open>Properties\<close>

lemma play_chunks_superpose:
  assumes "mixer_ok w" and "ensemble w"
  shows "\<exists>cs w'. play_chunks n w = Inr (cs, w') \<and> mixer_ok w' \<and> ensemble w' \<and>
    length (concat cs) = n * chunk_size w \<and>
    (\<forall>p<n * chunk_size w. sint (concat cs ! p) =
       (\<Sum>j<length (evs w). sint (or_silence (channel_rest j w) p))) \<and>
    (\<forall>j<length (evs w). eb_snd_buf (evs w' ! j) = None \<longleftrightarrow> length (channel_rest j w) \<le> n * chunk_size w)"
proof -
  obtain cs w' where r: "play_chunks n w = Inr (cs, w')" "mixer_ok w'" "moved_on (n * chunk_size w) w w'"
    "concat cs = map (mixed w) [0..<n * chunk_size w]"
    using play_chunks_rest [OF assms] by blast
  note m = moved_onD [OF r(3)]
  have "eb_snd_buf (evs w' ! j) = None \<longleftrightarrow> length (channel_rest j w) \<le> n * chunk_size w"
    if j: "j < length (evs w)" for j
    using rest_empty_iff [OF m(2), of j] m(1) m(3) [OF j] j by (simp add: same_setup_def)
  then show ?thesis using r m(2) mixed_exact(1) [OF assms(2)] by (intro exI conjI) auto
qed

text \<open>Another sound joins in.\<close>

lemma ensemble_start:
  assumes ok: "mixer_ok w" and ens: "ensemble w" and j: "j < length (evs w)"
    and free: "eb_snd_buf (evs w ! j) = None" and smp: "sample_ok d len" and loc: "0 \<le> loc" "loc \<le> 1"
  shows "\<exists>w'. mixer_ok w' \<and> ensemble w' \<and> only_chan j w w' \<and> mqueue w' = mqueue w \<and>
    evs w' ! j = added (Some d) len loc 0 (evs w ! j) \<and> muls w' ! j = next_share w"
proof -
  obtain w1 where w1: "mqueue w1 = mqueue w"
    "\<And>s f. startt s \<noteq> 0 \<Longrightarrow> \<forall>n. 0 < TP_IN_FP_SECS (f n) \<Longrightarrow>
        let w2 = w1\<lparr>clock_in := f, sched := Ptr ((scheds w)[j := s]), tlock := False\<rparr>
         in ev_inv w2 \<and> only_chan j w w2 \<and> out_buf w2 = out_buf w \<and>
            evs w2 ! j = added (Some d) len loc 0 (evs w ! j) \<and> muls w2 ! j = next_share w"
    using start_event [OF ensembleD(1) [OF ens] j free smp loc, of 0] by auto
  let ?f = "\<lambda>n. \<lparr>tv_sec = 1, tv_usec = 0\<rparr> :: timeval" and ?s = "zero_sched\<lparr>startt := 1\<rparr>"
  define w' where "w' = w1\<lparr>clock_in := ?f, sched := Ptr ((scheds w)[j := ?s]), tlock := False\<rparr>"
  have w': "ev_inv w'" "only_chan j w w'" "out_buf w' = out_buf w"
    "evs w' ! j = added (Some d) len loc 0 (evs w ! j)" "muls w' ! j = next_share w" "mqueue w' = mqueue w"
    using w1(2) [of ?s ?f] w1(1) by (simp_all add: Let_def w'_def TP_IN_FP_SECS_def)
  have e: "ensemble w'" using ensemble_step [OF ens w'(1,2,6)] .
  then have "mixer_ok w'" using ok w'(2,3) by (simp add: mixer_ok_def ensemble_def only_chan_def)
  with e w' show ?thesis by blast
qed

lemma idle_ensemble: "ensemble idle_world"
  using idle_world_ok by (simp add: ensemble_def mixer_ok_def idle_world_parts)
    (simp add: idle_world_def mixerQueueInit_def mixerQueueEmpty_def)

lemma started_rest:
  assumes "evs w' ! j = added (Some d) len loc 0 b" and "eb_pos b = 0"
  shows "channel_rest j w' = map (scaled_sample d (muls w' ! j) loc) [0..<unat len]"
  using assms by (simp add: channel_rest_def Let_def added_def)

text \<open>Two channels that play, one sound of two and one of four samples.\<close>

lemma duet:
  "\<exists>w. mixer_ok w \<and> ensemble w \<and> chunk_size w = 2 \<and> length (evs w) = 2 \<and>
     length (channel_rest 0 w) = 2 \<and> length (channel_rest 1 w) = 4"
proof -
  have s: "sample_ok [5, 6] (2 :: 32 word)" "sample_ok [1, 2, 3, 4] (4 :: 32 word)" by (simp_all add: sample_ok_def)
  have i: "length (evs idle_world) = 2" "\<And>j. j < 2 \<Longrightarrow> evs idle_world ! j = zero_event_buf"
    by (auto simp: idle_world_parts less_Suc_eq numeral_2_eq_2)
  have size: "chunk_size idle_world = 2" by (simp add: idle_world_def)
  have z: "eb_snd_buf zero_event_buf = None" "eb_pos zero_event_buf = 0" by (simp_all add: zero_event_buf_def)
  obtain w1 where w1: "mixer_ok w1" "ensemble w1" "only_chan 0 idle_world w1"
    "evs w1 ! 0 = added (Some [5, 6]) 2 0 0 zero_event_buf"
    using ensemble_start [OF idle_world_ok idle_ensemble, of 0 "[5, 6]" 2 0] s i z by auto
  have c1: "length (evs w1) = 2" "evs w1 ! 1 = zero_event_buf" "chunk_size w1 = 2"
    using w1(3) i size by (simp_all add: only_chan_def)
  obtain w2 where w2: "mixer_ok w2" "ensemble w2" "only_chan 1 w1 w2"
    "evs w2 ! 1 = added (Some [1, 2, 3, 4]) 4 1 0 zero_event_buf"
    using ensemble_start [OF w1(1,2), of 1 "[1, 2, 3, 4]" 4 1] s c1 z by auto
  have "channel_rest 0 w2 = channel_rest 0 w1" by (rule channel_rest_other [OF w2(3)]) simp
  then show ?thesis
    using w2 c1 started_rest [OF w1(4) z(2)] started_rest [OF w2(4) z(2)]
    by (intro exI [of _ w2]) (simp add: only_chan_def)
qed

text \<open>
  C5.  Superposition.  With nothing waiting in the queue and the states silent, whatever event sounds are playing,
  any number of chunks can be mixed without a fault, and every sample of the chunks, joined, is the exact sum,
  without wrap-around, of what each channel contributes: the next sample left of its sound, scaled by
  its multiplier and its position, or silence after the last one.  A channel is free at the end exactly when all
  that was left of its sound has been mixed.
\<close>

theorem sounds_superpose:
  assumes "mixer_ok w" and "ensemble w"
  shows "\<exists>cs w'. play_chunks n w = Inr (cs, w') \<and> mixer_ok w' \<and> ensemble w' \<and>
    length (concat cs) = n * chunk_size w \<and>
    (\<forall>p<n * chunk_size w. sint (concat cs ! p) =
       (\<Sum>j<length (evs w). sint (or_silence (channel_rest j w) p))) \<and>
    (\<forall>j<length (evs w). eb_snd_buf (evs w' ! j) = None \<longleftrightarrow> length (channel_rest j w) \<le> n * chunk_size w)"
  using play_chunks_superpose [OF assms] .

theorem sounds_superpose_witness:
  "\<exists>w cs w'. length (channel_rest 0 w) = 2 \<and> length (channel_rest 1 w) = 4 \<and>
     play_chunks 2 w = Inr (cs, w') \<and>
     sint (concat cs ! 1) = sint (channel_rest 0 w ! 1) + sint (channel_rest 1 w ! 1) \<and>
     sint (concat cs ! 3) = sint (channel_rest 1 w ! 3) \<and>
     eb_snd_buf (evs w' ! 0) = None \<and> eb_snd_buf (evs w' ! 1) = None"
proof -
  obtain w where w: "mixer_ok w" "ensemble w" "chunk_size w = 2" "length (evs w) = 2"
    "length (channel_rest 0 w) = 2" "length (channel_rest 1 w) = 4"
    using duet by blast
  have sum: "(\<Sum>j<2. f j) = f 0 + f 1" for f :: "nat \<Rightarrow> int" by (simp add: numeral_2_eq_2)
  show ?thesis
    using sounds_superpose [OF w(1,2), of 2] w unfolding w(3,4) sum
    by (auto simp: or_silence_def)
qed

end
