(* ===== verification/Solo_Sound.thy ===== *)
theory Solo_Sound
  imports Sound_Mix
begin

text \<open>
  The special case of one sound that plays alone: all other channels are idle.  Shown: the chunks, joined, are
  the scaled samples of what is left of the sound, each once and in order, and then silence; the channel
  becomes free with the last sample.
\<close>

definition solo :: "nat \<Rightarrow> world \<Rightarrow> bool" where
  "solo c w \<longleftrightarrow> play_ok w \<and> c < length (evs w) \<and>
     (\<forall>j<length (evs w). j \<noteq> c \<longrightarrow> eb_snd_buf (evs w ! j) = None) \<and>
     mixerQueueEmpty (mqueue w) \<and> (\<forall>b\<in>set (sbs w). sb_vol b = 0)"

lemma soloD:
  assumes "solo c w"
  shows "ensemble w" "c < length (evs w)"
    "j < length (evs w) \<Longrightarrow> j \<noteq> c \<Longrightarrow> eb_snd_buf (evs w ! j) = None"
  using assms by (auto simp: solo_def ensemble_def)

lemma solo_mixed:
  assumes "solo c w"
  shows "mixed w p = or_silence (channel_rest c w) p"
proof -
  note s = soloD [OF assms]
  have "channel_rest j w = []" if "j < length (evs w)" "j \<noteq> c" for j
    using rest_empty_iff [OF s(1) that(1)] s(3) [OF that] by simp
  then have "mixed w p = (\<Sum>j<length (evs w). if j = c then or_silence (channel_rest c w) p else 0)"
    unfolding mixed_def by (intro sum.cong) auto
  then show ?thesis using s(2) by simp
qed

lemma solo_moved_on:
  assumes "solo c w" and "moved_on n w w'"
  shows "solo c w'"
proof -
  note s = soloD [OF assms(1)] and m = moved_onD [OF assms(2)]
  have len: "length (evs w') = length (evs w)" using m(1) by (simp add: same_setup_def)
  have "eb_snd_buf (evs w' ! j) = None" if j: "j < length (evs w)" "j \<noteq> c" for j
    using rest_empty_iff [OF s(1) j(1)] s(3) [OF j] m(3) [OF j(1)] rest_empty_iff [OF m(2), of j] j(1) len by simp
  then show ?thesis using m(2) s(2) len by (simp add: solo_def ensemble_def)
qed

lemma play_chunks_solo:
  assumes "mixer_ok w" and "solo c w"
  shows "\<exists>cs w'. play_chunks n w = Inr (cs, w') \<and> mixer_ok w' \<and> solo c w' \<and>
    concat cs = map (or_silence (channel_rest c w)) [0..<n * chunk_size w] \<and>
    channel_rest c w' = drop (n * chunk_size w) (channel_rest c w)"
proof -
  note s = soloD [OF assms(2)]
  obtain cs w' where r: "play_chunks n w = Inr (cs, w')" "mixer_ok w'" "moved_on (n * chunk_size w) w w'"
    "concat cs = map (mixed w) [0..<n * chunk_size w]"
    using play_chunks_rest [OF assms(1) s(1)] by blast
  then show ?thesis
    using solo_moved_on [OF assms(2) r(3)] moved_onD(3) [OF r(3) s(2)] solo_mixed [OF assms(2)] by simp
qed

section \<open>Properties\<close>

text \<open>
  A sound that plays alone.  With all other channels idle, nothing waiting and the states silent, any number of
  chunks, joined, are the samples that are left of the sound, scaled by its multiplier and its
  position, each once and in order, and silence after them; the channel is free exactly when the last
  sample has been mixed.
\<close>

theorem solo_sound_heard:
  assumes "mixer_ok w" and "solo c w"
  shows "\<exists>cs w'. play_chunks n w = Inr (cs, w') \<and> mixer_ok w' \<and> solo c w' \<and>
    concat cs = take (n * chunk_size w) (channel_rest c w @ replicate (n * chunk_size w) 0) \<and>
    (eb_snd_buf (evs w' ! c) = None \<longleftrightarrow> length (channel_rest c w) \<le> n * chunk_size w)"
proof -
  obtain cs w' where r: "play_chunks n w = Inr (cs, w')" "mixer_ok w'" "solo c w'"
    "concat cs = map (or_silence (channel_rest c w)) [0..<n * chunk_size w]"
    "channel_rest c w' = drop (n * chunk_size w) (channel_rest c w)"
    using play_chunks_solo [OF assms] by blast
  then show ?thesis using rest_empty_iff [OF soloD(1,2) [OF r(3)]] by (auto simp: map_or_silence)
qed

text \<open>Two idle channels, of which the second has been given a sound of two samples.\<close>

lemma idle_solo_started:
  "\<exists>w. mixer_ok w \<and> solo 1 w \<and> chunk_size w = 2 \<and> length (channel_rest 1 w) = 2"
proof -
  have i: "length (evs idle_world) = 2" "\<And>j. j < 2 \<Longrightarrow> evs idle_world ! j = zero_event_buf"
    by (auto simp: idle_world_parts less_Suc_eq numeral_2_eq_2)
  have z: "eb_snd_buf zero_event_buf = None" "eb_pos zero_event_buf = 0" by (simp_all add: zero_event_buf_def)
  have size: "chunk_size idle_world = 2" by (simp add: idle_world_def)
  obtain w where w: "mixer_ok w" "ensemble w" "only_chan 1 idle_world w"
    "evs w ! 1 = added (Some [5, 6]) 2 0 0 zero_event_buf"
    using ensemble_start [OF idle_world_ok idle_ensemble, of 1 "[5, 6]" 2 0] i z by (auto simp: sample_ok_def)
  have "length (evs w) = 2" "\<And>j. j < 2 \<Longrightarrow> j \<noteq> 1 \<Longrightarrow> eb_snd_buf (evs w ! j) = None" "chunk_size w = 2"
    using w(3) i z size by (auto simp: only_chan_def)
  then show ?thesis
    using w(1,2) started_rest [OF w(4) z(2)] by (intro exI [of _ w]) (auto simp: solo_def ensemble_def)
qed

theorem solo_sound_heard_witness:
  "\<exists>w cs w'. solo 1 w \<and> play_chunks 1 w = Inr (cs, w') \<and> concat cs = channel_rest 1 w \<and>
     eb_snd_buf (evs w ! 1) \<noteq> None \<and> eb_snd_buf (evs w' ! 1) = None"
proof -
  obtain w where w: "mixer_ok w" "solo 1 w" "chunk_size w = 2" "length (channel_rest 1 w) = 2"
    using idle_solo_started by blast
  have "eb_snd_buf (evs w ! 1) \<noteq> None" using rest_empty_iff [OF soloD(1,2) [OF w(2)]] w(4) by auto
  then show ?thesis using solo_sound_heard [OF w(1,2), of 1] w by auto
qed

end
