(* ===== verification/Packet_Heard.thy ===== *)
theory Packet_Heard
  imports Daemon Audio_Path Solo_Sound
begin

text \<open>
  All components together: from the packet on the wire over the engine queue, the engine thread, the sound
  table, the mixer and the sound driver to the bytes at the sound card.
\<close>

section \<open>An idle mixer\<close>

definition all_quiet :: "world \<Rightarrow> bool" where
  "all_quiet w \<longleftrightarrow> (\<forall>j<length (evs w). eb_snd_buf (evs w ! j) = None) \<and> mixerQueueEmpty (mqueue w) \<and>
     (\<forall>b\<in>set (sbs w). sb_vol b = 0)"

text \<open>The first sound gets one half of the volume.\<close>

lemma next_share_quiet:
  assumes "ev_inv w" and "all_quiet w"
  shows "next_share w = 1 / 2"
proof -
  note r = chan_repD [OF ev_invD(1) [OF assms(1)]]
  have "muls w = replicate (length (evs w)) 0"
    using r(4,7) assms(2) by (intro nth_equalityI) (simp_all add: all_quiet_def)
  moreover have "occupied (evs w) = 0"
    using assms(2) by (auto simp: occupied_def busy_def all_quiet_def in_set_conv_nth)
  ultimately show ?thesis by (simp add: next_share_def volume_share_def sum_list_replicate)
qed

lemma quiet_ensemble:
  assumes "daemon_inv s" and "all_quiet (en_w s)"
  shows "ensemble (en_w s)" "mixed (en_w s) p = 0" "0 < length (evs (en_w s))"
    "j < length (evs (en_w s)) \<Longrightarrow> eb_snd_buf (evs (en_w s) ! j) = None"
proof -
  show e: "ensemble (en_w s)"
    using assms by (simp add: ensemble_def all_quiet_def daemon_inv_def mixer_ok_def)
  have "channel_rest j (en_w s) = []" if "j < length (evs (en_w s))" for j
    using rest_empty_iff [OF e that] assms(2) that by (simp add: all_quiet_def)
  then show "mixed (en_w s) p = 0" by (simp add: mixed_def)
  show "0 < length (evs (en_w s))" using assms(1) by (auto simp: daemon_inv_def engine_ok_def)
  show "j < length (evs (en_w s)) \<Longrightarrow> eb_snd_buf (evs (en_w s) ! j) = None"
    using assms(2) by (simp add: all_quiet_def)
qed

lemma free_round_robin:
  assumes "daemon_inv s" and "j < length (evs (en_w s))" and "eb_snd_buf (evs (en_w s) ! j) = None"
  obtains c where "round_robin (evs (en_w s)) (nat (en_lastc s)) = Some c" "c < length (evs (en_w s))"
    "eb_snd_buf (evs (en_w s) ! c) = None" "eb_pos (evs (en_w s) ! c) = 0"
proof -
  have ok: "engine_ok s" using assms(1) by (simp add: daemon_inv_def)
  then have l: "nat (en_lastc s) < length (evs (en_w s))" "ev_inv (en_w s)" by (simp_all add: engine_ok_def)
  obtain c where c: "round_robin (evs (en_w s)) (nat (en_lastc s)) = Some c"
    using round_robin_None [OF _ assms(2) l(1)] assms(3)
    by (cases "round_robin (evs (en_w s)) (nat (en_lastc s))") auto
  have free: "c < length (evs (en_w s))" "eb_snd_buf (evs (en_w s) ! c) = None" using round_robin_Some [OF c] by auto
  moreover have "eb_pos (evs (en_w s) ! c) = 0"
    using ev_invD(2) [OF l(2) free(1)] free(2) by (simp add: buf_ok_def)
  ultimately show ?thesis using that c by blast
qed

lemma chunk_bytes_concat: "concat (map chunk_bytes cs) = chunk_bytes (concat cs)"
  by (induction cs) (simp_all add: chunk_bytes_def)

text \<open>An ensemble over the ALSA driver.\<close>

lemma silent_vols:
  assumes "ensemble w"
  shows "sum_list (vols w) = 0"
proof -
  have "map sb_vol (sbs w) = map (\<lambda>_. 0) (sbs w)" using ensembleD(4) [OF assms] by simp
  then show ?thesis unfolding vols_def by (simp add: map_replicate_const sum_list_replicate)
qed

lemma ensemble_to_card:
  assumes "mixer_ok w" and "ensemble w" and "chunk_size w < 2 ^ 30" and "alsa_ready dev a" and "accepting dev"
  shows "\<exists>w' a'. mix_turns t dev (w, a) = Inr (w', a') \<and>
    alsa_stream a' = alsa_stream a @ chunk_bytes (map (mixed w) [0..<t * chunk_size w])"
proof -
  obtain k p buf where at: "alsa_at k p buf a" and fr: "0 < cd_frame_bytes dev" "cd_frame_bytes dev dvd int k"
    using assms(4) by (auto simp: alsa_ready_def alsa_at_def)
  have peak: "frame_peak w \<le> 32768"
    using silent_vols [OF assms(2)] by (simp add: frame_peak_def EVENT_PEAK_def)
  obtain w' a' cs where r: "mix_turns t dev (w, a) = Inr (w', a')" "play_chunks t w = Inr (cs, w')"
    "alsa_stream a' = alsa_stream a @ concat (map chunk_bytes cs)"
    using mix_turns_stream [OF assms(1) peak assms(3) at fr assms(5)] by blast
  have "concat cs = map (mixed w) [0..<t * chunk_size w]"
    using play_chunks_rest [OF assms(1,2), of t] r(2) by auto
  then show ?thesis using r(1,3) by (simp add: chunk_bytes_concat)
qed

text \<open>A channel that was idle joins in.\<close>

lemma mixed_joined:
  assumes "ensemble w" and "c < length (evs w)" and "eb_snd_buf (evs w ! c) = None" and "only_chan c w w'"
  shows "mixed w' p = mixed w p + or_silence (channel_rest c w') p"
proof -
  have c: "channel_rest c w = []" using rest_empty_iff [OF assms(1,2)] assms(3) by simp
  have "mixed w' p = (\<Sum>j<length (evs w). or_silence (channel_rest j w) p +
      (if j = c then or_silence (channel_rest c w') p else 0))"
    unfolding mixed_def using assms(4) channel_rest_other [OF assms(4)] c
    by (intro sum.cong) (auto simp: only_chan_def)
  then show ?thesis using assms(2) by (simp add: sum.distrib mixed_def)
qed

lemma mixed_joined_exact:
  assumes "ensemble w" and "c < length (evs w)" and "eb_snd_buf (evs w ! c) = None" and "only_chan c w w'"
    and "ensemble w'"
  shows "sint (mixed w' p) = sint (mixed w p) + sint (or_silence (channel_rest c w') p)"
proof -
  have c: "channel_rest c w = []" using rest_empty_iff [OF assms(1,2)] assms(3) by simp
  have "(\<Sum>j<length (evs w'). sint (or_silence (channel_rest j w') p)) =
      (\<Sum>j<length (evs w). sint (or_silence (channel_rest j w) p) +
         (if j = c then sint (or_silence (channel_rest c w') p) else 0))"
    using assms(4) channel_rest_other [OF assms(4)] c by (intro sum.cong) (auto simp: only_chan_def)
  then show ?thesis
    using assms(2) mixed_exact(1) [OF assms(1)] mixed_exact(1) [OF assms(5)] by (simp add: sum.distrib)
qed

text \<open>The way of a packet when other sounds may be playing.\<close>

lemma packet_joins:
  assumes inv: "daemon_inv s" and ens: "ensemble (en_w s)"
    and free: "j < length (evs (en_w s))" "eb_snd_buf (evs (en_w s) ! j) = None"
    and sv: "sv_queue sv = en_q s"
    and q: "eq_rel (en_q s) xs" and room: "length xs < SEM_VALUE_MAX" and h: "h_content h = PROT_CONTENT_EVENT"
    and ev: "event_wf ev" "e_type ev = event_type_code EVENT_T" "e_sound ev = Some name"
    and lk: "engineSoundTableRetrieve name (stable (en_w s)) = Inr (Some ent)" "se_data ent = EventData e"
    and size: "chunk_size (en_w s) < 2 ^ 30" and card: "alsa_ready dev a" "accepting dev"
  shows "\<exists>q s' n d. serverProcessClientEventPacket expat h (wire_event ev @ rest) sv = Inr (sv\<lparr>sv_queue := q\<rparr>) \<and>
    engine_turn False io_ok (s\<lparr>en_q := q\<rparr>) = Inr (Some s') \<and> n < unat (snd_cnt e) \<and> snds e ! n = Some d \<and>
    (let sound = map (scaled_sample d (next_share (en_w s)) (real (unat (e_loc ev)) / 255)) [0..<unat (lens e ! n)]
     in (\<forall>p. sint (mixed (en_w s) p + or_silence sound p) = sint (mixed (en_w s) p) + sint (or_silence sound p)) \<and>
        (\<forall>t. \<exists>w' a'. mix_turns t dev (en_w s', a) = Inr (w', a') \<and>
           alsa_stream a' = alsa_stream a @ chunk_bytes
             (map (\<lambda>p. mixed (en_w s) p + or_silence sound p) [0..<t * chunk_size (en_w s)])))"
proof -
  obtain c where c: "round_robin (evs (en_w s)) (nat (en_lastc s)) = Some c" "c < length (evs (en_w s))"
    "eb_snd_buf (evs (en_w s) ! c) = None" "eb_pos (evs (en_w s) ! c) = 0"
    using free_round_robin [OF inv free] .
  obtain q' s' n where r: "serverProcessClientEventPacket expat h (wire_event ev @ rest) sv = Inr (sv\<lparr>sv_queue := q'\<rparr>)"
    "engine_turn False io_ok (s\<lparr>en_q := q'\<rparr>) = Inr (Some s')" "n < unat (snd_cnt e)"
    "only_chan c (en_w s) (en_w s')" "mixer_ok (en_w s')" "mqueue (en_w s') = mqueue (en_w s)"
    "evs (en_w s') ! c = added (snds e ! n) (lens e ! n) (real (unat (e_loc ev)) / 255) (e_flags ev) (evs (en_w s) ! c)"
    "muls (en_w s') ! c = next_share (en_w s)"
    using packet_turn [OF inv sv q room h ev lk c(1), of expat rest io_ok] by blast
  have "loaded_ok (length (sbs (en_w s))) ent" using table_ok_lookup lk(1) inv by (auto simp: daemon_inv_def)
  then have "entry_ok e" using lk(2) by (simp add: loaded_ok_def)
  then obtain d where d: "snds e ! n = Some d" using r(3) by (auto simp: entry_ok_def)
  have "ev_inv (en_w s')" using r(5) by (simp add: mixer_ok_def play_ok_def)
  note ens' = ensemble_step [OF ens this r(4,6)]
  have sz: "chunk_size (en_w s') = chunk_size (en_w s)" using r(4) by (simp add: only_chan_def)
  have rest': "channel_rest c (en_w s') =
      map (scaled_sample d (next_share (en_w s)) (real (unat (e_loc ev)) / 255)) [0..<unat (lens e ! n)]"
    unfolding channel_rest_def r(7,8) using d c(4) by (simp add: added_def Let_def)
  note join = mixed_joined [OF ens c(2,3) r(4), unfolded rest']
    mixed_joined_exact [OF ens c(2,3) r(4) ens', unfolded rest']
  show ?thesis
    unfolding Let_def
    using r(1-3) d join(2) [unfolded join(1)]
      ensemble_to_card [OF r(5) ens' _ card, unfolded sz, unfolded join(1)] size by blast
qed

section \<open>Properties\<close>

text \<open>The documented ends of the stereo range are exchanged: an event at location 0 is silent on the left.\<close>

lemma location_ends:
  assumes "k < length (map (scaled_sample d v (real (unat (l :: 8 word)) / 255)) [0..<n])"
  shows "l = 0 \<Longrightarrow> even k \<Longrightarrow> map (scaled_sample d v (real (unat l) / 255)) [0..<n] ! k = 0"
    and "l = 255 \<Longrightarrow> odd k \<Longrightarrow> map (scaled_sample d v (real (unat l) / 255)) [0..<n] ! k = 0"
  using assms by (simp_all add: scaled_sample_def trunc_def)

text \<open>
  C2.  A packet among other sounds.  In a consistent daemon whose states are silent, with nothing queued in the mixer, a free
  channel, room in the engine queue and chunks shorter than \<open>2 ^ 30\<close>, and with a configured card that accepts every write, a binary packet with a well-formed event for a loaded sound makes the next turn of the engine thread
  add one of the sound's samples to what is playing: however often the mixer thread runs, every sample the card
  gets is the sum of what it would have got without the packet and of the sample at the next share of the
  volume, distributed between left and right by the position of the event.  The sum never wraps.  An event at location 0 is heard on
  the right only and one at location 255 on the left only; the header file and the manual say the opposite.
\<close>

theorem packet_superposed:
  assumes inv: "daemon_inv s" and ens: "ensemble (en_w s)"
    and free: "j < length (evs (en_w s))" "eb_snd_buf (evs (en_w s) ! j) = None"
    and sv: "sv_queue sv = en_q s"
    and q: "eq_rel (en_q s) xs" and room: "length xs < SEM_VALUE_MAX" and h: "h_content h = PROT_CONTENT_EVENT"
    and ev: "event_wf ev" "e_type ev = event_type_code EVENT_T" "e_sound ev = Some name"
    and lk: "engineSoundTableRetrieve name (stable (en_w s)) = Inr (Some ent)" "se_data ent = EventData e"
    and size: "chunk_size (en_w s) < 2 ^ 30" and card: "alsa_ready dev a" "accepting dev"
  shows "\<exists>q s' n d. serverProcessClientEventPacket expat h (wire_event ev @ rest) sv = Inr (sv\<lparr>sv_queue := q\<rparr>) \<and>
    engine_turn False io_ok (s\<lparr>en_q := q\<rparr>) = Inr (Some s') \<and> n < unat (snd_cnt e) \<and> snds e ! n = Some d \<and>
    (let sound = map (scaled_sample d (next_share (en_w s)) (real (unat (e_loc ev)) / 255)) [0..<unat (lens e ! n)]
     in (\<forall>p. sint (mixed (en_w s) p + or_silence sound p) = sint (mixed (en_w s) p) + sint (or_silence sound p)) \<and>
        (\<forall>t. \<exists>w' a'. mix_turns t dev (en_w s', a) = Inr (w', a') \<and>
           alsa_stream a' = alsa_stream a @ chunk_bytes
             (map (\<lambda>p. mixed (en_w s) p + or_silence sound p) [0..<t * chunk_size (en_w s)])) \<and>
        (e_loc ev = 0 \<longrightarrow> (\<forall>k<length sound. even k \<longrightarrow> sound ! k = 0)) \<and>
        (e_loc ev = 255 \<longrightarrow> (\<forall>k<length sound. odd k \<longrightarrow> sound ! k = 0)))"
  using packet_joins [OF assms, of expat rest io_ok] location_ends unfolding Let_def by blast

text \<open>
  From the wire to the sound card.  In a consistent, quiet daemon (no channel busy, nothing queued in the
  mixer, the states silent) with a configured card that takes every write, a binary packet with a well-formed
  event for a loaded sound makes the next turn of the engine thread pick one of the sound's
  samples; after that, however often the mixer thread runs, the card's stream grows by exactly the bytes of that
  sample at half volume, distributed between left and right by the position of the event,
  followed by silence.
\<close>

theorem packet_heard:
  assumes inv: "daemon_inv s" and quiet: "all_quiet (en_w s)" and sv: "sv_queue sv = en_q s"
    and q: "eq_rel (en_q s) xs" and room: "length xs < SEM_VALUE_MAX" and h: "h_content h = PROT_CONTENT_EVENT"
    and ev: "event_wf ev" "e_type ev = event_type_code EVENT_T" "e_sound ev = Some name"
    and lk: "engineSoundTableRetrieve name (stable (en_w s)) = Inr (Some ent)" "se_data ent = EventData e"
    and size: "chunk_size (en_w s) < 2 ^ 30" and card: "alsa_ready dev a" "accepting dev"
  shows "\<exists>q s' n d. serverProcessClientEventPacket expat h (wire_event ev @ rest) sv = Inr (sv\<lparr>sv_queue := q\<rparr>) \<and>
    engine_turn False io_ok (s\<lparr>en_q := q\<rparr>) = Inr (Some s') \<and> n < unat (snd_cnt e) \<and> snds e ! n = Some d \<and>
    (\<forall>t. \<exists>w' a'. mix_turns t dev (en_w s', a) = Inr (w', a') \<and>
       alsa_stream a' = alsa_stream a @ chunk_bytes (take (t * chunk_size (en_w s))
         (map (scaled_sample d (1 / 2) (real (unat (e_loc ev)) / 255)) [0..<unat (lens e ! n)] @
          replicate (t * chunk_size (en_w s)) 0)))"
proof -
  note qe = quiet_ensemble [OF inv quiet]
  have "ev_inv (en_w s)" using inv by (simp add: daemon_inv_def mixer_ok_def play_ok_def)
  then have half: "next_share (en_w s) = 1 / 2" using next_share_quiet quiet by blast
  have silence: "map (\<lambda>p. mixed (en_w s) p + or_silence xs p) [0..<k] = take k (xs @ replicate k 0)" for xs k
    by (simp add: qe(2) map_or_silence)
  from packet_joins [OF inv qe(1) qe(3) qe(4) [OF qe(3)] sv q room h ev lk size card, of expat rest io_ok]
  show ?thesis unfolding Let_def half silence by blast
qed

definition still_daemon :: engine where
  "still_daemon = bell_daemon\<lparr>en_w := bell_world\<lparr>mqueue := mqueue idle_world\<rparr>\<rparr>"

lemma still_daemon_inv: "daemon_inv still_daemon" "all_quiet (en_w still_daemon)"
proof -
  let ?q = "mqueue idle_world" and ?w = "bell_world\<lparr>mqueue := mqueue idle_world\<rparr>"
  have q: "mq_wf ?q" "mq_bag ?q = {#}" "mixerQueueEmpty ?q"
    using mixerQueueInit_wf [of 4 mixer_queue_static]
    by (simp_all add: idle_world_def mixerQueueEmpty_def mixerQueueInit_def)
  have b: "daemon_inv bell_daemon" "en_w bell_daemon = bell_world"
    using bell_daemon_inv by (simp_all add: bell_daemon_def bell_engine_def)
  then have inv: "ev_inv bell_world" "st_inv bell_world" "mixer_ok bell_world"
    by (simp_all add: daemon_inv_def mixer_ok_def play_ok_def)
  have "ev_inv ?w" using inv(1) q unfolding ev_inv_def by (simp add: chan_rep_def part_defs inputs_ok_def)
  moreover have "st_inv ?w" using st_inv_frame [OF inv(2), of ?w] by simp
  ultimately have m: "mixer_ok ?w" using inv(3) by (simp add: mixer_ok_def play_ok_def)
  have parts: "evs ?w = evs bell_world" "sbs ?w = sbs bell_world" by (simp_all add: part_defs sbs_def)
  show "daemon_inv still_daemon"
    using b m parts \<open>ev_inv ?w\<close> by (simp add: still_daemon_def daemon_inv_def engine_ok_def)
  show "all_quiet (en_w still_daemon)"
    using q(3) by (auto simp: all_quiet_def still_daemon_def bell_world_def part_defs sbs_def idle_world_def
        zero_event_buf_def less_Suc_eq)
qed

theorem packet_heard_witness:
  "\<exists>q s'. serverProcessClientEventPacket (\<lambda>_. []) sample_header
       (wire_event (zero_event\<lparr>e_sound := Some ''ab'', e_sound_len := 2\<rparr>) @ []) server_static =
       Inr (server_static\<lparr>sv_queue := q\<rparr>) \<and>
     engine_turn False True (still_daemon\<lparr>en_q := q\<rparr>) = Inr (Some s') \<and>
     (\<exists>w' a'. mix_turns 2 sample_card (en_w s', sample_driver) = Inr (w', a') \<and>
        alsa_stream a' = alsa_stream sample_driver @
          chunk_bytes [scaled_sample [5, 6] (1 / 2) 0 0, scaled_sample [5, 6] (1 / 2) 0 1, 0, 0])"
proof -
  let ?ev = "zero_event\<lparr>e_sound := Some ''ab'', e_sound_len := 2\<rparr>"
  have parts: "stable (en_w still_daemon) = stable bell_world" "chunk_size (en_w still_daemon) = 2"
    "en_q still_daemon = en_q bell_daemon"
    by (simp_all add: still_daemon_def bell_world_def idle_world_def)
  have ev: "event_wf ?ev" "e_type ?ev = event_type_code EVENT_T" "e_sound ?ev = Some ''ab''"
    by (simp_all add: event_wf_def zero_event_def event_type_code_def)
  have q: "sv_queue server_static = en_q still_daemon" "eq_rel (en_q still_daemon) []"
    using eq_rel_init by (simp_all add: parts server_static_def bell_daemon_def)
  have lk: "engineSoundTableRetrieve ''ab'' (stable (en_w still_daemon)) = Inr (Some bell_entry)"
    using bell_lookup(1) parts(1) by (simp add: bell_engine_def)
  have h: "h_content sample_header = PROT_CONTENT_EVENT" by (simp add: sample_header_def prot_codes)
  have len: "length ([] :: EVENT list) < SEM_VALUE_MAX" by (simp add: SEM_VALUE_MAX_def)
  have size: "chunk_size (en_w still_daemon) < 2 ^ 30" by (simp add: parts)
  have acc: "accepting sample_card" by (simp add: accepting_def sample_card_def)
  have loc: "real (unat (e_loc ?ev)) / 255 = 0" by (simp add: zero_event_def)
  let ?e = "\<lparr>snds = [Some [5, 6]], lens = [2], snd_cnt = 1\<rparr> :: EVENT_ENTRY"
  have entry: "unat (snd_cnt ?e) = 1" "snds ?e = [Some [5, 6]]" "lens ?e = [2]" by simp_all
  obtain q' s' n d where r: "serverProcessClientEventPacket (\<lambda>_. []) sample_header (wire_event ?ev @ []) server_static =
      Inr (server_static\<lparr>sv_queue := q'\<rparr>)"
    "engine_turn False True (still_daemon\<lparr>en_q := q'\<rparr>) = Inr (Some s')" "n < 1" "[Some [5, 6]] ! n = Some d"
    "\<forall>t. \<exists>w' a'. mix_turns t sample_card (en_w s', sample_driver) = Inr (w', a') \<and>
       alsa_stream a' = alsa_stream sample_driver @ chunk_bytes (take (t * 2)
         (map (scaled_sample d (1 / 2) 0) [0..<unat ([2 :: 32 word] ! n)] @ replicate (t * 2) 0))"
    using packet_heard [OF still_daemon_inv q len h ev lk bell_lookup(3) size sample_driver_ready acc, of "\<lambda>_. []" "[]" True,
      unfolded loc parts(2) entry] by blast
  have upto: "[0..<2] = [0, 1 :: nat]" "replicate 4 (0 :: 16 word) = [0, 0, 0, 0]"
    by (simp_all add: upt_rec numeral_eq_Suc)
  have "n = 0" "d = [5, 6]" using r(3,4) by simp_all
  then have "take (2 * 2) (map (scaled_sample d (1 / 2) 0) [0..<unat ([2 :: 32 word] ! n)] @ replicate (2 * 2) 0) =
      [scaled_sample [5, 6] (1 / 2) 0 0, scaled_sample [5, 6] (1 / 2) 0 1, 0, 0]"
    by (simp add: upto)
  then show ?thesis using r(1,2) r(5) [rule_format, of 2] by auto
qed

text \<open>The same daemon with a sound of four samples playing on its first channel.\<close>

lemma busy_daemon:
  "\<exists>s. daemon_inv s \<and> ensemble (en_w s) \<and> en_q s = en_q still_daemon \<and> stable (en_w s) = stable bell_world \<and>
     chunk_size (en_w s) = 2 \<and> length (evs (en_w s)) = 2 \<and> eb_snd_buf (evs (en_w s) ! 1) = None \<and>
     length (channel_rest 0 (en_w s)) = 4"
proof -
  let ?w = "en_w still_daemon"
  have parts: "evs ?w = [zero_event_buf, zero_event_buf]" "stable ?w = stable bell_world" "chunk_size ?w = 2"
    by (simp_all add: still_daemon_def bell_world_def part_defs) (simp_all add: idle_world_def)
  note e = quiet_ensemble [OF still_daemon_inv]
  have ok: "mixer_ok ?w" using still_daemon_inv(1) by (simp add: daemon_inv_def)
  have pre: "sample_ok [1, 2, 3, 4] (4 :: 32 word)" "evs ?w ! 0 = zero_event_buf" "eb_snd_buf zero_event_buf = None"
    "eb_pos zero_event_buf = 0" "0 < length (evs ?w)"
    by (simp_all add: sample_ok_def parts zero_event_buf_def)
  obtain w where w: "mixer_ok w" "ensemble w" "only_chan 0 ?w w"
    "evs w ! 0 = added (Some [1, 2, 3, 4]) 4 1 0 zero_event_buf"
    using ensemble_start [OF ok e(1) pre(5), of "[1, 2, 3, 4]" 4 1] pre by auto
  let ?s = "still_daemon\<lparr>en_w := w\<rparr>"
  have same: "length (evs w) = 2" "stable w = stable bell_world" "chunk_size w = 2" "sbs w = sbs ?w"
    "lin_fade w = lin_fade ?w" "eb_snd_buf (evs w ! 1) = None"
    using w(3) parts pre by (simp_all add: only_chan_def sbs_def)
  have "daemon_inv ?s"
    using still_daemon_inv(1) w(1) same by (simp add: daemon_inv_def engine_ok_def mixer_ok_def play_ok_def parts)
  then show ?thesis
    using w(2) same started_rest [OF w(4) pre(4)] by (intro exI [of _ ?s]) simp
qed

theorem packet_superposed_witness:
  "\<exists>s q s' w' a'. length (channel_rest 0 (en_w s)) = 4 \<and>
     serverProcessClientEventPacket (\<lambda>_. []) sample_header
       (wire_event (zero_event\<lparr>e_sound := Some ''ab'', e_sound_len := 2\<rparr>) @ []) server_static =
       Inr (server_static\<lparr>sv_queue := q\<rparr>) \<and>
     engine_turn False True (s\<lparr>en_q := q\<rparr>) = Inr (Some s') \<and>
     mix_turns 2 sample_card (en_w s', sample_driver) = Inr (w', a') \<and>
     alsa_stream a' = alsa_stream sample_driver @ chunk_bytes
       (map (\<lambda>p. mixed (en_w s) p +
          or_silence (map (scaled_sample [5, 6] (next_share (en_w s)) 0) [0..<2]) p) [0..<4])"
proof -
  let ?ev = "zero_event\<lparr>e_sound := Some ''ab'', e_sound_len := 2\<rparr>"
  obtain s where s: "daemon_inv s" "ensemble (en_w s)" "en_q s = en_q still_daemon"
    "stable (en_w s) = stable bell_world" "chunk_size (en_w s) = 2" "length (evs (en_w s)) = 2"
    "eb_snd_buf (evs (en_w s) ! 1) = None" "length (channel_rest 0 (en_w s)) = 4"
    using busy_daemon by blast
  have ev: "event_wf ?ev" "e_type ?ev = event_type_code EVENT_T" "e_sound ?ev = Some ''ab''"
    by (simp_all add: event_wf_def zero_event_def event_type_code_def)
  have q: "sv_queue server_static = en_q s" "eq_rel (en_q s) []"
    using eq_rel_init s(3) by (simp_all add: still_daemon_def server_static_def bell_daemon_def)
  have lk: "engineSoundTableRetrieve ''ab'' (stable (en_w s)) = Inr (Some bell_entry)"
    using bell_lookup(1) s(4) by (simp add: bell_engine_def)
  have h: "h_content sample_header = PROT_CONTENT_EVENT" by (simp add: sample_header_def prot_codes)
  have len: "length ([] :: EVENT list) < SEM_VALUE_MAX" by (simp add: SEM_VALUE_MAX_def)
  have size: "chunk_size (en_w s) < 2 ^ 30" by (simp add: s(5))
  have acc: "accepting sample_card" by (simp add: accepting_def sample_card_def)
  have free: "1 < length (evs (en_w s))" using s(6) by simp
  have loc: "real (unat (e_loc ?ev)) / 255 = 0" by (simp add: zero_event_def)
  let ?e = "\<lparr>snds = [Some [5, 6]], lens = [2], snd_cnt = 1\<rparr> :: EVENT_ENTRY"
  have entry: "unat (snd_cnt ?e) = 1" "snds ?e = [Some [5, 6]]" "lens ?e = [2]" by simp_all
  obtain q' s' n d where r: "serverProcessClientEventPacket (\<lambda>_. []) sample_header (wire_event ?ev @ []) server_static =
      Inr (server_static\<lparr>sv_queue := q'\<rparr>)"
    "engine_turn False True (s\<lparr>en_q := q'\<rparr>) = Inr (Some s')" "n < 1" "[Some [5, 6]] ! n = Some d"
    "\<forall>t. \<exists>w' a'. mix_turns t sample_card (en_w s', sample_driver) = Inr (w', a') \<and>
       alsa_stream a' = alsa_stream sample_driver @ chunk_bytes (map (\<lambda>p. mixed (en_w s) p +
         or_silence (map (scaled_sample d (next_share (en_w s)) 0) [0..<unat ([2 :: 32 word] ! n)]) p) [0..<t * 2])"
    using packet_superposed [OF s(1,2) free s(7) q len h ev lk bell_lookup(3) size sample_driver_ready acc,
        of "\<lambda>_. []" "[]" True, unfolded loc s(5) entry Let_def]
    by (elim exE conjE) (rule that, assumption+)
  have n: "n = 0" "d = [5, 6]" using r(3,4) by simp_all
  have "[2 :: 32 word] ! 0 = 2" "unat (2 :: 32 word) = 2" "2 * 2 = (4 :: nat)" by simp_all
  then show ?thesis
    using s(8) r(1,2) r(5) [rule_format, of 2] unfolding n by (elim exE conjE) (intro exI conjI; simp)
qed

end
