(* ===== verification/Udp_Lease.thy ===== *)
theory Udp_Lease
  imports Server_Events
begin

text \<open>
  udp_server.c: the UDP server with its list of leases.  The list is a singly linked list of heap
  cells.  Packets arrive one by one in the buffer; the message structure is a local variable of
  the receiving loop that lives across its turns, so what its body pointer refers to is part of
  the state.
\<close>

section \<open>Data (udp_server.h)\<close>

definition PROT_SERVER_STILL_ALIVE :: "8 word" where "PROT_SERVER_STILL_ALIVE = 8"
definition PROT_CLIENT_STILL_ALIVE :: "8 word" where "PROT_CLIENT_STILL_ALIVE = 16"
definition PROT_CONTENT_LEASE :: "8 word" where "PROT_CONTENT_LEASE = 16"
abbreviation (input) PROT_SERVER_LEASE_MIN :: "8 word" where "PROT_SERVER_LEASE_MIN \<equiv> 5"
abbreviation (input) PROT_SERVER_LEASE_SEC :: "8 word" where "PROT_SERVER_LEASE_SEC \<equiv> 0"
abbreviation (input) PROT_SERVER_WAKEUP_MIN :: int where "PROT_SERVER_WAKEUP_MIN \<equiv> 4"
abbreviation (input) PROT_SERVER_WAKEUP_SEC :: int where "PROT_SERVER_WAKEUP_SEC \<equiv> 30"
abbreviation (input) PROT_WAKEUPS_BEFORE_EXPIRED :: int where "PROT_WAKEUPS_BEFORE_EXPIRED \<equiv> 2"

record leaselist =
  ll_host :: "32 word"
  ll_port :: "32 word"
  ll_expired :: timeval
  ll_nextent :: "nat option"

text \<open>What \<open>msg.body\<close> refers to.\<close>

datatype body_ptr = BodyUninit | BodyNull | BodyFreed | BodyLive | BodyInside

fun free_body :: "body_ptr \<Rightarrow> body_ptr result" where
  "free_body BodyUninit = Inl UninitRead"
| "free_body BodyNull = Inr BodyNull"
| "free_body BodyFreed = Inl UseAfterFree"
| "free_body BodyLive = Inr BodyFreed"
| "free_body BodyInside = Inl BadFree"

record udp =
  us_server :: server
  us_mem :: "leaselist heap"
  us_brk :: nat
  hlhead :: "nat option"
  us_body :: body_ptr
  us_clock :: "nat \<Rightarrow> timeval"
  us_alarm :: "int option"

definition us_gettimeofday :: "udp \<Rightarrow> timeval \<times> udp" where
  "us_gettimeofday s = (us_clock s 0, s\<lparr>us_clock := \<lambda>n. us_clock s (Suc n)\<rparr>)"

definition wakeup_secs :: int where
  "wakeup_secs = PROT_SERVER_WAKEUP_MIN * 60 + PROT_SERVER_WAKEUP_SEC"

text \<open>The expiry time of a lease taken at \<open>now\<close>.\<close>

definition expiry :: "timeval \<Rightarrow> timeval" where
  "expiry now = \<lparr>tv_sec = tv_sec now + wakeup_secs * PROT_WAKEUPS_BEFORE_EXPIRED, tv_usec = 0\<rparr>"

section \<open>The lease list\<close>

partial_function (option) find_lease ::
  "leaselist heap \<Rightarrow> nat option \<Rightarrow> 32 word \<Rightarrow> 32 word \<Rightarrow> nat option result option" where
  "find_lease m p host port =
     (case p of None \<Rightarrow> Some (Inr None)
      | Some a \<Rightarrow>
          (case m a of None \<Rightarrow> Some (Inl UseAfterFree)
           | Some c \<Rightarrow> if ll_host c = host \<and> ll_port c = port then Some (Inr (Some a))
                       else find_lease m (ll_nextent c) host port))"

definition serverFindLeaseEntry :: "32 word \<Rightarrow> 32 word \<Rightarrow> udp \<Rightarrow> nat option result" where
  "serverFindLeaseEntry host port s = loopE (find_lease (us_mem s) (hlhead s) host port)"

partial_function (option) last_lease :: "leaselist heap \<Rightarrow> nat \<Rightarrow> nat result option" where
  "last_lease m p =
     (case m p of None \<Rightarrow> Some (Inl UseAfterFree)
      | Some c \<Rightarrow> (case ll_nextent c of None \<Rightarrow> Some (Inr p) | Some a \<Rightarrow> last_lease m a))"

definition new_lease :: "32 word \<Rightarrow> 32 word \<Rightarrow> leaselist" where
  "new_lease host port = \<lparr>ll_host = host, ll_port = port,
     ll_expired = \<lparr>tv_sec = 0, tv_usec = 0\<rparr>, ll_nextent = None\<rparr>"

definition serverAddLeaseEntry :: "bool \<Rightarrow> 32 word \<Rightarrow> 32 word \<Rightarrow> udp \<Rightarrow> (nat option \<times> udp) result" where
  "serverAddLeaseEntry alloc_ok host port s =
     (let new = us_brk s in
      case hlhead s of
        None \<Rightarrow>
          if alloc_ok
          then Inr (Some new, s\<lparr>us_mem := (us_mem s)(new \<mapsto> new_lease host port), us_brk := Suc new,
                                hlhead := Some new\<rparr>)
          else Inl NullDeref
      | Some h \<Rightarrow>
          bindE (loopE (last_lease (us_mem s) h)) (\<lambda>p.
          bindE (deref (us_mem s) (Some p)) (\<lambda>c.
          if alloc_ok
          then Inr (Some new, s\<lparr>us_mem := (us_mem s)(p \<mapsto> c\<lparr>ll_nextent := Some new\<rparr>,
                                                      new \<mapsto> new_lease host port),
                                us_brk := Suc new\<rparr>)
          else Inr (None, s\<lparr>us_mem := (us_mem s)(p \<mapsto> c\<lparr>ll_nextent := None\<rparr>)\<rparr>))))"

text \<open>The two bytes of lease time behind a header whose length is not converted to network order.\<close>

definition alive_packet :: "8 word list" where
  "alive_packet = header_bytes \<lparr>h_version = PROT_VERSION, h_type = PROT_SERVER_STILL_ALIVE,
     h_content = PROT_CONTENT_LEASE, h_reserved = [0, 0, 0, 0, 0],
     h_magic = htonl PROT_MAGIC_NUMBER, h_len = 2\<rparr> @ [PROT_SERVER_LEASE_MIN, PROT_SERVER_LEASE_SEC]"

definition client_addr :: "32 word \<Rightarrow> 32 word \<Rightarrow> sockaddr" where
  "client_addr host port = \<lparr>sin_addr = host, sin_port = ucast port\<rparr>"

definition serverNotifyClientLease :: "bool \<Rightarrow> bool \<Rightarrow> 32 word \<Rightarrow> 32 word \<Rightarrow> udp \<Rightarrow> int \<times> udp" where
  "serverNotifyClientLease alloc_ok send_ok host port s =
     (if alloc_ok \<and> send_ok
      then (SERVER_SUCCESS, s\<lparr>us_server := sendto True (Some alive_packet) (client_addr host port) (us_server s)\<rparr>)
      else (SERVER_FAILURE, s))"

text \<open>\<open>net\<close> bundles the outcomes of allocation and sending and the uninitialised reserved bytes.\<close>

record net =
  lease_alloc :: bool
  buf_alloc :: bool
  resp_sent :: bool
  lease_sent :: bool
  stack_bytes :: "8 word list"

definition serverAddClient :: "net \<Rightarrow> 32 word \<Rightarrow> 32 word \<Rightarrow> udp \<Rightarrow> (int \<times> udp) result" where
  "serverAddClient n host port s =
     bindE (serverFindLeaseEntry host port s) (\<lambda>f.
     bindE (case f of None \<Rightarrow> serverAddLeaseEntry (lease_alloc n) host port s | Some a \<Rightarrow> Inr (Some a, s))
       (\<lambda>(lease, s1).
     let (now, s2) = us_gettimeofday s1 in
     bindE (deref (us_mem s2) lease) (\<lambda>c.
     let s3 = s2\<lparr>us_mem := (us_mem s2)(the lease \<mapsto> c\<lparr>ll_expired := expiry now\<rparr>)\<rparr> in
     bindE (serverRespondToClient (resp_sent n) (stack_bytes n)
              (client_addr (ll_host c) (ll_port c)) (us_server s3)) (\<lambda>sv.
     Inr (SERVER_SUCCESS,
          snd (serverNotifyClientLease (buf_alloc n) (lease_sent n) (ll_host c) (ll_port c)
                 (s3\<lparr>us_server := sv\<rparr>)))))))"

text \<open>Only the host is compared here, and the loop stops at the first match.\<close>

partial_function (option) find_host :: "leaselist heap \<Rightarrow> nat option \<Rightarrow> 32 word \<Rightarrow> nat option result option" where
  "find_host m p host =
     (case p of None \<Rightarrow> Some (Inr None)
      | Some a \<Rightarrow>
          (case m a of None \<Rightarrow> Some (Inl UseAfterFree)
           | Some c \<Rightarrow> if ll_host c = host then Some (Inr (Some a)) else find_host m (ll_nextent c) host))"

definition serverUpdateClient :: "sockaddr option \<Rightarrow> udp \<Rightarrow> (int \<times> udp) result" where
  "serverUpdateClient from_addr s =
     (case from_addr of None \<Rightarrow> Inr (SERVER_FAILURE, s)
      | Some adr \<Rightarrow>
          bindE (loopE (find_host (us_mem s) (hlhead s) (sin_addr adr))) (\<lambda>p.
          case p of None \<Rightarrow> Inr (SERVER_SUCCESS, s)
          | Some a \<Rightarrow>
              let (now, s1) = us_gettimeofday s in
              bindE (deref (us_mem s1) (Some a)) (\<lambda>c.
              Inr (SERVER_SUCCESS, s1\<lparr>us_mem := (us_mem s1)(a \<mapsto> c\<lparr>ll_expired := expiry now\<rparr>)\<rparr>))))"

definition serverProcessClientAlive :: "sockaddr \<Rightarrow> udp \<Rightarrow> udp result" where
  "serverProcessClientAlive from_addr s =
     bindE (serverUpdateClient (Some from_addr) s) (\<lambda>(r, s1). Inr s1)"

text \<open>
  The purge.  Behind the head, an expired entry is unlinked and freed, and then its \<open>nextent\<close> is
  read.
\<close>

partial_function (option) purge_loop ::
  "int \<Rightarrow> nat option \<Rightarrow> nat option \<Rightarrow> leaselist heap \<Rightarrow> nat option \<Rightarrow> (leaselist heap \<times> nat option) result option" where
  "purge_loop current p q m head =
     (case p of None \<Rightarrow> Some (Inr (m, head))
      | Some a \<Rightarrow>
          (case m a of None \<Rightarrow> Some (Inl UseAfterFree)
           | Some c \<Rightarrow>
               if tv_sec (ll_expired c) \<le> current
               then (if p = head then purge_loop current (ll_nextent c) q (m(a := None)) (ll_nextent c)
                     else (case q of None \<Rightarrow> Some (Inl NullDeref)
                           | Some b \<Rightarrow>
                               (case m b of None \<Rightarrow> Some (Inl UseAfterFree)
                                | Some d \<Rightarrow>
                                    let m1 = m(b \<mapsto> d\<lparr>ll_nextent := ll_nextent c\<rparr>, a := None) in
                                    (case m1 a of None \<Rightarrow> Some (Inl UseAfterFree)
                                     | Some c1 \<Rightarrow> purge_loop current (ll_nextent c1) p m1 head))))
               else purge_loop current (ll_nextent c) p m head))"

definition serverPurgeHostList :: "udp \<Rightarrow> udp result" where
  "serverPurgeHostList s =
     (let (current, s1) = us_gettimeofday s in
      bindE (loopE (purge_loop (tv_sec current) (hlhead s1) None (us_mem s1) (hlhead s1))) (\<lambda>(m, h).
      Inr (s1\<lparr>us_mem := m, hlhead := h\<rparr>)))"

partial_function (option) alive_loop :: "bool \<Rightarrow> leaselist heap \<Rightarrow> nat option \<Rightarrow> server \<Rightarrow> server result option" where
  "alive_loop send_ok m p sv =
     (case p of None \<Rightarrow> Some (Inr sv)
      | Some a \<Rightarrow>
          (case m a of None \<Rightarrow> Some (Inl UseAfterFree)
           | Some c \<Rightarrow> alive_loop send_ok m (ll_nextent c)
                         (sendto send_ok (Some alive_packet) (client_addr (ll_host c) (ll_port c)) sv)))"

definition serverSendStillAlive :: "net \<Rightarrow> udp \<Rightarrow> udp result" where
  "serverSendStillAlive n s =
     (if buf_alloc n
      then bindE (loopE (alive_loop (lease_sent n) (us_mem s) (hlhead s) (us_server s))) (\<lambda>sv.
           Inr (s\<lparr>us_server := sv\<rparr>))
      else Inr s)"

definition serverHandleAlarm :: "net \<Rightarrow> udp \<Rightarrow> udp result" where
  "serverHandleAlarm n s =
     bindE (serverPurgeHostList s) (\<lambda>s1.
     bindE (serverSendStillAlive n s1) (\<lambda>s2. Inr (s2\<lparr>us_alarm := Some wakeup_secs\<rparr>)))"


section \<open>Packets\<close>

text \<open>The scan of a client broadcast, as in server.c but with the client added to the list.\<close>

fun lease_bc_loop :: "net \<Rightarrow> char list \<Rightarrow> sockaddr \<Rightarrow> udp \<Rightarrow> udp result" where
  "lease_bc_loop n [] from_addr s = Inl OutOfBounds"
| "lease_bc_loop n (c # q) from_addr s =
     (if c = NUL \<or> isspace c then Inr s
      else if c = CHR ''!''
      then (if serverContainsIDClass [] (us_server s) \<noteq> 0
            then bindE (serverAddClient n (sin_addr from_addr) (ucast (sin_port from_addr)) s) (\<lambda>(r, s1). Inr s1)
            else lease_bc_loop n q from_addr s)
      else lease_bc_loop n q from_addr s)"

definition serverProcessBC :: "net \<Rightarrow> char list \<Rightarrow> 32 word \<Rightarrow> sockaddr \<Rightarrow> udp \<Rightarrow> udp result" where
  "serverProcessBC n str id_len from_addr s =
     bindE (aset str (sint id_len) NUL) (\<lambda>ids. lease_bc_loop n ids from_addr s)"

text \<open>
  \<open>malloc (len)\<close> and \<open>memcpy\<close> of \<open>len\<close> bytes: a negative length makes the allocation fail, and the
  copy goes to \<open>NULL\<close>.
\<close>

definition copy_body :: "32 word \<Rightarrow> 8 word list \<Rightarrow> 8 word list result" where
  "copy_body len mem =
     (if sint len < 0 then Inl NullDeref
      else if length mem < unat len then Inl OutOfBounds
      else Inr (take (unat len) mem))"

text \<open>
  One turn of the receiving loop on the contents \<open>buf\<close> of the 512-byte packet buffer.  A packet
  with a bad magic number goes straight to the \<open>free\<close> of the body pointer left by the turn before.
\<close>

definition handle_packet ::
  "(string \<Rightarrow> xml_callback list) \<Rightarrow> net \<Rightarrow> 8 word list \<Rightarrow> sockaddr \<Rightarrow> udp \<Rightarrow> udp result" where
  "handle_packet expat n buf from_addr s =
     bindE (received_header buf) (\<lambda>h.
     let dat = drop 16 buf; free_it = (\<lambda>st. bindE (free_body (us_body st)) (\<lambda>b. Inr (st\<lparr>us_body := b\<rparr>))) in
     if h_magic h \<noteq> PROT_MAGIC_NUMBER then free_it s
     else if h_type h = PROT_BC_SERVER
     then bindE (copy_string (h_len h) dat) (\<lambda>b. free_it (s\<lparr>us_body := BodyLive\<rparr>))
     else if h_type h = PROT_BC_CLIENT
     then bindE (copy_string (h_len h) dat) (\<lambda>b.
          bindE (serverProcessBC n b (h_len h) from_addr (s\<lparr>us_body := BodyLive\<rparr>)) free_it)
     else if h_type h = PROT_CLIENT_STILL_ALIVE
     then bindE (copy_body (h_len h) dat) (\<lambda>b.
          bindE (serverProcessClientAlive from_addr (s\<lparr>us_body := BodyLive\<rparr>)) free_it)
     else if h_type h = PROT_CLIENT_EVENT
     then bindE (serverProcessClientEventPacket expat h dat (us_server s)) (\<lambda>sv.
          Inr (s\<lparr>us_server := sv,
                 us_body := (if h_content h = PROT_CONTENT_XML then BodyInside
                             else if h_content h = PROT_CONTENT_EVENT then BodyNull else us_body s)\<rparr>))
     else bindE (copy_body (h_len h) dat) (\<lambda>b. free_it (s\<lparr>us_body := BodyLive\<rparr>)))"

text \<open>A turn of the loop: a refused connection, or a packet.\<close>

fun receive_turn ::
  "(string \<Rightarrow> xml_callback list) \<Rightarrow> net \<Rightarrow> (8 word list \<times> sockaddr) option \<Rightarrow> udp \<Rightarrow> udp result" where
  "receive_turn expat n None s = Inr s"
| "receive_turn expat n (Some (buf, from_addr)) s = handle_packet expat n buf from_addr s"

text \<open>The loop has no exit; its first turns, as many as there are packets.\<close>

definition serverRealStart ::
  "(string \<Rightarrow> xml_callback list) \<Rightarrow> (net \<times> (8 word list \<times> sockaddr) option) list \<Rightarrow> udp \<Rightarrow> udp result" where
  "serverRealStart expat turns s =
     foldE (\<lambda>(n, t). receive_turn expat n t) turns (s\<lparr>us_body := BodyUninit\<rparr>)"

text \<open>\<open>host_ok\<close>: the local host name and its address were found; \<open>fd\<close>, \<open>send_ok\<close> as for broadcasts.\<close>

definition serverRealInit :: "bool \<Rightarrow> int option \<Rightarrow> bool \<Rightarrow> udp \<Rightarrow> (int \<times> udp) result" where
  "serverRealInit host_ok fd send_ok s =
     (if \<not> host_ok then Inr (SERVER_FAILURE, s)
      else bindE (initializeBroadcast fd send_ok (us_server s)) (\<lambda>(r, sv).
           let s1 = s\<lparr>us_server := sv\<rparr> in
           if r < 0 then Inr (SERVER_FAILURE, s1)
           else Inr (SERVER_SUCCESS, s1\<lparr>us_alarm := Some wakeup_secs\<rparr>)))"

partial_function (option) free_leases :: "leaselist heap \<Rightarrow> nat option \<Rightarrow> leaselist heap result option" where
  "free_leases m p =
     (case p of None \<Rightarrow> Some (Inr m)
      | Some a \<Rightarrow> (case m a of None \<Rightarrow> Some (Inl UseAfterFree)
                   | Some c \<Rightarrow> free_leases (m(a := None)) (ll_nextent c)))"

text \<open>The cells are freed, \<open>hlhead\<close> is not reset.  The free of \<open>data_buffer\<close> is left out.\<close>

definition serverRealShutdown :: "udp \<Rightarrow> udp result" where
  "serverRealShutdown s =
     bindE (loopE (free_leases (us_mem s) (hlhead s))) (\<lambda>m. Inr (s\<lparr>us_mem := m\<rparr>))"

end
