(* ===== verification/Servlet.thy ===== *)
theory Servlet
  imports Udp_Lease
begin

text \<open>
  tcp_server.c and ssl_server.c: setting up the socket, the accept loop and the servlet that reads
  packets from one connection.  A connection is the sequence of segments its reads deliver; one read
  returns at most the rest of one segment.  The servlets of different connections run in threads of
  their own; the model runs one servlet on the server's state, and interleavings are not covered.
  Allocations of non-negative sizes succeed; a negative length, converted to \<open>size_t\<close>, gives \<open>NULL\<close>,
  and the read into it fails.
\<close>

section \<open>Reading from a connection\<close>

datatype segment = Data "8 word list" | ReadError

text \<open>The bytes read, or \<open>None\<close> for an error; after the last segment the peer has closed.\<close>

fun sock_read :: "nat \<Rightarrow> segment list \<Rightarrow> 8 word list option \<times> segment list" where
  "sock_read n [] = (Some [], [])"
| "sock_read n (ReadError # c) = (None, c)"
| "sock_read n (Data bs # c) =
     (if n = 0 then (Some [], Data bs # c)
      else (Some (take n bs), if length bs \<le> n then c else Data (drop n bs) # c))"

definition read_body :: "32 word \<Rightarrow> segment list \<Rightarrow> 8 word list option \<times> segment list" where
  "read_body len c = (if sint len < 0 then (None, c) else sock_read (nat (sint len)) c)"

text \<open>\<open>size_recv == msg.header.len\<close>\<close>

definition body_complete :: "8 word list option \<Rightarrow> 32 word \<Rightarrow> bool" where
  "body_complete got len = (case got of None \<Rightarrow> sint len = - 1 | Some bs \<Rightarrow> int (length bs) = sint len)"

text \<open>The header in memory: what has been read over what was there, with two fields swapped.\<close>

definition header_memory :: "8 word list \<Rightarrow> 8 word list \<Rightarrow> HEADER result" where
  "header_memory mem got = received_header (got @ drop (length got) mem)"

fun conn_size :: "segment list \<Rightarrow> nat" where
  "conn_size [] = 0"
| "conn_size (ReadError # c) = Suc (conn_size c)"
| "conn_size (Data bs # c) = Suc (length bs + conn_size c)"

lemma sock_read_size: "sock_read n c = (r, c1) \<Longrightarrow> conn_size c1 \<le> conn_size c"
  by (induction n c rule: sock_read.induct) (auto split: if_splits)

lemma sock_read_smaller: "sock_read n c = (Some (b # bs), c1) \<Longrightarrow> conn_size c1 < conn_size c"
  by (induction n c rule: sock_read.induct) (auto split: if_splits)

lemma read_body_size: "read_body len c = (r, c1) \<Longrightarrow> conn_size c1 \<le> conn_size c"
  by (auto simp: read_body_def dest: sock_read_size split: if_splits)

section \<open>The TCP servlet\<close>

text \<open>
  A body is allocated with exactly the length the header gives.  The bodies are freed at the end of a
  turn, except the buffer of an event that was cut short.
\<close>

definition tcp_body ::
  "(string \<Rightarrow> xml_callback list) \<Rightarrow> bool \<Rightarrow> 8 word list \<Rightarrow> sockaddr \<Rightarrow> HEADER \<Rightarrow> 8 word list option
   \<Rightarrow> server \<Rightarrow> server result" where
  "tcp_body expat send_ok resv client h got s =
     (if \<not> body_complete got (h_len h) then Inr s
      else if h_type h = PROT_BC_CLIENT
      then (case got of None \<Rightarrow> Inl NullDeref
            | Some bs \<Rightarrow> serverProcessClientBC send_ok resv (map byte_char bs) (h_len h) client s)
      else if h_type h = PROT_CLIENT_EVENT
      then (case got of
              None \<Rightarrow> if h_content h \<in> {PROT_CONTENT_XML, PROT_CONTENT_EVENT} then Inl NullDeref else Inr s
            | Some bs \<Rightarrow> serverProcessClientEventPacket expat h bs s)
      else Inr s)"

function serverServlet ::
  "(string \<Rightarrow> xml_callback list) \<Rightarrow> bool \<Rightarrow> 8 word list \<Rightarrow> sockaddr \<Rightarrow> 8 word list \<Rightarrow> segment list
   \<Rightarrow> server \<Rightarrow> server result" where
  "serverServlet expat send_ok resv client mem c s =
     (case sock_read 16 c of
        (None, c1) \<Rightarrow> Inr s
      | (Some [], c1) \<Rightarrow> Inr s
      | (Some (b # bs), c1) \<Rightarrow>
          bindE (header_memory mem (b # bs)) (\<lambda>h.
          if h_magic h \<noteq> PROT_MAGIC_NUMBER
          then serverServlet expat send_ok resv client (header_bytes h) c1 s
          else case read_body (h_len h) c1 of (got, c2) \<Rightarrow>
            bindE (tcp_body expat send_ok resv client h got s) (\<lambda>s1.
            serverServlet expat send_ok resv client (header_bytes h) c2 s1)))"
  by pat_completeness auto
termination
  by (relation "measure (\<lambda>(expat, send_ok, resv, client, mem, c, s). conn_size c)")
     (auto dest!: sock_read_smaller [OF sym] read_body_size [OF sym])

section \<open>The SSL servlet\<close>

text \<open>
  As before, but the body of a client event is read to where \<open>msg.body\<close> points: nowhere yet, or to a
  block freed in an earlier turn.
\<close>

definition ssl_body ::
  "bool \<Rightarrow> 8 word list \<Rightarrow> sockaddr \<Rightarrow> HEADER \<Rightarrow> 8 word list option \<Rightarrow> server \<Rightarrow> server result" where
  "ssl_body send_ok resv client h got s =
     (if h_type h = PROT_BC_CLIENT \<and> body_complete got (h_len h)
      then (case got of None \<Rightarrow> Inl NullDeref
            | Some bs \<Rightarrow> serverProcessClientBC send_ok resv (map byte_char bs) (h_len h) client s)
      else Inr s)"

function serverServlet_ssl ::
  "bool \<Rightarrow> 8 word list \<Rightarrow> sockaddr \<Rightarrow> 8 word list \<Rightarrow> body_ptr \<Rightarrow> segment list \<Rightarrow> server \<Rightarrow> server result" where
  "serverServlet_ssl send_ok resv client mem body c s =
     (case sock_read 16 c of
        (None, c1) \<Rightarrow> Inr s
      | (Some [], c1) \<Rightarrow> Inr s
      | (Some (b # bs), c1) \<Rightarrow>
          bindE (header_memory mem (b # bs)) (\<lambda>h.
          if h_magic h \<noteq> PROT_MAGIC_NUMBER
          then serverServlet_ssl send_ok resv client (header_bytes h) body c1 s
          else if h_type h = PROT_CLIENT_EVENT
          then Inl (if body = BodyUninit then UninitRead else UseAfterFree)
          else case read_body (h_len h) c1 of (got, c2) \<Rightarrow>
            bindE (ssl_body send_ok resv client h got s) (\<lambda>s1.
            serverServlet_ssl send_ok resv client (header_bytes h) BodyFreed c2 s1)))"
  by pat_completeness auto
termination
  by (relation "measure (\<lambda>(send_ok, resv, client, mem, body, c, s). conn_size c)")
     (auto dest!: sock_read_smaller [OF sym] read_body_size [OF sym])


declare serverServlet.simps [simp del] serverServlet_ssl.simps [simp del]

section \<open>Starting up and accepting\<close>

text \<open>The system calls are represented by whether they succeed.\<close>

definition serverInitSocket :: "bool \<Rightarrow> bool \<Rightarrow> bool \<Rightarrow> bool \<Rightarrow> bool \<Rightarrow> int" where
  "serverInitSocket socket_ok setsockopt_ok fcntl_ok bind_ok listen_ok =
     (if \<not> socket_ok then 0 else if \<not> setsockopt_ok then 0 else if \<not> fcntl_ok then 0
      else if \<not> bind_ok then 0 else if \<not> listen_ok then 0 else 1)"

definition serverRealInit_tcp ::
  "bool \<Rightarrow> bool \<Rightarrow> int \<Rightarrow> int option \<Rightarrow> bool \<Rightarrow> server \<Rightarrow> (int \<times> server) result" where
  "serverRealInit_tcp hostname_ok host_ok init_socket fd send_ok s =
     (if \<not> hostname_ok then Inr (SERVER_FAILURE, s)
      else if \<not> host_ok then Inr (SERVER_FAILURE, s)
      else if init_socket = 0 then Inr (SERVER_FAILURE, s)
      else bindE (initializeBroadcast fd send_ok s) (\<lambda>(n, s1).
           Inr (if n < 0 then SERVER_FAILURE else SERVER_SUCCESS, s1)))"

definition serverRealInit_ssl ::
  "bool \<Rightarrow> bool \<Rightarrow> int \<Rightarrow> int \<Rightarrow> int option \<Rightarrow> bool \<Rightarrow> server \<Rightarrow> (int \<times> server) result" where
  "serverRealInit_ssl hostname_ok host_ok ssl_init init_socket fd send_ok s =
     (if \<not> hostname_ok then Inr (SERVER_FAILURE, s)
      else if \<not> host_ok then Inr (SERVER_FAILURE, s)
      else if ssl_init = 0 then Inr (SERVER_FAILURE, s)
      else if init_socket = 0 then Inr (SERVER_FAILURE, s)
      else bindE (initializeBroadcast fd send_ok s) (\<lambda>(n, s1).
           Inr (if n < 0 then SERVER_FAILURE else SERVER_SUCCESS, s1)))"

definition serverInitSocket_ssl :: "bool \<Rightarrow> bool \<Rightarrow> bool \<Rightarrow> bool \<Rightarrow> bool \<Rightarrow> int" where
  "serverInitSocket_ssl socket_ok setsockopt_ok fcntl_ok bind_ok listen_ok =
     (if \<not> socket_ok then 0 else if \<not> setsockopt_ok then 0 else if \<not> fcntl_ok then 0
      else if \<not> bind_ok then 0 else if \<not> listen_ok then 0 else 1)"

text \<open>
  OpenSSL's calls are parameters: making a context, loading a certificate and a private key into a
  context, and checking that they match.  Nothing calls \<open>serverLoadCerts\<close>; the server starts without
  a certificate.
\<close>

definition serverInitCTX :: "('meth \<Rightarrow> 'ctx option) \<Rightarrow> 'meth \<Rightarrow> 'ctx option" where
  "serverInitCTX ctx_new meth = (case ctx_new meth of None \<Rightarrow> None | Some ctx \<Rightarrow> Some ctx)"

definition serverLoadCerts ::
  "('ctx \<Rightarrow> string \<Rightarrow> int \<times> 'ctx) \<Rightarrow> ('ctx \<Rightarrow> string \<Rightarrow> int \<times> 'ctx) \<Rightarrow> ('ctx \<Rightarrow> int) \<Rightarrow> 'ctx \<Rightarrow> string \<Rightarrow> string
   \<Rightarrow> int \<times> 'ctx" where
  "serverLoadCerts use_certificate use_key check ctx certf keyf =
     (let (n1, ctx1) = use_certificate ctx certf in
      if n1 \<le> 0 then (0, ctx1)
      else let (n2, ctx2) = use_key ctx1 keyf in
        if n2 \<le> 0 then (0, ctx2)
        else if check ctx2 = 0 then (0, ctx2) else (1, ctx2))"

text \<open>The global \<open>ctx\<close> is the second component.\<close>

definition sslServerInit :: "('meth \<Rightarrow> 'ctx option) \<Rightarrow> 'meth \<Rightarrow> int \<times> 'ctx option" where
  "sslServerInit ctx_new meth =
     (case serverInitCTX ctx_new meth of None \<Rightarrow> (0, None) | Some ctx \<Rightarrow> (1, Some ctx))"

text \<open>
  One turn of the accept loop: a datagram on the broadcast socket and a connection, if the sockets are
  ready; a connection is what \<open>accept\<close> returns, \<open>None\<close> for an error.  The TCP server hands the
  descriptor \<open>-1\<close> of a failed \<open>accept\<close> to the servlet, whose \<open>FD_SET\<close> then writes in front of
  the set.
\<close>

record datagram =
  dg_refused :: bool
  dg_stack :: "8 word list"
  dg_from :: sockaddr

definition broadcast_ready :: "bool \<Rightarrow> bool \<Rightarrow> 8 word list \<Rightarrow> datagram option \<Rightarrow> server \<Rightarrow> server result" where
  "broadcast_ready dbg send_ok resv dg s =
     (case dg of None \<Rightarrow> Inr s
      | Some d \<Rightarrow> receiveUDPPacket dbg (dg_refused d) send_ok resv (dg_stack d) (dg_from d) s)"

definition serverRealStart_tcp ::
  "(string \<Rightarrow> xml_callback list) \<Rightarrow> bool \<Rightarrow> bool \<Rightarrow> 8 word list \<Rightarrow> 8 word list \<Rightarrow> datagram option
   \<Rightarrow> (segment list \<times> sockaddr) option option \<Rightarrow> server \<Rightarrow> server result" where
  "serverRealStart_tcp expat dbg send_ok resv mem dg acc s =
     bindE (broadcast_ready dbg send_ok resv dg s) (\<lambda>s1.
     case acc of None \<Rightarrow> Inr s1
     | Some None \<Rightarrow> Inl OutOfBounds
     | Some (Some (c, client)) \<Rightarrow> serverServlet expat send_ok resv client mem c s1)"

definition serverRealStart_ssl ::
  "bool \<Rightarrow> bool \<Rightarrow> 8 word list \<Rightarrow> 8 word list \<Rightarrow> datagram option
   \<Rightarrow> ((segment list \<times> sockaddr) \<times> bool) option option \<Rightarrow> server \<Rightarrow> server result" where
  "serverRealStart_ssl dbg send_ok resv mem dg acc s =
     bindE (broadcast_ready dbg send_ok resv dg s) (\<lambda>s1.
     case acc of None \<Rightarrow> Inr s1
     | Some None \<Rightarrow> Inr s1
     | Some (Some ((c, client), handshake_ok)) \<Rightarrow>
         if handshake_ok then serverServlet_ssl send_ok resv client mem BodyUninit c s1 else Inr s1)"

section \<open>Packets on a connection\<close>

definition deliver :: "8 word list \<Rightarrow> segment list \<Rightarrow> segment list" where
  "deliver bs c = (if bs = [] then c else Data bs # c)"

lemma read_deliver: "xs \<noteq> [] \<Longrightarrow> sock_read (length xs) (deliver (xs @ ys) c) = (Some xs, deliver ys c)"
  by (auto simp: deliver_def)

lemma wire_header_nonempty: "header_wf h \<Longrightarrow> \<exists>b bs. wire_header h = b # bs"
  using length_wire_header [of h] by (cases "wire_header h") auto

lemma header_memory_wire: "header_wf h \<Longrightarrow> header_memory mem (wire_header h) = Inr h"
  by (simp add: header_memory_def wire_header_image)

lemma read_header:
  assumes "header_wf h"
  shows "sock_read 16 (deliver (wire_header h @ ys) c) = (Some (wire_header h), deliver ys c)"
  using read_deliver [of "wire_header h" ys c] wire_header_nonempty [OF assms] length_wire_header [OF assms] by auto

text \<open>A packet that has arrived with its header: the servlet's turn is the handling of its body.\<close>

lemma read_body_deliver:
  assumes "length body < 2 ^ 31" and "body \<noteq> []"
  shows "read_body (of_nat (length body)) (deliver (body @ ys) c) = (Some body, deliver ys c)"
    and "body_complete (Some body) (of_nat (length body))"
proof -
  have "sint (of_nat (length body) :: 32 word) = int (length body)"
    using sint32_small [of "of_nat (length body)"] unat_length32 [OF assms(1)] assms(1) by simp
  then show "read_body (of_nat (length body)) (deliver (body @ ys) c) = (Some body, deliver ys c)"
    and "body_complete (Some body) (of_nat (length body))"
    using read_deliver [OF assms(2), of ys c] by (simp_all add: read_body_def body_complete_def)
qed

lemma servlet_packet:
  assumes "header_wf h" and "h_magic h = PROT_MAGIC_NUMBER" and "h_len h = of_nat (length body)"
    and "length body < 2 ^ 31" and "body \<noteq> []"
  shows "serverServlet expat send_ok resv client mem (deliver (wire_header h @ body @ ys) c) s =
    bindE (tcp_body expat send_ok resv client h (Some body) s) (\<lambda>s1.
    serverServlet expat send_ok resv client (header_bytes h) (deliver ys c) s1)"
proof -
  obtain b bs where w: "wire_header h = b # bs" using wire_header_nonempty [OF assms(1)] by blast
  show ?thesis
    using read_header [OF assms(1), of "body @ ys" c] header_memory_wire [OF assms(1), of mem]
      read_body_deliver(1) [OF assms(4,5), of ys c] assms(2,3) w
    by (subst serverServlet.simps) simp
qed

lemma servlet_closed: "serverServlet expat send_ok resv client mem [] s = Inr s"
  by (subst serverServlet.simps) simp

text \<open>
  On a TCP connection every client broadcast that arrives whole makes the server write one byte behind
  its body; with the SSL server, every client event makes it read the body into memory that is not
  allocated.
\<close>

theorem servlet_packet_faults:
  assumes "header_wf h" and "h_magic h = PROT_MAGIC_NUMBER" and "h_len h = of_nat (length body)"
    and "length body < 2 ^ 31" and "body \<noteq> []"
  shows "(h_type h = PROT_BC_CLIENT \<longrightarrow>
      serverServlet expat send_ok resv client mem (deliver (wire_header h @ body @ ys) c) s = Inl OutOfBounds) \<and>
    (h_type h = PROT_CLIENT_EVENT \<longrightarrow>
      serverServlet_ssl send_ok resv client mem BodyUninit (deliver (wire_header h @ body @ ys) c) s = Inl UninitRead \<and>
      serverServlet_ssl send_ok resv client mem BodyFreed (deliver (wire_header h @ body @ ys) c) s = Inl UseAfterFree)"
proof (intro conjI impI)
  assume t: "h_type h = PROT_BC_CLIENT"
  have "sint (h_len h) = int (length body)"
    using sint32_small [of "of_nat (length body)"] unat_length32 [OF assms(4)] assms(3,4) by simp
  then have "serverProcessClientBC send_ok resv (map byte_char body) (h_len h) client s = Inl OutOfBounds"
    by (simp add: serverProcessClientBC_def)
  then show "serverServlet expat send_ok resv client mem (deliver (wire_header h @ body @ ys) c) s = Inl OutOfBounds"
    using read_body_deliver(2) [OF assms(4,5)] assms(3) t by (simp add: servlet_packet [OF assms] tcp_body_def)
next
  assume t: "h_type h = PROT_CLIENT_EVENT"
  obtain b bs where w: "wire_header h = b # bs" using wire_header_nonempty [OF assms(1)] by blast
  have "serverServlet_ssl send_ok resv client mem body' (deliver (wire_header h @ body @ ys) c) s =
      Inl (if body' = BodyUninit then UninitRead else UseAfterFree)" for body'
    using read_header [OF assms(1), of "body @ ys" c] header_memory_wire [OF assms(1), of mem] assms(2) t w
    by (subst serverServlet_ssl.simps) simp
  then show "serverServlet_ssl send_ok resv client mem BodyUninit (deliver (wire_header h @ body @ ys) c) s = Inl UninitRead"
    and "serverServlet_ssl send_ok resv client mem BodyFreed (deliver (wire_header h @ body @ ys) c) s = Inl UseAfterFree"
    by simp_all
qed

theorem servlet_packet_faults_witness:
  "serverServlet (\<lambda>_. []) True [0, 0, 0, 0, 0] \<lparr>sin_addr = 1, sin_port = 2\<rparr> []
     (deliver (wire_header (sample_header\<lparr>h_type := PROT_BC_CLIENT, h_len := 2\<rparr>) @ [72, 33] @ []) []) server_static =
   Inl OutOfBounds"
  using servlet_packet_faults [of "sample_header\<lparr>h_type := PROT_BC_CLIENT, h_len := 2\<rparr>" "[72, 33]"]
  by (simp add: sample_header_def header_wf_def)

section \<open>Events on a connection\<close>

text \<open>An event packet with its header, as a client sends it.\<close>

definition event_packet_ok :: "HEADER \<times> EVENT \<Rightarrow> bool" where
  "event_packet_ok = (\<lambda>(h, ev). header_wf h \<and> event_wf ev \<and> h_magic h = PROT_MAGIC_NUMBER \<and>
     h_type h = PROT_CLIENT_EVENT \<and> h_content h = PROT_CONTENT_EVENT \<and>
     h_len h = of_nat (length (wire_event ev)) \<and> length (wire_event ev) < 2 ^ 31)"

definition packet_bytes :: "HEADER \<times> EVENT \<Rightarrow> 8 word list" where
  "packet_bytes = (\<lambda>(h, ev). wire_header h @ wire_event ev)"

lemma wire_event_nonempty: "wire_event ev \<noteq> []"
  by (simp add: wire_event_def)

lemma servlet_event:
  assumes "event_packet_ok (h, ev)" and "eq_rel (sv_queue s) xs" and "length xs < SEM_VALUE_MAX"
  shows "\<exists>q. serverServlet expat send_ok resv client mem (deliver (packet_bytes (h, ev) @ ys) c) s =
      serverServlet expat send_ok resv client (header_bytes h) (deliver ys c) (s\<lparr>sv_queue := q\<rparr>) \<and>
    eq_rel q (xs @ [ev])"
proof -
  have ok: "header_wf h" "event_wf ev" "h_magic h = PROT_MAGIC_NUMBER" "h_type h = PROT_CLIENT_EVENT"
    "h_content h = PROT_CONTENT_EVENT" "h_len h = of_nat (length (wire_event ev))" "length (wire_event ev) < 2 ^ 31"
    using assms(1) by (auto simp: event_packet_ok_def)
  obtain q where q: "serverProcessClientEvent expat (EventMsg ev) (h_len h) s = Inr (s\<lparr>sv_queue := q\<rparr>)"
    "eq_rel q (xs @ [ev])" using enqueue_msg [OF assms(2,3)] by blast
  have "serverProcessClientEventPacket expat h (wire_event ev) s = Inr (s\<lparr>sv_queue := q\<rparr>)"
    using q(1) evt.dec_enc [OF ok(2), of "[]"] ok(5)
    by (simp add: serverProcessClientEventPacket_def prot_codes del: serverProcessClientEvent.simps)
  then have "tcp_body expat send_ok resv client h (Some (wire_event ev)) s = Inr (s\<lparr>sv_queue := q\<rparr>)"
    using read_body_deliver(2) [OF ok(7) wire_event_nonempty] ok(4,6)
    by (simp add: tcp_body_def PROT_BC_CLIENT_def PROT_CLIENT_EVENT_def)
  then show ?thesis
    using q(2) servlet_packet [OF ok(1,3,6,7) wire_event_nonempty] by (auto simp: packet_bytes_def)
qed

lemma servlet_events:
  "\<forall>p\<in>set ps. event_packet_ok p \<Longrightarrow> eq_rel (sv_queue s) xs \<Longrightarrow> length xs + length ps \<le> SEM_VALUE_MAX \<Longrightarrow>
   \<exists>q mem1. serverServlet expat send_ok resv client mem (deliver (concat (map packet_bytes ps)) c) s =
      serverServlet expat send_ok resv client mem1 c (s\<lparr>sv_queue := q\<rparr>) \<and> eq_rel q (xs @ map snd ps)"
proof (induction ps arbitrary: s xs mem)
  case Nil
  then show ?case by (intro exI [of _ "sv_queue s"] exI [of _ mem]) (simp add: deliver_def)
next
  case (Cons p ps)
  obtain h ev where p: "p = (h, ev)" by (cases p)
  obtain q where q: "serverServlet expat send_ok resv client mem
        (deliver (packet_bytes (h, ev) @ concat (map packet_bytes ps)) c) s =
      serverServlet expat send_ok resv client (header_bytes h) (deliver (concat (map packet_bytes ps)) c) (s\<lparr>sv_queue := q\<rparr>)"
    "eq_rel q (xs @ [ev])"
    using servlet_event [of h ev s xs expat send_ok resv client mem "concat (map packet_bytes ps)" c] Cons.prems p
    by auto
  then show ?case
    using Cons.IH [of "s\<lparr>sv_queue := q\<rparr>" "xs @ [ev]" "header_bytes h"] Cons.prems p by auto
qed

text \<open>
  C16.  A client that sends events over a TCP connection and closes it gets all of them into the engine queue,
  in order and unchanged, whichever groups of whole packets arrive together.
\<close>

theorem tcp_events_enqueued:
  assumes "\<forall>ps\<in>set groups. \<forall>p\<in>set ps. event_packet_ok p"
    and "eq_rel (sv_queue s) xs" and "length xs + length (concat groups) \<le> SEM_VALUE_MAX"
  shows "\<exists>q. serverServlet expat send_ok resv client mem
      (foldr (\<lambda>ps. deliver (concat (map packet_bytes ps))) groups []) s = Inr (s\<lparr>sv_queue := q\<rparr>) \<and>
    eq_rel q (xs @ map snd (concat groups))"
  using assms
proof (induction groups arbitrary: s xs mem)
  case Nil
  then show ?case by (intro exI [of _ "sv_queue s"]) (simp add: servlet_closed)
next
  case (Cons ps groups)
  let ?c = "foldr (\<lambda>ps. deliver (concat (map packet_bytes ps))) groups []"
  obtain q mem1 where q: "serverServlet expat send_ok resv client mem (deliver (concat (map packet_bytes ps)) ?c) s =
      serverServlet expat send_ok resv client mem1 ?c (s\<lparr>sv_queue := q\<rparr>)" "eq_rel q (xs @ map snd ps)"
    using servlet_events [of ps s xs] Cons.prems by force
  then show ?case
    using Cons.IH [of "s\<lparr>sv_queue := q\<rparr>" "xs @ map snd ps" mem1] Cons.prems by auto
qed

theorem tcp_events_enqueued_witness:
  "\<exists>q. serverServlet (\<lambda>_. []) True [0, 0, 0, 0, 0] \<lparr>sin_addr = 1, sin_port = 2\<rparr> []
      (deliver (packet_bytes (sample_header, sample_event) @ packet_bytes (sample_header, sample_event)) [])
      server_static = Inr (server_static\<lparr>sv_queue := q\<rparr>) \<and> eq_rel q [sample_event, sample_event]"
proof -
  have "event_packet_ok (sample_header, sample_event)"
    by (simp add: event_packet_ok_def header_wf_def event_wf_def sample_header_def sample_event_def zero_event_def
      wire_event_def prot_codes)
  then show ?thesis
    using tcp_events_enqueued [of "[[(sample_header, sample_event), (sample_header, sample_event)]]" server_static "[]"]
      server_static_queue by (simp add: SEM_VALUE_MAX_def)
qed

end
