(* ===== verification/Lease_List.thy ===== *)
theory Lease_List
  imports Udp_Lease
begin

text \<open>
  The lease list of udp_server.c refines an association list from host and port to expiry time:
  registering a client inserts or updates its entry, a keep-alive renews the first entry of its
  host.  The step from one operation to a sequence of operations is the contract \<open>simulation\<close>.
  Shown too: when the purge removes the expired leases, and when it touches freed memory.
\<close>

section \<open>Simulations\<close>

locale simulation =
  fixes rel :: "'s \<Rightarrow> 'a \<Rightarrow> bool"
    and step :: "'op \<Rightarrow> 's \<Rightarrow> 's result"
    and astep :: "'op \<Rightarrow> 'a \<Rightarrow> 'a"
  assumes sim: "rel s x \<Longrightarrow> \<exists>s'. step op s = Inr s' \<and> rel s' (astep op x)"
begin

lemma run: "rel s x \<Longrightarrow> \<exists>s'. foldE step ops s = Inr s' \<and> rel s' (fold astep ops x)"
proof (induction ops arbitrary: s x)
  case (Cons op ops)
  then obtain s1 where "step op s = Inr s1" "rel s1 (astep op x)" using sim by blast
  with Cons.IH [OF this(2)] show ?case by simp
qed simp

lemma run_returns: "rel s x \<Longrightarrow> returns (foldE step ops s)"
  using run [of s x ops] by (auto simp: returns_def)

end

section \<open>Lists in the heap\<close>

primrec ll_list :: "leaselist heap \<Rightarrow> nat option \<Rightarrow> nat list \<Rightarrow> bool" where
  "ll_list m p [] \<longleftrightarrow> p = None"
| "ll_list m p (a # as) \<longleftrightarrow> p = Some a \<and> (\<exists>c. m a = Some c \<and> ll_list m (ll_nextent c) as)"

lemma ll_list_upd [simp]: "a \<notin> set as \<Longrightarrow> ll_list (m(a := v)) p as = ll_list m p as"
  by (induction as arbitrary: p) auto

lemma ll_list_same_next:
  "m a = Some c \<Longrightarrow> ll_nextent c' = ll_nextent c \<Longrightarrow> ll_list (m(a \<mapsto> c')) p as = ll_list m p as"
  by (induction as arbitrary: p) auto

lemma ll_list_alloc: "ll_list m p as \<Longrightarrow> a \<in> set as \<Longrightarrow> m a \<noteq> None"
  by (induction as arbitrary: p) auto

lemma ll_list_snoc:
  "ll_list m p as \<Longrightarrow> as \<noteq> [] \<Longrightarrow> distinct as \<Longrightarrow> new \<notin> set as \<Longrightarrow> m (last as) = Some c \<Longrightarrow>
   ll_nextent d = None \<Longrightarrow>
   ll_list (m(last as \<mapsto> c\<lparr>ll_nextent := Some new\<rparr>, new \<mapsto> d)) p (as @ [new])"
proof (induction as arbitrary: p)
  case (Cons a as)
  show ?case
  proof (cases "as = []")
    case False
    then have l: "last as \<in> set as" "last (a # as) = last as" by simp_all
    obtain e where e: "p = Some a" "m a = Some e" "ll_list m (ll_nextent e) as" using Cons.prems(1) by auto
    define m' where "m' = m(last as \<mapsto> c\<lparr>ll_nextent := Some new\<rparr>, new \<mapsto> d)"
    have "a \<noteq> last as" "a \<noteq> new" using l(1) Cons.prems by auto
    then have "m' a = Some e" using e(2) by (simp add: m'_def)
    moreover have "ll_list m' (ll_nextent e) (as @ [new])" unfolding m'_def
      by (rule Cons.IH [OF e(3) False]) (use Cons.prems l(2) in simp_all)
    ultimately show ?thesis using e(1) unfolding l(2) m'_def [symmetric] by simp
  qed (use Cons in auto)
qed simp

lemma find_lease_list:
  "ll_list m p as \<Longrightarrow> find_lease m p host port =
     Some (Inr (List.find (\<lambda>a. ll_host (the (m a)) = host \<and> ll_port (the (m a)) = port) as))"
proof (induction as arbitrary: p)
  case (Cons a as)
  then show ?case by (subst find_lease.simps) auto
qed (simp add: find_lease.simps)

lemma find_host_list:
  "ll_list m p as \<Longrightarrow> find_host m p host = Some (Inr (List.find (\<lambda>a. ll_host (the (m a)) = host) as))"
proof (induction as arbitrary: p)
  case (Cons a as)
  then show ?case by (subst find_host.simps) auto
qed (simp add: find_host.simps)

lemma last_lease_list: "ll_list m (Some a) as \<Longrightarrow> last_lease m a = Some (Inr (last as))"
proof (induction as arbitrary: a)
  case (Cons b as)
  then obtain c where c: "b = a" "m a = Some c" "ll_list m (ll_nextent c) as" by auto
  show ?case
  proof (cases "ll_nextent c")
    case None
    with c have "as = []" by (cases as) auto
    with c None show ?thesis by (subst last_lease.simps) simp
  next
    case (Some d)
    with c have "as \<noteq> []" by auto
    with Cons.IH [of d] c Some show ?thesis by (subst last_lease.simps) simp
  qed
qed simp

section \<open>The abstract lease table\<close>

type_synonym lease = "(32 word \<times> 32 word) \<times> timeval"

definition lease_of :: "leaselist \<Rightarrow> lease" where
  "lease_of c = ((ll_host c, ll_port c), ll_expired c)"

fun upsert :: "32 word \<times> 32 word \<Rightarrow> timeval \<Rightarrow> lease list \<Rightarrow> lease list" where
  "upsert k t [] = [(k, t)]"
| "upsert k t ((k', t') # ls) = (if k' = k then (k, t) # ls else (k', t') # upsert k t ls)"

fun renew :: "32 word \<Rightarrow> timeval \<Rightarrow> lease list \<Rightarrow> lease list" where
  "renew h t [] = []"
| "renew h t (((h', p), t') # ls) = (if h' = h then ((h', p), t) # ls else ((h', p), t') # renew h t ls)"

definition leases_rep :: "udp \<Rightarrow> nat list \<Rightarrow> bool" where
  "leases_rep s as \<longleftrightarrow> ll_list (us_mem s) (hlhead s) as \<and> distinct as \<and> dom (us_mem s) = set as \<and>
     (\<forall>a\<in>set as. a < us_brk s)"

definition leases_at :: "udp \<Rightarrow> nat list \<Rightarrow> lease list" where
  "leases_at s as = map (\<lambda>a. lease_of (the (us_mem s a))) as"

definition lease_rel :: "udp \<Rightarrow> lease list \<Rightarrow> bool" where
  "lease_rel s ls \<longleftrightarrow> (\<exists>as. leases_rep s as \<and> ls = leases_at s as)"

lemma leases_repD:
  assumes "leases_rep s as"
  shows "ll_list (us_mem s) (hlhead s) as" "distinct as" "dom (us_mem s) = set as"
    "\<And>a. a \<in> set as \<Longrightarrow> a < us_brk s" "us_brk s \<notin> set as"
  using assms by (auto simp: leases_rep_def)

text \<open>Writing a new expiry time into one cell.\<close>

definition set_expiry :: "nat \<Rightarrow> timeval \<Rightarrow> udp \<Rightarrow> udp" where
  "set_expiry a t s = s\<lparr>us_mem := (us_mem s)(a \<mapsto> (the (us_mem s a))\<lparr>ll_expired := t\<rparr>)\<rparr>"

lemma set_expiry_rep:
  assumes "leases_rep s as" and "a \<in> set as"
  shows "leases_rep (set_expiry a t s) as"
proof -
  obtain c where "us_mem s a = Some c" using leases_repD(3) [OF assms(1)] assms(2) by auto
  then show ?thesis using assms
    by (auto simp: leases_rep_def set_expiry_def intro!: ll_list_same_next [THEN iffD2])
qed

lemma find_split:
  "List.find P as = Some a \<Longrightarrow> \<exists>xs ys. as = xs @ a # ys \<and> P a \<and> (\<forall>x\<in>set xs. \<not> P x)"
proof (induction as)
  case (Cons b as)
  show ?case
  proof (cases "P b")
    case True
    then show ?thesis using Cons.prems by (intro exI [of _ "[]"] exI [of _ as]) simp
  next
    case False
    then obtain xs ys where "as = xs @ a # ys" "P a" "\<forall>x\<in>set xs. \<not> P x" using Cons by auto
    with False show ?thesis by (intro exI [of _ "b # xs"] exI [of _ ys]) simp
  qed
qed simp

lemma leases_at_split:
  assumes "distinct (xs @ a # ys)"
  shows "leases_at (set_expiry a t s) (xs @ a # ys) =
    leases_at s xs @ (fst (lease_of (the (us_mem s a))), t) # leases_at s ys"
  using assms by (auto simp: leases_at_def set_expiry_def lease_of_def)

lemma upsert_skip: "\<forall>l\<in>set ls. fst l \<noteq> k \<Longrightarrow> upsert k t (ls @ rs) = ls @ upsert k t rs"
  by (induction ls) auto

lemma renew_skip: "\<forall>l\<in>set ls. fst (fst l) \<noteq> h \<Longrightarrow> renew h t (ls @ rs) = ls @ renew h t rs"
  by (induction ls) auto


section \<open>The operations on the list\<close>

lemma add_entry_rep:
  assumes rep: "leases_rep s as"
  shows "\<exists>s'. serverAddLeaseEntry True host port s = Inr (Some (us_brk s), s') \<and>
    leases_rep s' (as @ [us_brk s]) \<and> leases_at s' as = leases_at s as \<and>
    us_mem s' (us_brk s) = Some (new_lease host port) \<and> us_server s' = us_server s \<and> us_clock s' = us_clock s"
proof (cases "as = []")
  case True
  have "hlhead s = None" using leases_repD(1) [OF rep] True by simp
  moreover have "us_mem s = Map.empty" using leases_repD(3) [OF rep] True by simp
  ultimately show ?thesis using True
    by (intro exI [of _ "s\<lparr>us_mem := [us_brk s \<mapsto> new_lease host port], us_brk := Suc (us_brk s),
        hlhead := Some (us_brk s)\<rparr>"])
      (simp add: serverAddLeaseEntry_def leases_rep_def leases_at_def new_lease_def Let_def)
next
  case False
  note r = leases_repD [OF rep]
  obtain h where h: "hlhead s = Some h" using r(1) False by (cases as) auto
  have l: "last as \<in> set as" using False by simp
  then obtain c where c: "us_mem s (last as) = Some c" using r(3) by auto
  let ?m = "(us_mem s)(last as \<mapsto> c\<lparr>ll_nextent := Some (us_brk s)\<rparr>, us_brk s \<mapsto> new_lease host port)"
  let ?s = "s\<lparr>us_mem := ?m, us_brk := Suc (us_brk s)\<rparr>"
  have "serverAddLeaseEntry True host port s = Inr (Some (us_brk s), ?s)"
    using last_lease_list [of "us_mem s" h as] r(1) h c by (simp add: serverAddLeaseEntry_def Let_def)
  moreover have "ll_list ?m (hlhead s) (as @ [us_brk s])"
    by (rule ll_list_snoc [OF r(1) False r(2,5) c]) (simp add: new_lease_def)
  then have "leases_rep ?s (as @ [us_brk s])"
    using r(2-5) l by (auto simp: leases_rep_def less_Suc_eq)
  moreover have "leases_at ?s as = leases_at s as"
    using r(5) c by (auto simp: leases_at_def lease_of_def)
  ultimately show ?thesis using l by (intro exI [of _ ?s]) simp
qed

lemma find_entry_None:
  assumes "leases_rep s as" and "List.find (\<lambda>a. ll_host (the (us_mem s a)) = host \<and> ll_port (the (us_mem s a)) = port) as = None"
  shows "\<forall>l\<in>set (leases_at s as). fst l \<noteq> (host, port)"
  using assms(2) by (auto simp: leases_at_def lease_of_def find_None_iff)

lemma set_expiry_parts [simp]:
  "us_server (set_expiry a t s) = us_server s" "us_clock (set_expiry a t s) = us_clock s"
  "hlhead (set_expiry a t s) = hlhead s"
  by (simp_all add: set_expiry_def)

lemma rep_frame:
  "leases_rep (s\<lparr>us_server := sv, us_clock := ck\<rparr>) as = leases_rep s as"
  "leases_rep (s\<lparr>us_server := sv\<rparr>) as = leases_rep s as" "leases_rep (s\<lparr>us_clock := ck\<rparr>) as = leases_rep s as"
  "leases_at (s\<lparr>us_server := sv\<rparr>) as = leases_at s as" "leases_at (s\<lparr>us_clock := ck\<rparr>) as = leases_at s as"
  by (simp_all add: leases_rep_def leases_at_def)

lemma find_mem: "List.find P as = Some a \<Longrightarrow> a \<in> set as \<and> P a"
  by (auto simp: find_Some_iff)

text \<open>Finding the entry or appending one, and writing the expiry time.\<close>

lemma registered:
  assumes rep: "leases_rep s as"
  obtains a s1 bs where
    "bindE (serverFindLeaseEntry host port s)
       (\<lambda>f. case f of None \<Rightarrow> serverAddLeaseEntry True host port s | Some a \<Rightarrow> Inr (Some a, s)) = Inr (Some a, s1)"
    "leases_rep (set_expiry a t s1) bs" "leases_at (set_expiry a t s1) bs = upsert (host, port) t (leases_at s as)"
    "us_server s1 = us_server s" "us_clock s1 = us_clock s"
    "\<exists>c. us_mem s1 a = Some c \<and> ll_host c = host \<and> ll_port c = port"
proof (cases "List.find (\<lambda>a. ll_host (the (us_mem s a)) = host \<and> ll_port (the (us_mem s a)) = port) as")
  case (Some a)
  note f = find_mem [OF Some]
  then obtain c where c: "us_mem s a = Some c" using leases_repD(3) [OF rep] by auto
  from find_split [OF Some] obtain xs ys where sp: "as = xs @ a # ys"
    "\<forall>x\<in>set xs. \<not> (ll_host (the (us_mem s x)) = host \<and> ll_port (the (us_mem s x)) = port)" by auto
  have "leases_at (set_expiry a t s) as = leases_at s xs @ ((host, port), t) # leases_at s ys"
    using leases_at_split [of xs a ys t s] leases_repD(2) [OF rep] f sp(1) by (simp add: lease_of_def)
  also have "\<dots> = upsert (host, port) t (leases_at s as)"
    using sp f by (subst sp(1)) (simp add: leases_at_def upsert_skip lease_of_def)
  finally have at: "leases_at (set_expiry a t s) as = upsert (host, port) t (leases_at s as)" .
  show ?thesis
    by (rule that [OF _ set_expiry_rep [OF rep conjunct1 [OF f]] at])
      (use c f leases_repD(1) [OF rep] Some in \<open>simp_all add: serverFindLeaseEntry_def find_lease_list\<close>)
next
  case None
  from add_entry_rep [OF rep, of host port] obtain s1 where s1:
    "serverAddLeaseEntry True host port s = Inr (Some (us_brk s), s1)" "leases_rep s1 (as @ [us_brk s])"
    "leases_at s1 as = leases_at s as" "us_mem s1 (us_brk s) = Some (new_lease host port)"
    "us_server s1 = us_server s" "us_clock s1 = us_clock s" by blast
  have "leases_at (set_expiry (us_brk s) t s1) (as @ [us_brk s]) = leases_at s as @ [((host, port), t)]"
    using leases_at_split [of as "us_brk s" "[]" t s1] leases_repD(2) [OF s1(2)] s1(3,4)
    by (simp add: lease_of_def new_lease_def leases_at_def)
  also have "\<dots> = upsert (host, port) t (leases_at s as)"
    using upsert_skip [OF find_entry_None [OF rep None], of t "[]"] by simp
  finally have at: "leases_at (set_expiry (us_brk s) t s1) (as @ [us_brk s]) = upsert (host, port) t (leases_at s as)" .
  have "us_brk s \<in> set (as @ [us_brk s])" by simp
  show ?thesis
    by (rule that [OF _ set_expiry_rep [OF s1(2) \<open>us_brk s \<in> set (as @ [us_brk s])\<close>] at])
      (use s1 leases_repD(1) [OF rep] None in \<open>simp_all add: serverFindLeaseEntry_def find_lease_list new_lease_def\<close>)
qed


section \<open>Clients\<close>

definition all_sent :: net where
  "all_sent = \<lparr>lease_alloc = True, buf_alloc = True, resp_sent = True, lease_sent = True,
     stack_bytes = [0, 0, 0, 0, 0]\<rparr>"

datatype lease_op = Register net "32 word" "32 word" | KeepAlive sockaddr

text \<open>What the server does for a client; the allocation of an entry succeeds.\<close>

fun client_step :: "lease_op \<Rightarrow> udp \<Rightarrow> udp result" where
  "client_step (Register n host port) s =
     bindE (serverAddClient (n\<lparr>lease_alloc := True\<rparr>) host port s) (\<lambda>(r, s1). Inr s1)"
| "client_step (KeepAlive adr) s = serverProcessClientAlive adr s"

type_synonym lease_table = "lease list \<times> (nat \<Rightarrow> timeval)"

fun table_step :: "lease_op \<Rightarrow> lease_table \<Rightarrow> lease_table" where
  "table_step (Register n host port) (ls, ck) = (upsert (host, port) (expiry (ck 0)) ls, \<lambda>i. ck (Suc i))"
| "table_step (KeepAlive adr) (ls, ck) =
     (if \<exists>l\<in>set ls. fst (fst l) = sin_addr adr then (renew (sin_addr adr) (expiry (ck 0)) ls, \<lambda>i. ck (Suc i))
      else (ls, ck))"

definition table_rel :: "udp \<Rightarrow> lease_table \<Rightarrow> bool" where
  "table_rel s x \<longleftrightarrow> lease_rel s (fst x) \<and> us_clock s = snd x \<and> id_string (us_server s) \<noteq> None"

lemma lease_relI: "leases_rep s as \<Longrightarrow> leases_at s as = ls \<Longrightarrow> lease_rel s ls"
  by (auto simp: lease_rel_def)

lemma sendto_id [simp]: "id_string (sendto ok b adr sv) = id_string sv"
  by (simp add: sendto_def split: option.split)

lemma respond_id:
  assumes "id_string sv = Some i"
  shows "\<exists>sv'. serverRespondToClient ok resv adr sv = Inr sv' \<and> id_string sv' = Some i"
  using respond_ok [OF assms, of ok resv adr] assms by simp

lemma register_step:
  assumes rep: "leases_rep s as" and id: "id_string (us_server s) = Some i"
  shows "\<exists>s'. client_step (Register n host port) s = Inr s' \<and>
    lease_rel s' (upsert (host, port) (expiry (us_clock s 0)) (leases_at s as)) \<and>
    us_clock s' = (\<lambda>k. us_clock s (Suc k)) \<and> id_string (us_server s') = Some i"
proof -
  let ?t = "expiry (us_clock s 0)"
  from registered [OF rep, of host port ?t] obtain a s1 bs c where r:
    "bindE (serverFindLeaseEntry host port s)
       (\<lambda>f. case f of None \<Rightarrow> serverAddLeaseEntry True host port s | Some a \<Rightarrow> Inr (Some a, s)) = Inr (Some a, s1)"
    and bs: "leases_rep (set_expiry a ?t s1) bs" "leases_at (set_expiry a ?t s1) bs = upsert (host, port) ?t (leases_at s as)"
    and sv: "us_server s1 = us_server s" "us_clock s1 = us_clock s"
    and c: "us_mem s1 a = Some c" "ll_host c = host" "ll_port c = port" by metis
  obtain f where f: "serverFindLeaseEntry host port s = Inr f"
    "(case f of None \<Rightarrow> serverAddLeaseEntry True host port s | Some a \<Rightarrow> Inr (Some a, s)) = Inr (Some a, s1)"
    using r by auto
  obtain sv' where sv': "serverRespondToClient (resp_sent n) (stack_bytes n) (client_addr host port) (us_server s) = Inr sv'"
    "id_string sv' = Some i" using respond_id [OF id] by blast
  let ?s3 = "s1\<lparr>us_clock := \<lambda>k. us_clock s (Suc k), us_mem := (us_mem s1)(a \<mapsto> c\<lparr>ll_expired := ?t\<rparr>), us_server := sv'\<rparr>"
  let ?s4 = "snd (serverNotifyClientLease (buf_alloc n) (lease_sent n) host port ?s3)"
  have "serverAddClient (n\<lparr>lease_alloc := True\<rparr>) host port s = Inr (SERVER_SUCCESS, ?s4)"
    using f c sv sv' by (cases f) (simp_all add: serverAddClient_def us_gettimeofday_def)
  moreover have "leases_rep ?s4 bs" "leases_at ?s4 bs = upsert (host, port) ?t (leases_at s as)"
    using bs c(1) by (simp_all add: serverNotifyClientLease_def leases_rep_def leases_at_def set_expiry_def)
  moreover have "us_clock ?s4 = (\<lambda>k. us_clock s (Suc k))" "id_string (us_server ?s4) = Some i"
    using sv'(2) by (simp_all add: serverNotifyClientLease_def)
  ultimately show ?thesis by (auto intro: lease_relI)
qed

lemma keepalive_step:
  assumes rep: "leases_rep s as"
  shows "\<exists>s'. client_step (KeepAlive adr) s = Inr s' \<and> us_server s' = us_server s \<and>
    (if \<exists>l\<in>set (leases_at s as). fst (fst l) = sin_addr adr
     then lease_rel s' (renew (sin_addr adr) (expiry (us_clock s 0)) (leases_at s as)) \<and>
          us_clock s' = (\<lambda>k. us_clock s (Suc k))
     else s' = s)"
proof (cases "List.find (\<lambda>a. ll_host (the (us_mem s a)) = sin_addr adr) as")
  case None
  then have "\<not> (\<exists>l\<in>set (leases_at s as). fst (fst l) = sin_addr adr)"
    by (auto simp: find_None_iff leases_at_def lease_of_def)
  then show ?thesis using find_host_list [OF leases_repD(1) [OF rep], of "sin_addr adr"] None
    by (simp add: serverProcessClientAlive_def serverUpdateClient_def)
next
  case (Some a)
  let ?t = "expiry (us_clock s 0)" and ?s = "(set_expiry a (expiry (us_clock s 0)) s)\<lparr>us_clock := \<lambda>k. us_clock s (Suc k)\<rparr>"
  note f = find_mem [OF Some]
  then obtain c where c: "us_mem s a = Some c" using leases_repD(3) [OF rep] by auto
  from find_split [OF Some] obtain xs ys where sp: "as = xs @ a # ys"
    "\<forall>x\<in>set xs. ll_host (the (us_mem s x)) \<noteq> sin_addr adr" by auto
  have "leases_at (set_expiry a ?t s) as = leases_at s xs @ (fst (lease_of (the (us_mem s a))), ?t) # leases_at s ys"
    using leases_at_split [of xs a ys ?t s] leases_repD(2) [OF rep] sp(1) by simp
  also have "\<dots> = renew (sin_addr adr) ?t (leases_at s as)"
    using sp f by (subst sp(1)) (simp add: leases_at_def renew_skip lease_of_def)
  finally have at: "leases_at (set_expiry a ?t s) as = renew (sin_addr adr) ?t (leases_at s as)" .
  have "\<exists>l\<in>set (leases_at s as). fst (fst l) = sin_addr adr"
    using f by (auto simp: leases_at_def lease_of_def)
  moreover have "client_step (KeepAlive adr) s = Inr ?s"
    using find_host_list [OF leases_repD(1) [OF rep], of "sin_addr adr"] Some c
    by (simp add: serverProcessClientAlive_def serverUpdateClient_def us_gettimeofday_def set_expiry_def)
  moreover have "lease_rel ?s (renew (sin_addr adr) ?t (leases_at s as))"
    using set_expiry_rep [OF rep conjunct1 [OF f], of ?t] at by (intro lease_relI [of _ as]) (simp_all add: rep_frame)
  ultimately show ?thesis by simp
qed

interpretation leases: simulation table_rel client_step table_step
proof
  fix s x op
  assume "table_rel s x"
  then obtain as i ck where as: "leases_rep s as" "x = (leases_at s as, ck)" "us_clock s = ck"
    "id_string (us_server s) = Some i" by (cases x) (auto simp: table_rel_def lease_rel_def)
  show "\<exists>s'. client_step op s = Inr s' \<and> table_rel s' (table_step op x)"
  proof (cases op)
    case (Register n host port)
    then show ?thesis using register_step [OF as(1,4), of n host port] as
      by (auto simp: table_rel_def simp del: client_step.simps)
  next
    case (KeepAlive adr)
    then show ?thesis using keepalive_step [OF as(1), of adr] as lease_relI [OF as(1)]
      by (auto simp: table_rel_def simp del: client_step.simps split: if_splits)
  qed
qed


text \<open>The abstract operations keep keys distinct.\<close>

lemma fst_upsert: "fst ` set (upsert k t ls) = insert k (fst ` set ls)"
  by (induction k t ls rule: upsert.induct) auto

lemma distinct_upsert: "distinct (map fst ls) \<Longrightarrow> distinct (map fst (upsert k t ls))"
proof (induction k t ls rule: upsert.induct)
  case (2 k t k' t' ls)
  then show ?case using fst_upsert [of k t ls] by (auto simp: image_iff)
qed simp

lemma map_fst_renew: "map fst (renew h t ls) = map fst ls"
  by (induction h t ls rule: renew.induct) auto

lemma table_step_distinct: "distinct (map fst (fst x)) \<Longrightarrow> distinct (map fst (fst (table_step op x)))"
  by (cases x; cases op) (auto simp: distinct_upsert map_fst_renew)

lemma table_run_distinct: "distinct (map fst (fst x)) \<Longrightarrow> distinct (map fst (fst (fold table_step ops x)))"
  by (induction ops arbitrary: x) (simp_all add: table_step_distinct)

text \<open>
  C13.  The lease list is a lease table.  Whatever sequence of registrations and keep-alives the
  clients send, the linked list returns from every operation and holds exactly the table these
  operations describe: a registration inserts an entry at the end or sets the expiry time of the
  existing one, a keep-alive sets the expiry time of the first entry of its host, 540 seconds from
  then; no client is ever listed twice.
\<close>

theorem lease_list_refines_table:
  assumes "lease_rel s ls" and "distinct (map fst ls)" and "id_string (us_server s) \<noteq> None"
  shows "\<exists>s' ls'. foldE client_step ops s = Inr s' \<and> lease_rel s' ls' \<and>
    fold table_step ops (ls, us_clock s) = (ls', us_clock s') \<and> distinct (map fst ls')"
proof -
  have "table_rel s (ls, us_clock s)" using assms by (simp add: table_rel_def)
  from leases.run [OF this, of ops] obtain s' where
    "foldE client_step ops s = Inr s'" "table_rel s' (fold table_step ops (ls, us_clock s))" by blast
  moreover have "distinct (map fst (fst (fold table_step ops (ls, us_clock s))))"
    using table_run_distinct [of "(ls, us_clock s)"] assms(2) by simp
  ultimately show ?thesis by (auto simp: table_rel_def prod_eq_iff)
qed

definition udp_static :: udp where
  "udp_static = \<lparr>us_server = register_classes [''web''] server_static, us_mem = Map.empty, us_brk = 0,
     hlhead = None, us_body = BodyUninit, us_clock = \<lambda>n. \<lparr>tv_sec = 300 * int n, tv_usec = 0\<rparr>, us_alarm = None\<rparr>"

lemma udp_static_rel: "lease_rel udp_static []" "id_string (us_server udp_static) \<noteq> None"
  by (auto simp: lease_rel_def leases_rep_def leases_at_def udp_static_def register_ident
      server_static_def intro!: exI [of _ "[]"])

theorem lease_list_refines_table_witness:
  "\<exists>s'. foldE client_step [Register all_sent 7 1, Register all_sent 7 2, KeepAlive \<lparr>sin_addr = 7, sin_port = 2\<rparr>]
       udp_static = Inr s' \<and>
     lease_rel s' [((7, 1), \<lparr>tv_sec = 1140, tv_usec = 0\<rparr>), ((7, 2), \<lparr>tv_sec = 840, tv_usec = 0\<rparr>)]"
  using lease_list_refines_table [OF udp_static_rel(1) _ udp_static_rel(2),
      of "[Register all_sent 7 1, Register all_sent 7 2, KeepAlive \<lparr>sin_addr = 7, sin_port = 2\<rparr>]"]
  by (auto simp: udp_static_def expiry_def wakeup_secs_def simp del: foldE.simps client_step.simps)

section \<open>The purge\<close>

lemma purge_tail_live:
  assumes "ll_list m p as" and "\<forall>a\<in>set as. \<not> tv_sec (ll_expired (the (m a))) \<le> now"
  shows "purge_loop now p q m head = Some (Inr (m, head))"
  using assms
proof (induction as arbitrary: p q)
  case (Cons a as)
  then show ?case by (subst purge_loop.simps) auto
qed (simp add: purge_loop.simps)

lemma purge_tail_dead:
  assumes "ll_list m p as" and "distinct (b # as)" and "m b = Some d" and "p \<noteq> head" and "head \<notin> Some ` set as"
    and "\<exists>a\<in>set as. tv_sec (ll_expired (the (m a))) \<le> now"
  shows "purge_loop now p (Some b) m head = Some (Inl UseAfterFree)"
  using assms
proof (induction as arbitrary: p b d)
  case (Cons a as)
  then obtain c where c: "p = Some a" "m a = Some c" "ll_list m (ll_nextent c) as" by auto
  show ?case
  proof (cases "tv_sec (ll_expired c) \<le> now")
    case True
    then show ?thesis using c Cons.prems by (subst purge_loop.simps) (auto simp: Let_def)
  next
    case False
    have "ll_nextent c \<noteq> head" using c(3) Cons.prems(5,6) False c(2) by (cases as) auto
    from Cons.IH [OF c(3) _ c(2) this] show ?thesis using False c Cons.prems
      by (subst purge_loop.simps) auto
  qed
qed simp

text \<open>The dead entries at the head are removed one by one.\<close>

lemma purge_head:
  assumes "ll_list m p (xs @ ys)" and "distinct (xs @ ys)"
    and "\<forall>a\<in>set xs. tv_sec (ll_expired (the (m a))) \<le> now"
  shows "\<exists>p'. purge_loop now p None m p = purge_loop now p' None (m |` (- set xs)) p' \<and>
    ll_list (m |` (- set xs)) p' ys"
  using assms
proof (induction xs arbitrary: p m)
  case (Cons a xs)
  then obtain c where c: "p = Some a" "m a = Some c" "ll_list m (ll_nextent c) (xs @ ys)"
    "a \<notin> set (xs @ ys)" by auto
  let ?m = "m(a := None)"
  have step: "purge_loop now p None m p = purge_loop now (ll_nextent c) None ?m (ll_nextent c)"
    using c Cons.prems(3) by (subst purge_loop.simps) simp
  have l: "ll_list ?m (ll_nextent c) (xs @ ys)" using c(3,4) by simp
  have d: "\<forall>b\<in>set xs. tv_sec (ll_expired (the (?m b))) \<le> now" using Cons.prems(3) c(4) by auto
  have m: "?m |` (- set xs) = m |` (- set (a # xs))" by (auto simp: restrict_map_def fun_eq_iff)
  show ?case unfolding step m [symmetric] by (rule Cons.IH [OF l _ d]) (use Cons.prems(2) in simp)
qed (auto simp: restrict_map_def)

definition lease_dead :: "int \<Rightarrow> lease \<Rightarrow> bool" where
  "lease_dead now l \<longleftrightarrow> tv_sec (snd l) \<le> now"

lemma lease_dead_cell: "lease_dead now (lease_of c) \<longleftrightarrow> tv_sec (ll_expired c) \<le> now"
  by (simp add: lease_dead_def lease_of_def)

lemma purge_rep:
  assumes rep: "leases_rep s as" and ck: "now = tv_sec (us_clock s 0)"
    and sp: "as = xs @ ys" "\<forall>x\<in>set (leases_at s xs). lease_dead now x"
    and hd: "ys \<noteq> [] \<Longrightarrow> \<not> lease_dead now (hd (leases_at s ys))"
  shows "if \<forall>y\<in>set (leases_at s ys). \<not> lease_dead now y
    then \<exists>s'. serverPurgeHostList s = Inr s' \<and> leases_rep s' ys \<and> leases_at s' ys = leases_at s ys \<and>
           us_server s' = us_server s
    else serverPurgeHostList s = Inl UseAfterFree"
proof -
  note r = leases_repD [OF rep]
  let ?m = "us_mem s |` (- set xs)"
  have "\<forall>a\<in>set xs. tv_sec (ll_expired (the (us_mem s a))) \<le> now"
    using sp(2) by (auto simp: leases_at_def lease_dead_cell)
  from purge_head [OF r(1,2) [unfolded sp(1)] this] obtain p where
    p: "purge_loop now (hlhead s) None (us_mem s) (hlhead s) = purge_loop now p None ?m p" "ll_list ?m p ys" by blast
  have purge: "serverPurgeHostList s = bindE (loopE (purge_loop now p None ?m p))
      (\<lambda>(m, h). Inr (s\<lparr>us_clock := \<lambda>n. us_clock s (Suc n), us_mem := m, hlhead := h\<rparr>))"
    by (simp add: serverPurgeHostList_def us_gettimeofday_def ck [symmetric] p(1))
  have ys: "distinct ys" "set ys \<inter> set xs = {}" using r(2) sp(1) by auto
  then have same: "\<And>y. y \<in> set ys \<Longrightarrow> ?m y = us_mem s y" by (auto simp: restrict_map_def)
  have at: "leases_at (s\<lparr>us_clock := ck', us_mem := ?m, hlhead := p\<rparr>) ys = leases_at s ys" for ck'
    using same by (simp add: leases_at_def)
  show ?thesis
  proof (cases "\<forall>y\<in>set ys. \<not> tv_sec (ll_expired (the (?m y))) \<le> now")
    case True
    have "serverPurgeHostList s = Inr (s\<lparr>us_clock := \<lambda>n. us_clock s (Suc n), us_mem := ?m, hlhead := p\<rparr>)"
      using purge_tail_live [OF p(2) True] purge by simp
    moreover have "leases_rep (s\<lparr>us_clock := \<lambda>n. us_clock s (Suc n), us_mem := ?m, hlhead := p\<rparr>) ys"
      using p(2) ys r(3,4) sp(1) by (auto simp: leases_rep_def)
    ultimately show ?thesis using True at same by (auto simp: leases_at_def lease_dead_cell)
  next
    case False
    then obtain a zs where a: "ys = a # zs" by (cases ys) auto
    then obtain c where c: "p = Some a" "?m a = Some c" "ll_list ?m (ll_nextent c) zs" using p(2) by auto
    have live: "\<not> tv_sec (ll_expired c) \<le> now"
      using hd a c(2) same [of a] by (auto simp: leases_at_def lease_dead_cell)
    have "ll_nextent c \<noteq> p" "p \<notin> Some ` set zs" using c ys a by (cases zs; auto)+
    moreover have "\<exists>x\<in>set zs. tv_sec (ll_expired (the (?m x))) \<le> now" using False a c(2) live by auto
    ultimately have "purge_loop now (ll_nextent c) (Some a) ?m p = Some (Inl UseAfterFree)"
      using purge_tail_dead [OF c(3) _ c(2)] ys(1) a by simp
    then have "purge_loop now p None ?m p = Some (Inl UseAfterFree)"
      using c live by (subst purge_loop.simps) simp
    then show ?thesis using False same purge by (auto simp: leases_at_def lease_dead_cell)
  qed
qed

lemma serverPurgeHostList_rel:
  assumes "lease_rel s ls" and "now = tv_sec (us_clock s 0)"
  shows "if \<forall>l\<in>set (dropWhile (lease_dead now) ls). \<not> lease_dead now l
    then \<exists>s'. serverPurgeHostList s = Inr s' \<and> lease_rel s' (filter (\<lambda>l. \<not> lease_dead now l) ls) \<and>
           us_server s' = us_server s
    else serverPurgeHostList s = Inl UseAfterFree"
proof -
  obtain as where as: "leases_rep s as" "ls = leases_at s as" using assms(1) by (auto simp: lease_rel_def)
  let ?P = "\<lambda>a. lease_dead now (lease_of (the (us_mem s a)))"
  define xs ys where "xs = takeWhile ?P as" and "ys = dropWhile ?P as"
  have sp: "as = xs @ ys" by (simp add: xs_def ys_def)
  have dead: "\<forall>x\<in>set (leases_at s xs). lease_dead now x"
    by (auto simp: xs_def leases_at_def dest: set_takeWhileD)
  have hd: "ys \<noteq> [] \<Longrightarrow> \<not> lease_dead now (hd (leases_at s ys))"
    using hd_dropWhile [of ?P as] by (simp add: ys_def leases_at_def hd_map)
  have drop: "dropWhile (lease_dead now) ls = leases_at s ys"
    by (simp add: as(2) ys_def leases_at_def dropWhile_map comp_def)
  have fl: "\<forall>y\<in>set (leases_at s ys). \<not> lease_dead now y \<Longrightarrow> filter (\<lambda>l. \<not> lease_dead now l) ls = leases_at s ys"
    using dead unfolding as(2) sp leases_at_def map_append filter_append
    by (simp add: filter_empty_conv filter_id_conv)
  show ?thesis using purge_rep [OF as(1) assms(2) sp dead hd] fl
    by (auto simp: drop split: if_splits intro: lease_relI)
qed


text \<open>
  The purge.  At each alarm, the expired leases are removed if they all stand at the front of
  the list; the others stay, in order.  If some lease that is still valid stands before an expired
  one, the expired entry is freed and then read.
\<close>

theorem serverPurgeHostList_outcome:
  assumes "lease_rel s ls" and "now = tv_sec (us_clock s 0)"
  shows "if \<forall>l\<in>set (dropWhile (lease_dead now) ls). \<not> lease_dead now l
    then \<exists>s'. serverPurgeHostList s = Inr s' \<and> lease_rel s' (filter (\<lambda>l. \<not> lease_dead now l) ls) \<and>
           us_server s' = us_server s
    else serverPurgeHostList s = Inl UseAfterFree"
  by (rule serverPurgeHostList_rel [OF assms])

text \<open>One entry, registered at time 0, at a time when it has expired.\<close>

definition one_lease :: udp where
  "one_lease = udp_static\<lparr>us_mem := [0 \<mapsto> (new_lease 7 1)\<lparr>ll_expired := \<lparr>tv_sec = 540, tv_usec = 0\<rparr>\<rparr>],
     us_brk := 1, hlhead := Some 0, us_clock := \<lambda>n. \<lparr>tv_sec = 600, tv_usec = 0\<rparr>\<rparr>"

lemma one_lease_rel: "lease_rel one_lease [((7, 1), \<lparr>tv_sec = 540, tv_usec = 0\<rparr>)]"
  by (auto simp: lease_rel_def leases_rep_def leases_at_def one_lease_def new_lease_def lease_of_def
      intro!: exI [of _ "[0]"])

theorem serverPurgeHostList_outcome_witness:
  "\<exists>s'. serverPurgeHostList one_lease = Inr s' \<and> lease_rel s' []"
  using serverPurgeHostList_outcome [OF one_lease_rel refl]
  by (auto simp: one_lease_def lease_dead_def)

section \<open>Two clients on one host\<close>

lemma keepalive_run:
  assumes "lease_rel s (((h, p1), t1) # ls)" and "sin_addr adr = h" and "id_string (us_server s) \<noteq> None"
  shows "\<exists>s'. foldE client_step (replicate (Suc k) (KeepAlive adr)) s = Inr s' \<and>
    lease_rel s' (((h, p1), expiry (us_clock s k)) # ls) \<and> us_clock s' = (\<lambda>n. us_clock s (Suc k + n))"
proof -
  have "table_rel s (((h, p1), t1) # ls, us_clock s)" using assms by (simp add: table_rel_def)
  from leases.run [OF this, of "replicate (Suc k) (KeepAlive adr)"] obtain s' where s':
    "foldE client_step (replicate (Suc k) (KeepAlive adr)) s = Inr s'"
    "table_rel s' (fold table_step (replicate (Suc k) (KeepAlive adr)) (((h, p1), t1) # ls, us_clock s))" by blast
  have "fold table_step (replicate (Suc k) (KeepAlive adr)) (((h, p1), t1) # ls, ck) =
      (((h, p1), expiry (ck k)) # ls, \<lambda>n. ck (Suc k + n))" for ck
    using assms(2) by (induction k arbitrary: t1 ck) simp_all
  with s' show ?thesis by (auto simp: table_rel_def)
qed

text \<open>
  Two clients on one host.  Keep-alives from a host renew only the first of its entries.  So
  if two clients of one host are the first two in the list and the host goes on sending keep-alives, the second
  client's lease expires all the same, and the alarm that finds it expired while the first is valid
  makes the server read freed memory.
\<close>

theorem shared_host_alarm_faults:
  assumes "lease_rel s (((h, p1), t1) # ((h, p2), t2) # ls)" and "id_string (us_server s) \<noteq> None"
    and "sin_addr adr = h"
    and "tv_sec t2 \<le> tv_sec (us_clock s (Suc k))"
    and "tv_sec (us_clock s (Suc k)) < tv_sec (us_clock s k) + 540"
  shows "\<exists>s'. foldE client_step (replicate (Suc k) (KeepAlive adr)) s = Inr s' \<and>
    serverHandleAlarm n s' = Inl UseAfterFree"
proof -
  from keepalive_run [OF assms(1,3,2), of k] obtain s' where s':
    "foldE client_step (replicate (Suc k) (KeepAlive adr)) s = Inr s'"
    "lease_rel s' (((h, p1), expiry (us_clock s k)) # ((h, p2), t2) # ls)"
    "us_clock s' = (\<lambda>n. us_clock s (Suc k + n))" by blast
  have "serverPurgeHostList s' = Inl UseAfterFree"
    using serverPurgeHostList_rel [OF s'(2) refl] assms(4,5) s'(3)
    by (simp add: lease_dead_def expiry_def wakeup_secs_def)
  with s'(1) show ?thesis by (auto simp: serverHandleAlarm_def)
qed

definition two_leases :: udp where
  "two_leases = udp_static\<lparr>us_mem := [0 \<mapsto> (new_lease 7 1)\<lparr>ll_nextent := Some 1\<rparr>, 1 \<mapsto> new_lease 7 2],
     us_brk := 2, hlhead := Some 0\<rparr>"

lemma two_leases_rel:
  "lease_rel two_leases [((7, 1), \<lparr>tv_sec = 0, tv_usec = 0\<rparr>), ((7, 2), \<lparr>tv_sec = 0, tv_usec = 0\<rparr>)]"
  by (auto simp: lease_rel_def leases_rep_def leases_at_def two_leases_def new_lease_def lease_of_def
      intro!: exI [of _ "[0, 1]"])

theorem shared_host_alarm_faults_witness:
  "\<exists>s'. foldE client_step (replicate (Suc 1) (KeepAlive \<lparr>sin_addr = 7, sin_port = 2\<rparr>)) two_leases = Inr s' \<and>
     serverHandleAlarm all_sent s' = Inl UseAfterFree"
proof -
  have "id_string (us_server two_leases) \<noteq> None"
    using udp_static_rel(2) by (simp add: two_leases_def)
  from shared_host_alarm_faults [OF two_leases_rel this, of "\<lparr>sin_addr = 7, sin_port = 2\<rparr>" 1 all_sent]
  show ?thesis by (simp add: two_leases_def udp_static_def del: foldE.simps)
qed

end
