(* ===== verification/Udp_Loop.thy ===== *)
theory Udp_Loop
  imports Lease_List
begin

text \<open>
  The running UDP server: packets and alarms in any order, as a step relation.  Shown: in every
  reachable state the lease list is a well-formed list without duplicates, and what becomes of the
  body pointer when a packet with a wrong magic number arrives.
\<close>

section \<open>Reachable states\<close>

inductive udp_step :: "udp \<Rightarrow> udp \<Rightarrow> bool" where
  packet: "receive_turn expat n t s = Inr s' \<Longrightarrow> udp_step s s'"
| alarm: "serverHandleAlarm n s = Inr s' \<Longrightarrow> udp_step s s'"

inductive udp_reach :: "udp \<Rightarrow> udp \<Rightarrow> bool" for s0 where
  start: "udp_reach s0 s0"
| step: "udp_reach s0 s \<Longrightarrow> udp_step s s' \<Longrightarrow> udp_reach s0 s'"

inductive_cases udp_stepE: "udp_step s s'"

definition udp_inv :: "udp \<Rightarrow> bool" where
  "udp_inv s \<longleftrightarrow> (\<exists>ls. lease_rel s ls \<and> distinct (map fst ls)) \<and> id_string (us_server s) \<noteq> None"

lemma lease_rel_frame:
  "lease_rel (s\<lparr>us_body := b\<rparr>) ls = lease_rel s ls" "lease_rel (s\<lparr>us_server := sv\<rparr>) ls = lease_rel s ls"
  "lease_rel (s\<lparr>us_alarm := al\<rparr>) ls = lease_rel s ls" "lease_rel (s\<lparr>us_server := sv, us_body := b\<rparr>) ls = lease_rel s ls"
  "lease_rel (s\<lparr>us_server := sv, us_alarm := al\<rparr>) ls = lease_rel s ls"
  by (simp_all add: lease_rel_def leases_rep_def leases_at_def)

lemma udp_inv_frame [simp]: "udp_inv (s\<lparr>us_body := b\<rparr>) = udp_inv s" "udp_inv (s\<lparr>us_alarm := al\<rparr>) = udp_inv s"
  by (simp_all add: udp_inv_def lease_rel_frame)

lemma udp_inv_server: "udp_inv s \<Longrightarrow> id_string sv = id_string (us_server s) \<Longrightarrow> udp_inv (s\<lparr>us_server := sv\<rparr>)"
  by (simp add: udp_inv_def lease_rel_frame)

section \<open>Each operation keeps the invariant\<close>

lemma client_step_inv:
  assumes "udp_inv s"
  shows "\<exists>s'. client_step op s = Inr s' \<and> udp_inv s'"
proof -
  obtain ls where ls: "lease_rel s ls" "distinct (map fst ls)" "id_string (us_server s) \<noteq> None"
    using assms by (auto simp: udp_inv_def)
  then have "table_rel s (ls, us_clock s)" by (simp add: table_rel_def)
  from leases.sim [OF this] obtain s' where s': "client_step op s = Inr s'"
    "table_rel s' (table_step op (ls, us_clock s))" by blast
  moreover have "distinct (map fst (fst (table_step op (ls, us_clock s))))"
    using table_step_distinct [of "(ls, us_clock s)"] ls(2) by simp
  ultimately show ?thesis by (auto simp: table_rel_def udp_inv_def)
qed

text \<open>A failing allocation never lets the registration return.\<close>

lemma add_client_no_alloc:
  assumes "serverAddClient n host port s = Inr (r, s')"
  shows "serverAddClient (n\<lparr>lease_alloc := True\<rparr>) host port s = Inr (r, s')"
proof (cases "serverFindLeaseEntry host port s")
  case (Inr f)
  show ?thesis
  proof (cases f)
    case None
    have "lease_alloc n"
      using assms Inr None by (auto simp: serverAddClient_def serverAddLeaseEntry_def us_gettimeofday_def
          Let_def bindE_eq_Inr_iff split: option.splits if_splits)
    then have "n\<lparr>lease_alloc := True\<rparr> = n" by (cases n) simp
    then show ?thesis using assms by simp
  qed (use assms Inr in \<open>simp add: serverAddClient_def\<close>)
qed (use assms in \<open>simp add: serverAddClient_def\<close>)

lemma add_client_inv: "udp_inv s \<Longrightarrow> serverAddClient n host port s = Inr (r, s') \<Longrightarrow> udp_inv s'"
  using client_step_inv [of s "Register n host port"] add_client_no_alloc [of n host port s r s'] by auto

lemma alive_inv: "udp_inv s \<Longrightarrow> serverProcessClientAlive adr s = Inr s' \<Longrightarrow> udp_inv s'"
  using client_step_inv [of s "KeepAlive adr"] by auto

lemma bc_inv: "udp_inv s \<Longrightarrow> lease_bc_loop n q adr s = Inr s' \<Longrightarrow> udp_inv s'"
  by (induction n q adr s rule: lease_bc_loop.induct)
    (auto split: if_splits intro: add_client_inv)

lemma client_event_id:
  "serverProcessClientEvent expat msg len sv = Inr sv' \<Longrightarrow> id_string sv' = id_string sv"
  by (cases msg) (auto simp: bindE_eq_Inr_iff split: option.splits)

lemma event_packet_id:
  "serverProcessClientEventPacket expat h dat sv = Inr sv' \<Longrightarrow> id_string sv' = id_string sv"
  by (auto simp: serverProcessClientEventPacket_def simp del: serverProcessClientEvent.simps
      split: if_splits dest!: client_event_id)

lemma event_packet_inv:
  "udp_inv s \<Longrightarrow> serverProcessClientEventPacket expat h dat (us_server s) = Inr x \<Longrightarrow>
   udp_inv (s\<lparr>us_server := x\<rparr>)"
  by (intro udp_inv_server event_packet_id)

lemma handle_packet_inv:
  assumes inv: "udp_inv s" and run: "handle_packet expat n buf adr s = Inr s'"
  shows "udp_inv s'"
proof -
  obtain h where h: "received_header buf = Inr h" using run by (auto simp: handle_packet_def)
  have live: "udp_inv (s\<lparr>us_body := BodyLive\<rparr>)" using inv by simp
  note run' = run [unfolded handle_packet_def h bindE_Inr Let_def]
  show ?thesis
    using run' inv
    by (auto simp: serverProcessBC_def bindE_eq_Inr_iff split: if_splits
        intro: event_packet_inv bc_inv [OF live] alive_inv [OF live])
qed

lemma purge_inv: "udp_inv s \<Longrightarrow> serverPurgeHostList s = Inr s' \<Longrightarrow> udp_inv s'"
proof -
  assume "udp_inv s" and run: "serverPurgeHostList s = Inr s'"
  then obtain ls where ls: "lease_rel s ls" "distinct (map fst ls)" "id_string (us_server s) \<noteq> None"
    by (auto simp: udp_inv_def)
  show ?thesis using serverPurgeHostList_rel [OF ls(1) refl] run ls(2,3)
    by (auto simp: udp_inv_def distinct_map_filter split: if_splits)
qed

lemma alive_loop_id: "loopE (alive_loop ok m p sv) = Inr sv' \<Longrightarrow> ll_list m p as \<Longrightarrow> id_string sv' = id_string sv"
proof (induction as arbitrary: p sv)
  case (Cons a as)
  then obtain c where c: "p = Some a" "m a = Some c" "ll_list m (ll_nextent c) as" by auto
  then show ?case using Cons.IH [OF _ c(3)] Cons.prems(1) by (subst (asm) alive_loop.simps) auto
qed (simp add: alive_loop.simps)

lemma alarm_inv: "udp_inv s \<Longrightarrow> serverHandleAlarm n s = Inr s' \<Longrightarrow> udp_inv s'"
proof -
  assume inv: "udp_inv s" and run: "serverHandleAlarm n s = Inr s'"
  then obtain s1 s2 where s1: "serverPurgeHostList s = Inr s1" and s2: "serverSendStillAlive n s1 = Inr s2"
    "s' = s2\<lparr>us_alarm := Some wakeup_secs\<rparr>" unfolding serverHandleAlarm_def bindE_eq_Inr_iff by blast
  have i1: "udp_inv s1" by (rule purge_inv [OF inv s1])
  then obtain as where "ll_list (us_mem s1) (hlhead s1) as" by (auto simp: udp_inv_def lease_rel_def leases_rep_def)
  then show ?thesis using s2 i1 alive_loop_id
    by (auto simp: serverSendStillAlive_def split: if_splits intro!: udp_inv_server)
qed

lemma receive_turn_inv: "udp_inv s \<Longrightarrow> receive_turn expat n t s = Inr s' \<Longrightarrow> udp_inv s'"
  by (cases t) (auto intro: handle_packet_inv)

text \<open>
  C14.  The running server.  In every state reachable by packets and alarms in any order, whatever
  the packets contain and whichever allocations and sends fail, the lease list is a well-formed
  list in the heap that no two entries share host and port, every cell the server allocated and did
  not free is in it, and the class identifier is still set.
\<close>

theorem udp_reachable_invariant:
  assumes "udp_reach s0 s" and "udp_inv s0"
  shows "udp_inv s"
  using assms
  by (induction rule: udp_reach.induct) (auto elim!: udp_stepE intro: receive_turn_inv alarm_inv)

lemma udp_static_inv: "udp_inv udp_static"
  using udp_static_rel by (auto simp: udp_inv_def intro!: exI [of _ "[]"])

theorem udp_reachable_invariant_witness:
  "\<exists>s. serverHandleAlarm all_sent udp_static = Inr s \<and> udp_inv s"
proof -
  obtain s where s: "serverHandleAlarm all_sent udp_static = Inr s"
    by (simp add: serverHandleAlarm_def serverPurgeHostList_def serverSendStillAlive_def us_gettimeofday_def
        udp_static_def purge_loop.simps alive_loop.simps all_sent_def)
  then have "udp_reach udp_static s" by (blast intro: udp_reach.intros udp_step.intros)
  from udp_reachable_invariant [OF this udp_static_inv] s show ?thesis by blast
qed


section \<open>The body pointer\<close>

lemma add_entry_body: "serverAddLeaseEntry ok host port s = Inr (r, s') \<Longrightarrow> us_body s' = us_body s"
  by (auto simp: serverAddLeaseEntry_def Let_def bindE_eq_Inr_iff split: option.split_asm if_split_asm)

lemma notify_body [simp]: "us_body (snd (serverNotifyClientLease ao so host port s)) = us_body s"
  by (simp add: serverNotifyClientLease_def)

lemma add_client_body:
  assumes "serverAddClient n host port s = Inr (r, s')"
  shows "us_body s' = us_body s"
proof -
  obtain f lease s1 where "(case f of None \<Rightarrow> serverAddLeaseEntry (lease_alloc n) host port s
      | Some a \<Rightarrow> Inr (Some a, s)) = Inr (lease, s1)" and "us_body s' = us_body s1"
    using assms unfolding serverAddClient_def us_gettimeofday_def Let_def
    by (auto simp: bindE_eq_Inr_iff simp del: deref.simps)
  then show ?thesis by (cases f) (auto dest: add_entry_body)
qed

lemma alive_body:
  assumes "serverProcessClientAlive adr s = Inr s'"
  shows "us_body s' = us_body s"
proof -
  obtain r p where "(case p of None \<Rightarrow> Inr (SERVER_SUCCESS, s)
      | Some a \<Rightarrow> bindE (deref (us_mem s) (Some a)) (\<lambda>c. Inr (SERVER_SUCCESS, s\<lparr>us_clock := \<lambda>n. us_clock s (Suc n),
          us_mem := (us_mem s)(a \<mapsto> c\<lparr>ll_expired := expiry (us_clock s 0)\<rparr>)\<rparr>))) = Inr (r, s')"
    using assms unfolding serverProcessClientAlive_def serverUpdateClient_def us_gettimeofday_def Let_def
    by (auto simp: bindE_eq_Inr_iff simp del: deref.simps)
  then show ?thesis by (cases p) (auto simp: bindE_eq_Inr_iff simp del: deref.simps)
qed

lemma bc_body: "lease_bc_loop n q adr s = Inr s' \<Longrightarrow> us_body s' = us_body s"
  by (induction n q adr s rule: lease_bc_loop.induct)
    (auto simp: bindE_eq_Inr_iff split: if_splits dest: add_client_body)

text \<open>What the pointer refers to after a packet with the right magic number.\<close>

definition body_after :: "HEADER \<Rightarrow> body_ptr" where
  "body_after h = (if h_type h \<noteq> PROT_CLIENT_EVENT then BodyFreed
     else if h_content h = PROT_CONTENT_XML then BodyInside else BodyNull)"

lemma handle_packet_body:
  assumes run: "handle_packet expat n buf adr s = Inr s'" and h: "received_header buf = Inr h"
    and magic: "h_magic h = PROT_MAGIC_NUMBER"
    and known: "h_type h = PROT_CLIENT_EVENT \<Longrightarrow> h_content h \<in> {PROT_CONTENT_XML, PROT_CONTENT_EVENT}"
  shows "us_body s' = body_after h"
proof -
  note run' = run [unfolded handle_packet_def h bindE_Inr Let_def]
  have codes: "PROT_CLIENT_EVENT \<noteq> PROT_BC_SERVER" "PROT_CLIENT_EVENT \<noteq> PROT_BC_CLIENT"
    "PROT_CLIENT_EVENT \<noteq> PROT_CLIENT_STILL_ALIVE" "PROT_CONTENT_EVENT \<noteq> PROT_CONTENT_XML"
    by (simp_all add: prot_codes PROT_CLIENT_STILL_ALIVE_def)
  have live: "free_body (us_body t) = Inr b \<Longrightarrow> us_body t = BodyLive \<Longrightarrow> b = BodyFreed" for t :: udp and b
    by simp
  show ?thesis
    using run' magic codes known
    by (auto simp: serverProcessBC_def bindE_eq_Inr_iff body_after_def split: if_splits
        dest!: bc_body alive_body)
qed

text \<open>
  Packets with a wrong magic number.  Such a packet is discarded by freeing the body pointer
  that the packet before left behind.  As the first packet it frees an uninitialised pointer; after
  any packet but a client event it frees the same memory a second time; after an XML event it frees
  an address inside the packet buffer; only after a binary event, which clears the pointer, does
  the server survive it, unchanged.
\<close>

theorem bad_magic_after:
  assumes "serverRealStart expat (ts @ [(n, Some (buf, adr))]) s = Inr s1"
    and "received_header buf = Inr h" and "h_magic h = PROT_MAGIC_NUMBER"
    and "h_type h = PROT_CLIENT_EVENT \<Longrightarrow> h_content h \<in> {PROT_CONTENT_XML, PROT_CONTENT_EVENT}"
    and "received_header bad = Inr hb" and "h_magic hb \<noteq> PROT_MAGIC_NUMBER"
  shows "serverRealStart expat [(n', Some (bad, adr'))] s = Inl UninitRead \<and>
    serverRealStart expat (ts @ [(n, Some (buf, adr)), (n', Some (bad, adr'))]) s =
      (if h_type h \<noteq> PROT_CLIENT_EVENT then Inl UseAfterFree
       else if h_content h = PROT_CONTENT_XML then Inl BadFree else Inr s1)"
proof -
  have bad: "handle_packet expat n' bad adr' t = bindE (free_body (us_body t)) (\<lambda>b. Inr (t\<lparr>us_body := b\<rparr>))" for t
    using assms(5,6) by (simp add: handle_packet_def)
  obtain s0 where s0: "handle_packet expat n buf adr s0 = Inr s1"
    using assms(1) by (auto simp: serverRealStart_def foldE_append bindE_eq_Inr_iff)
  have b: "us_body s1 = body_after h" by (rule handle_packet_body [OF s0 assms(2-4)])
  have "serverRealStart expat (ts @ [(n, Some (buf, adr)), (n', Some (bad, adr'))]) s =
      bindE (serverRealStart expat (ts @ [(n, Some (buf, adr))]) s) (handle_packet expat n' bad adr')"
    by (simp add: serverRealStart_def foldE_append bindE_assoc) (intro bindE_cong refl; simp add: bindE_def split: sum.split)
  with assms(1) bad b have "serverRealStart expat (ts @ [(n, Some (buf, adr)), (n', Some (bad, adr'))]) s =
      bindE (free_body (body_after h)) (\<lambda>b. Inr (s1\<lparr>us_body := b\<rparr>))" by simp
  moreover have "s1\<lparr>us_body := BodyNull\<rparr> = s1" if "us_body s1 = BodyNull" using that by (cases s1) simp
  ultimately show ?thesis using bad b by (auto simp: serverRealStart_def body_after_def)
qed

definition bad_datagram :: "8 word list" where
  "bad_datagram = wire_header (sample_header\<lparr>h_magic := 0\<rparr>) @ replicate 496 0"

definition alive_datagram :: "8 word list" where
  "alive_datagram = wire_header (sample_header\<lparr>h_type := PROT_CLIENT_STILL_ALIVE, h_len := 0\<rparr>) @ replicate 496 0"

theorem bad_magic_after_witness:
  "serverRealStart sample_expat [(all_sent, Some (alive_datagram, \<lparr>sin_addr = 7, sin_port = 1\<rparr>)),
      (all_sent, Some (bad_datagram, \<lparr>sin_addr = 7, sin_port = 1\<rparr>))] udp_static = Inl UseAfterFree"
proof -
  let ?h = "sample_header\<lparr>h_type := PROT_CLIENT_STILL_ALIVE, h_len := 0\<rparr>" and ?a = "\<lparr>sin_addr = 7, sin_port = 1\<rparr>"
  have wf: "header_wf ?h" by (simp add: header_wf_def sample_header_def)
  have rh: "received_header alive_datagram = Inr ?h" unfolding alive_datagram_def by (rule wire_header_image [OF wf])
  have m: "h_magic ?h = PROT_MAGIC_NUMBER" "h_type ?h = PROT_CLIENT_STILL_ALIVE" by (simp_all add: sample_header_def)
  have "\<exists>s1. serverRealStart sample_expat ([] @ [(all_sent, Some (alive_datagram, ?a))]) udp_static = Inr s1"
    using rh m by (simp add: serverRealStart_def handle_packet_def copy_body_def serverProcessClientAlive_def
        serverUpdateClient_def find_host.simps udp_static_def prot_codes PROT_CLIENT_STILL_ALIVE_def sample_header_def)
  then obtain s1 where s1: "serverRealStart sample_expat ([] @ [(all_sent, Some (alive_datagram, ?a))]) udp_static = Inr s1" ..
  have wb: "header_wf (sample_header\<lparr>h_magic := 0\<rparr>)" by (simp add: header_wf_def sample_header_def)
  have hb: "received_header bad_datagram = Inr (sample_header\<lparr>h_magic := 0\<rparr>)" "h_magic (sample_header\<lparr>h_magic := 0\<rparr>) \<noteq> PROT_MAGIC_NUMBER"
    unfolding bad_datagram_def by (rule wire_header_image [OF wb]) simp
  have nt: "h_type ?h \<noteq> PROT_CLIENT_EVENT" unfolding m(2) by (simp add: prot_codes PROT_CLIENT_STILL_ALIVE_def)
  from bad_magic_after [OF s1 rh m(1) _ hb, of all_sent ?a] nt show ?thesis by simp
qed

end
