(* ===== verification/Config_File.thy ===== *)
theory Config_File
  imports Parser
begin

text \<open>
  What reading a configuration does: it ends unless a file is imported, a file that imports itself is
  read without end, and printed sections are read back.
\<close>

declare parserParseGeneral.simps [simp del] parserParseClass.simps [simp del] port_loop.simps [simp del]
  server_loop.simps [simp del] event_loop.simps [simp del] threshold_loop.simps [simp del]
  state_loop.simps [simp del] look_ahead.simps [simp del] client_loop.simps [simp del]
  theme_lines.simps [simp del] take_line.simps [simp del]

section \<open>Sections leave a suffix of the file\<close>

lemma leaves_general: "leaves f (parserParseGeneral f s)"
proof (induction f arbitrary: s rule: lines_induct)
  case (1 f)
  show ?case
  proof (cases "fgets f")
    case (Some x)
    then obtain l f1 where x: "fgets f = Some (l, f1)" by (cases x) auto
    have "leaves f (parserParseGeneral f1 s)" for s using leaves_fgets [OF x 1 [OF x]] .
    then show ?thesis
      using x fgets_suffix [OF x] by (subst parserParseGeneral.simps) (auto intro!: leaves_bindE)
  qed (subst parserParseGeneral.simps, simp)
qed

lemma leaves_class: "leaves f (parserParseClass env cls f s)"
proof (induction f arbitrary: s rule: lines_induct)
  case (1 f)
  show ?case
  proof (cases "fgets f")
    case (Some x)
    then obtain l f1 where x: "fgets f = Some (l, f1)" by (cases x) auto
    have "leaves f (parserParseClass env cls f1 s)" for s using leaves_fgets [OF x 1 [OF x]] .
    then show ?thesis
      using x fgets_suffix [OF x] by (subst parserParseClass.simps) (auto intro!: leaves_bindE)
  qed (subst parserParseClass.simps, simp)
qed

lemma leaves_event: "leaves f (event_loop fs name path f s)"
proof (induction f arbitrary: name path s rule: lines_induct)
  case (1 f)
  show ?case
  proof (cases "fgets f")
    case (Some x)
    then obtain l f1 where x: "fgets f = Some (l, f1)" by (cases x) auto
    have "leaves f (event_loop fs name path f1 s)" for name path s using leaves_fgets [OF x 1 [OF x]] .
    then show ?thesis
      using x fgets_suffix [OF x]
      by (subst event_loop.simps) (auto intro!: leaves_bindE split: option.split)
  qed (subst event_loop.simps, simp)
qed

lemma leaves_parse_event: "leaves f (parserParseEvent fs f s)"
  by (simp add: parserParseEvent_def leaves_event)

lemma leaves_shorter: "suffix f1 f \<Longrightarrow> leaves f1 r \<Longrightarrow> leaves f r"
  unfolding leaves_def by (blast intro: suffix_order.trans)

lemma leaves_state_loop: "leaves f (state_loop fs name cnt f s)"
proof (induction f arbitrary: name cnt s rule: length_induct)
  case (1 f)
  show ?case
  proof (cases "fgets f")
    case (Some x)
    then obtain l f1 where x: "fgets f = Some (l, f1)" by (cases x) auto
    note sf = fgets_suffix [OF x]
    have rec: "leaves f (state_loop fs name cnt f2 s)" if "suffix f2 f1" for name cnt f2 s
    proof (rule leaves_shorter)
      show "suffix f2 f" using that sf by (rule suffix_order.trans)
      have "length f2 < length f" using suffix_length_le [OF that] fgets_length [OF x] by simp
      with 1 show "leaves f2 (state_loop fs name cnt f2 s)" by blast
    qed
    have up: "suffix f2 f" if "suffix f2 f1" for f2 using that sf by (rule suffix_order.trans)
    have th: "suffix f2 f1" if "parserParseThreshold fs f1 cnt s = Inr (r, f2, s1)" for cnt s r f2 s1
      using that leaves_threshold [of f1 fs cnt 0 0 0 None s]
      by (simp add: parserParseThreshold_def leaves_def)
    show ?thesis
      using x sf rec by (subst state_loop.simps)
        (auto simp: Let_def up dest!: th intro!: leaves_bindE split: option.split)
  qed (subst state_loop.simps, simp)
qed

lemma leaves_state: "leaves f (parserParseState fs f s)"
  unfolding parserParseState_def
  by (auto intro!: leaves_bindE leaves_state_loop leaves_shorter [OF _ leaves_state_loop, of "[]"])


text \<open>A current token that was read from the text \<open>F\<close>, with the rest of its line.\<close>

definition from_text :: "string \<Rightarrow> tok \<Rightarrow> bool" where
  "from_text F t \<longleftrightarrow> sublist (token t) F \<and> (\<forall>r. remainder t = Some r \<longrightarrow> sublist r F)"

lemma from_text_tokenize:
  assumes "parserTokenize rm = Inr t" and "\<And>r. rm = Some r \<Longrightarrow> sublist r F"
  shows "from_text F t"
proof (cases rm)
  case (Some r)
  then have r: "sublist r F" using assms(2) by simp
  have "sublist (token t) F" using tokenize_suffix(1) [of r t] assms(1) r Some
    by (auto intro: sublist_order.order.trans)
  moreover have "sublist r' F" if "remainder t = Some r'" for r'
    using tokenize_suffix(2) [of r t r'] assms(1) r Some that
    by (auto intro: sublist_order.order.trans dest: suffix_imp_sublist)
  ultimately show ?thesis by (simp add: from_text_def)
qed (use assms in \<open>simp add: parserTokenize_def\<close>)

lemma from_text_next: "from_text F t \<Longrightarrow> parserTokenize (remainder t) = Inr t1 \<Longrightarrow> from_text F t1"
  by (rule from_text_tokenize) (auto simp: from_text_def)

lemma from_text_line:
  assumes "fgets f = Some (l, f1)" and "suffix f F" and "parserTokenize (Some (buf_str l)) = Inr t"
  shows "from_text F t"
proof (rule from_text_tokenize [OF assms(3)])
  have "sublist l f" using fgets_append [OF assms(1)] by simp
  moreover have "sublist f F" using assms(2) by (rule suffix_imp_sublist)
  moreover have "prefix (buf_str l) l" by (simp add: buf_str_def takeWhile_is_prefix)
  ultimately show "sublist r F" if "Some (buf_str l) = Some r" for r
    using that by (auto intro: sublist_order.order.trans dest: prefix_imp_sublist)
qed

lemma client_loop_from_text:
  "client_loop t f = Inr (t1, f1) \<Longrightarrow> from_text F t \<Longrightarrow> suffix f F \<Longrightarrow> from_text F t1 \<and> suffix f1 f"
proof (induction f arbitrary: t rule: lines_induct)
  case (1 f)
  show ?case
  proof (cases "fgets f")
    case None
    then show ?thesis using 1(2,3) by (subst (asm) client_loop.simps) simp
  next
    case (Some x)
    then obtain l g where x: "fgets f = Some (l, g)" by (cases x) auto
    have sg: "suffix g f" "suffix g F" using fgets_suffix [OF x] 1(4) by (auto intro: suffix_order.trans)
    have up: "suffix f1 f" if "suffix f1 g" using that sg(1) by (rule suffix_order.trans)
    have step: "bindE (parserTokenize (Some (buf_str l))) (\<lambda>t1.
        if strcaseeq (token t1) ''end''
        then bindE (parserTokenize (remainder t1)) (\<lambda>t2.
             if strcaseeq (token t2) ''client'' then Inr (t2, g) else client_loop t2 g)
        else client_loop t1 g) = Inr (t1, f1)"
      using 1(2) x by (subst (asm) client_loop.simps) simp
    then obtain u where u: "parserTokenize (Some (buf_str l)) = Inr u" by (auto simp: bindE_eq_Inr_iff)
    note fu = from_text_line [OF x 1(4) u]
    have rec: "from_text F t1 \<and> suffix f1 f" if "client_loop v g = Inr (t1, f1)" "from_text F v" for v
      using 1(1) [OF x that sg(2)] up by blast
    show ?thesis
    proof (cases "strcaseeq (token u) ''end''")
      case True
      then obtain v where v: "parserTokenize (remainder u) = Inr v"
        and "(if strcaseeq (token v) ''client'' then Inr (v, g) else client_loop v g) = Inr (t1, f1)"
        using step u by (auto simp: bindE_eq_Inr_iff)
      then show ?thesis using rec from_text_next [OF fu v] sg(1) by (auto split: if_splits)
    next
      case False
      then show ?thesis using step u rec [OF _ fu] by simp
    qed
  qed
qed

fun reads_on :: "string \<Rightarrow> string \<Rightarrow> outcome \<Rightarrow> bool" where
  "reads_on F f (Stop c s) \<longleftrightarrow> True"
| "reads_on F f (Go t f1 s) \<longleftrightarrow> suffix f1 f \<and> from_text F t"

definition reads_on_result :: "string \<Rightarrow> string \<Rightarrow> outcome result \<Rightarrow> bool" where
  "reads_on_result F f r \<longleftrightarrow> (\<forall>o1. r = Inr o1 \<longrightarrow> reads_on F f o1)"

lemma stage_reads_on:
  assumes "reads_on F f o1"
    and "\<And>t f1 s. suffix f1 f \<Longrightarrow> from_text F t \<Longrightarrow> reads_on_result F f (body t f1 s)"
  shows "reads_on_result F f (stage kw body o1)"
  using assms by (cases o1) (auto simp: stage_def reads_on_result_def)

lemma reads_on_bind:
  "(\<And>x. m = Inr x \<Longrightarrow> reads_on_result F f (g x)) \<Longrightarrow> reads_on_result F f (bindE m g)"
  by (cases m) (auto simp: reads_on_result_def)

lemma check_section_reads_on:
  assumes "leaves f1 r" and "suffix f1 f" and "from_text F t"
  shows "reads_on_result F f (bindE r (check_section err t))"
  using assms by (cases r) (auto simp: reads_on_result_def check_section_def leaves_def intro: suffix_order.trans)

lemma client_reads_on:
  assumes "suffix f F" and "suffix f1 f" and "from_text F t"
  shows "reads_on_result F f (bindE (parserTokenize (remainder t)) (\<lambda>t1.
           bindE (client_loop t1 f1) (\<lambda>(t2, f2). Inr (Go t2 f2 s))))"
proof -
  have f1: "suffix f1 F" using assms(2,1) by (rule suffix_order.trans)
  have "from_text F t2 \<and> suffix f2 f"
    if "parserTokenize (remainder t) = Inr t1" "client_loop t1 f1 = Inr (t2, f2)" for t1 t2 f2
    using client_loop_from_text [OF that(2) from_text_next [OF assms(3) that(1)] f1] assms(2)
    by (auto intro: suffix_order.trans)
  then show ?thesis by (auto simp: reads_on_result_def bindE_eq_Inr_iff)
qed

lemma sections_reads_on:
  assumes "suffix f F" and "from_text F t"
  shows "reads_on_result F f (sections env t f s)"
proof -
  have start: "reads_on F f (Go t f s)" using assms by simp
  have chain: "reads_on_result F f (bindE m g)"
    if "reads_on_result F f m" "\<And>o1. reads_on F f o1 \<Longrightarrow> reads_on_result F f (g o1)" for m g
    using that by (intro reads_on_bind) (auto simp: reads_on_result_def)
  show ?thesis unfolding sections_def
    apply (rule chain, rule stage_reads_on [OF start])
     apply (rule check_section_reads_on [OF leaves_general]; assumption)
    apply (rule chain, erule stage_reads_on)
     apply (rule reads_on_bind, rule check_section_reads_on [OF leaves_class], assumption, erule from_text_next, assumption)
    apply (rule chain, erule stage_reads_on)
     apply (erule (1) client_reads_on [OF assms(1)])
    apply (rule chain, erule stage_reads_on)
     apply (rule check_section_reads_on [OF leaves_parse_event]; assumption)
    apply (erule stage_reads_on)
    apply (rule check_section_reads_on [OF leaves_state]; assumption)
    done
qed


section \<open>Reading a configuration ends\<close>

lemma theme_reads_on:
  "suffix f1 f \<Longrightarrow> from_text F t \<Longrightarrow> reads_on_result F f (theme_section env t f1 s)"
  by (auto simp: theme_section_def reads_on_result_def bindE_eq_Inr_iff from_text_next split: option.splits)

text \<open>Nowhere in the text does the word \<open>import\<close> occur, in any case.\<close>

definition no_import :: "string \<Rightarrow> bool" where
  "no_import f \<longleftrightarrow> \<not> strstr (map tolower f) ''import''"

lemma no_import_token: "no_import F \<Longrightarrow> from_text F t \<Longrightarrow> \<not> strcaseeq (token t) ''import''"
proof
  assume "no_import F" "from_text F t" and eq: "strcaseeq (token t) ''import''"
  then have "sublist (map tolower (token t)) (map tolower F)"
    by (auto simp: from_text_def sublist_def) (metis map_append)
  moreover have "map tolower (token t) = ''import''"
    using eq by (simp add: strcaseeq_def char_defs)
  ultimately show False using \<open>no_import F\<close> by (simp add: no_import_def strstr_iff_sublist)
qed

lemma config_loop_returns:
  "no_import F \<Longrightarrow> suffix f F \<Longrightarrow> config_loop env f s \<noteq> None"
proof (induction f arbitrary: s rule: length_induct)
  case (1 f)
  show ?case
  proof (cases "fgets f")
    case None
    then show ?thesis by (subst config_loop.simps) simp
  next
    case (Some x)
    then obtain l f1 where x: "fgets f = Some (l, f1)" by (cases x) auto
    have f1: "suffix f1 F" using fgets_suffix [OF x] 1(3) by (rule suffix_order.trans)
    have rec: "config_loop env f2 s \<noteq> None" if "suffix f2 f1" for f2 s
    proof -
      have "length f2 < length f" using suffix_length_le [OF that] fgets_length [OF x] by simp
      moreover have "suffix f2 F" using that f1 by (rule suffix_order.trans)
      ultimately show ?thesis using 1(1,2) by blast
    qed
    show ?thesis
    proof (cases "parserTokenize (Some (buf_str l))")
      case (Inl e)
      then show ?thesis using x by (subst config_loop.simps) simp
    next
      case (Inr t)
      note t = Inr
      note ft = from_text_line [OF x 1(3) t]
      show ?thesis
      proof (cases "hd l = PARSER_COMMENT \<or> hd l = NL")
        case True
        then show ?thesis using x t rec [of f1] by (subst config_loop.simps) simp
      next
        case False
        note so = sections_reads_on [OF f1 ft, of env s]
        show ?thesis
        proof (cases "sections env t f1 s")
          case (Inr o1)
          note o1 = Inr
          show ?thesis
          proof (cases o1)
            case (Go t1 f2 s1)
            then have r1: "suffix f2 f1" "from_text F t1" using so o1 by (auto simp: reads_on_result_def)
            note ni = no_import_token [OF 1(2) r1(2)]
            have st: "reads_on_result F f1 (stage ''theme'' (theme_section env) (Go t1 f2 s1))"
              by (rule stage_reads_on) (use r1 in \<open>auto intro: theme_reads_on\<close>)
            have fin: "(case o3 of Stop c s4 \<Rightarrow> Some (Inr (c, s4)) | Go t3 f3 s4 \<Rightarrow> config_loop env f3 s4) \<noteq> None"
              if "stage ''theme'' (theme_section env) (Go t1 f2 s1) = Inr o3" for o3
              using st that rec by (cases o3) (auto simp: reads_on_result_def)
            show ?thesis
              using fin x t False o1 Go ni
              by (subst config_loop.simps) (cases "stage ''theme'' (theme_section env) (Go t1 f2 s1)"; simp)
          qed (use x t False o1 in \<open>subst config_loop.simps, simp\<close>)
        qed (use x t False in \<open>subst config_loop.simps, simp\<close>)
      qed
    qed
  qed
qed


section \<open>Lines of words\<close>

definition word_ok :: "string \<Rightarrow> bool" where
  "word_ok w \<longleftrightarrow> w \<noteq> [] \<and> (\<forall>c\<in>set w. \<not> isspace c \<and> c \<noteq> NUL)"

fun print_line :: "string list \<Rightarrow> string" where
  "print_line [] = []"
| "print_line [w] = w @ [NL]"
| "print_line (w # v # ws) = w @ '' '' @ print_line (v # ws)"

lemma isspace_blank [simp]: "isspace CHR '' ''"
  by (simp add: char_defs)

lemma dropWhile_word: "word_ok w \<Longrightarrow> dropWhile isspace (w @ r) = w @ r"
  by (cases w) (auto simp: word_ok_def)

lemma takeWhile_word:
  "word_ok w \<Longrightarrow> isspace c \<Longrightarrow> takeWhile (\<lambda>c. \<not> isspace c) (w @ c # r) = w"
  "word_ok w \<Longrightarrow> isspace c \<Longrightarrow> dropWhile (\<lambda>c. \<not> isspace c) (w @ c # r) = c # r"
  by (auto simp: word_ok_def takeWhile_append dropWhile_append)

lemma tokenize_word:
  assumes "word_ok w" and "isspace c"
  shows "parserTokenize (Some (w @ c # r)) = Inr \<lparr>token = w, remainder = Some (dropWhile isspace r)\<rparr>"
  using assms by (simp add: parserTokenize_def Let_def dropWhile_word takeWhile_word)

lemma tokenize_Nil [simp]: "parserTokenize (Some []) = Inr \<lparr>token = [], remainder = None\<rparr>"
  by (simp add: parserTokenize_def)

lemma dropWhile_print: "\<forall>w\<in>set ws. word_ok w \<Longrightarrow> dropWhile isspace (print_line ws) = print_line ws"
  by (cases ws rule: print_line.cases) (simp_all add: dropWhile_word)

lemma tokenize_print:
  assumes "word_ok w" and "\<forall>v\<in>set ws. word_ok v"
  shows "parserTokenize (Some (print_line (w # ws))) = Inr \<lparr>token = w, remainder = Some (print_line ws)\<rparr>"
proof (cases ws)
  case Nil
  then show ?thesis using tokenize_word [OF assms(1), of NL "[]"] by simp
next
  case (Cons v vs)
  then show ?thesis
    using tokenize_word [OF assms(1), of "CHR '' ''" "print_line ws"] dropWhile_print [OF assms(2)] by simp
qed

lemma print_no_NUL: "\<forall>w\<in>set ws. word_ok w \<Longrightarrow> NUL \<notin> set (print_line ws)"
  by (induction ws rule: print_line.induct) (auto simp: word_ok_def)

lemma buf_str_print: "\<forall>w\<in>set ws. word_ok w \<Longrightarrow> buf_str (print_line ws) = print_line ws"
  unfolding buf_str_def takeWhile_eq_all_conv using print_no_NUL [of ws] by blast

lemma take_line_word:
  "NL \<notin> set w \<Longrightarrow> length w \<le> n \<Longrightarrow>
   take_line n (w @ r) = (let (l, r') = take_line (n - length w) r in (w @ l, r'))"
proof (induction w arbitrary: n)
  case (Cons c w)
  then show ?case by (cases n) (auto simp: take_line.simps split: prod.splits)
qed (simp split: prod.splits)

lemma word_ok_NL: "word_ok w \<Longrightarrow> NL \<notin> set w"
  unfolding word_ok_def using isspace_NL by blast

lemma take_line_print:
  "ws \<noteq> [] \<Longrightarrow> \<forall>w\<in>set ws. word_ok w \<Longrightarrow> length (print_line ws) \<le> n \<Longrightarrow>
   take_line n (print_line ws @ r) = (print_line ws, r)"
proof (induction ws arbitrary: n rule: print_line.induct)
  case (2 w)
  then have "take_line (n - length w) (NL # r) = ([NL], r)"
    by (cases "n - length w") (auto simp: take_line.simps)
  with 2 show ?case by (simp add: take_line_word word_ok_NL)
next
  case (3 w v ws)
  have "NL \<notin> set (w @ '' '')" using 3(3) word_ok_NL by simp
  then have "take_line n ((w @ '' '') @ print_line (v # ws) @ r) =
      (let (l, r') = take_line (n - length (w @ '' '')) (print_line (v # ws) @ r) in ((w @ '' '') @ l, r'))"
    using 3(4) by (intro take_line_word) auto
  also have "take_line (n - length (w @ '' '')) (print_line (v # ws) @ r) = (print_line (v # ws), r)"
    using 3(3,4) by (intro 3(1)) auto
  finally show ?case by simp
qed simp

definition line_ok :: "string list \<Rightarrow> bool" where
  "line_ok ws \<longleftrightarrow> ws \<noteq> [] \<and> (\<forall>w\<in>set ws. word_ok w) \<and> length (print_line ws) < PARSER_BUFFER_LEN"

lemma print_line_nonempty: "ws \<noteq> [] \<Longrightarrow> print_line ws \<noteq> []"
  by (cases ws rule: print_line.cases) auto

lemma fgets_print: "line_ok ws \<Longrightarrow> fgets (print_line ws @ r) = Some (print_line ws, r)"
  using take_line_print [of ws 1023 r] print_line_nonempty [of ws] by (auto simp: fgets_def line_ok_def)

lemma tokenize_line:
  "line_ok (w # ws) \<Longrightarrow>
   parserTokenize (Some (buf_str (print_line (w # ws)))) = Inr \<lparr>token = w, remainder = Some (print_line ws)\<rparr>"
  using tokenize_print [of w ws] by (simp add: line_ok_def buf_str_print)


section \<open>A file that imports itself\<close>

lemma sections_skip:
  "\<forall>kw\<in>{''general'', ''class'', ''client'', ''event'', ''state''}. \<not> strcaseeq (token t) kw \<Longrightarrow>
   sections env t f s = Inr (Go t f s)"
  by (simp add: sections_def stage_def)

lemma open_config_dir:
  assumes "PARSER_PATH_SEP \<in> set fname" and "fs_read (pe_fs env) fname = Some text" and "ps_imports s \<noteq> Freed"
  shows "\<exists>s1. open_config env fname s = Inr (Some text, s1) \<and> ps_imports s1 \<noteq> Freed"
  using assms by (cases "ps_imports s")
    (auto simp: open_config_def parserDirname_def parserImportStackAdd_def Let_def)

lemma import_not_section:
  "\<forall>kw\<in>{''general'', ''class'', ''client'', ''event'', ''state''}. \<not> strcaseeq ''import'' kw"
  by (simp add: strcaseeq_def char_defs)

lemma bindO_Some_conv: "bindO m g = Some y \<Longrightarrow> \<exists>z. m = Some z"
  by (cases m) auto

lemma self_import_loop:
  assumes line: "line_ok [''import'', fname]"
    and dir: "PARSER_PATH_SEP \<in> set fname"
    and contents: "fs_read (pe_fs env) fname = Some (print_line [''import'', fname] @ rest)"
  shows "ps_imports s \<noteq> Freed \<Longrightarrow> config_loop env (print_line [''import'', fname] @ rest) s = None"
proof (rule ccontr)
  assume st: "ps_imports s \<noteq> Freed"
  assume "config_loop env (print_line [''import'', fname] @ rest) s \<noteq> None"
  then obtain y where y: "config_loop env (print_line [''import'', fname] @ rest) s = Some y" by blast
  have "\<not> (env' = env \<and> f = print_line [''import'', fname] @ rest \<and> ps_imports s \<noteq> Freed)"
    if run: "config_loop env' f s = Some y" for env' f s y
  proof (rule config_loop.raw_induct [OF _ run], rule notI, elim conjE, goal_cases)
    case (1 loop env' f s y)
    obtain s1 where s1: "open_config env fname s = Inr (Some (print_line [''import'', fname] @ rest), s1)"
      "ps_imports s1 \<noteq> Freed" using open_config_dir [OF dir contents 1(5)] by blast
    have tok: "sections env \<lparr>token = ''import'', remainder = Some (print_line [fname])\<rparr> rest s =
        Inr (Go \<lparr>token = ''import'', remainder = Some (print_line [fname])\<rparr> rest s)" for s
      using sections_skip import_not_section by simp
    have hd: "hd (print_line [''import'', fname]) = CHR ''i''" by simp
    have tf: "parserTokenize (Some (print_line [fname])) = Inr \<lparr>token = fname, remainder = Some []\<rparr>"
      using tokenize_print [where w = fname and ws = "[]"] line by (simp add: line_ok_def)
    have "loop env (print_line [''import'', fname] @ rest) s1 \<noteq> None"
      using 1(2) 1(3,4) s1 tok hd tf tokenize_line [OF line] fgets_print [OF line, of rest]
      by (auto dest!: bindO_Some_conv simp del: print_line.simps)
    then show ?case using 1(1) s1(2) by blast
  qed
  with y st show False by blast
qed

text \<open>
  A configuration file whose first line imports the file itself, by a name with a directory, is
  never read to its end, whatever follows the line and whatever has been loaded before.
\<close>

theorem self_import_never_returns:
  assumes "line_ok [''import'', fname]" and "PARSER_PATH_SEP \<in> set fname"
    and "fs_read (pe_fs env) fname = Some (print_line [''import'', fname] @ rest)"
    and "ps_imports s \<noteq> Freed"
  shows "parserParseConfigFile env fname s = None"
  using open_config_dir [OF assms(2-4)] self_import_loop [OF assms(1-3)]
  by (auto simp: parserParseConfigFile_def)

theorem self_import_never_returns_witness:
  "parserParseConfigFile \<lparr>pe_fs = \<lparr>fs_read = (\<lambda>_. Some (print_line [''import'', ''/p''])), fs_dir = (\<lambda>_. None)\<rparr>,
     pe_host = None, pe_inet_aton = (\<lambda>_. None), pe_expat = (\<lambda>_. ([], True))\<rparr> ''/p'' parser_static = None"
  using self_import_never_returns [of "''/p''" _ "[]" parser_static]
  by (simp add: line_ok_def word_ok_def char_defs parser_static_def)

text \<open>
  C25.  Reading a configuration ends, with a result or a fault, when the word \<open>import\<close> does not occur in
  the file that is opened.
\<close>

theorem parserParseConfigFile_returns:
  assumes "\<And>c s1. open_config env fname s = Inr (Some c, s1) \<Longrightarrow> no_import c"
  shows "\<exists>r. parserParseConfigFile env fname s = Some r"
proof (cases "open_config env fname s")
  case (Inr x)
  then show ?thesis
    using assms config_loop_returns [of _ _ env] by (cases x) (auto simp: parserParseConfigFile_def split: option.split)
qed (simp add: parserParseConfigFile_def)

theorem parserParseConfigFile_returns_witness:
  "\<exists>r. parserParseConfigFile \<lparr>pe_fs = \<lparr>fs_read = (\<lambda>_. Some ''end''), fs_dir = (\<lambda>_. None)\<rparr>,
     pe_host = None, pe_inet_aton = (\<lambda>_. None), pe_expat = (\<lambda>_. ([], True))\<rparr> ''/p'' parser_static = Some r"
  by (rule parserParseConfigFile_returns)
     (simp add: open_config_def parserDirname_def parserImportStackAdd_def parser_static_def no_import_def char_defs)

section \<open>Reading a class section back\<close>

definition class_text :: "string list \<Rightarrow> (string \<times> string) list \<Rightarrow> string" where
  "class_text ports servers =
     print_line (''port'' # ports) @ print_line (''server'' # map (\<lambda>(h, p). h @ '':'' @ p) servers)
     @ print_line [''end'', ''class'']"

definition class_ok :: "string list \<Rightarrow> (string \<times> string) list \<Rightarrow> bool" where
  "class_ok ports servers \<longleftrightarrow>
     line_ok (''port'' # ports) \<and> line_ok (''server'' # map (\<lambda>(h, p). h @ '':'' @ p) servers)
     \<and> (\<forall>w\<in>set ports. \<not> is_comment w) \<and> (\<forall>(h, p)\<in>set servers. CHR '':'' \<notin> set h)"

definition add_ports :: "string list \<Rightarrow> server \<Rightarrow> server" where
  "add_ports ports sv =
     (if ports = [] then sv
      else sv\<lparr>broadcast_list := Ptr ((case broadcast_list sv of Ptr ps \<Rightarrow> ps | _ \<Rightarrow> [])
                @ map (\<lambda>w. sint (atoi w)) ports)\<rparr>)"

definition add_servers :: "penv \<Rightarrow> string \<Rightarrow> (string \<times> string) list \<Rightarrow> server \<Rightarrow> server" where
  "add_servers env cls servers sv =
     (let mine = filter (\<lambda>(h, p). parserIsMyClass env h) servers in
      if mine = [] then sv
      else sv\<lparr>sv_port := sint (atoi (Product_Type.snd (last mine))),
              id_string := Some ((case id_string sv of None \<Rightarrow> [] | Some i \<Rightarrow> i)
                @ concat (replicate (length mine) (cls @ PROT_CLASSDELIM)))\<rparr>)"

lemma add_ports_Cons:
  "broadcast_list sv \<noteq> Freed \<Longrightarrow>
   \<exists>r sv1. serverAddBroadcastPort True (sint (atoi w)) sv = Inr (r, sv1) \<and> broadcast_list sv1 \<noteq> Freed
     \<and> add_ports ws sv1 = add_ports (w # ws) sv"
  by (cases "broadcast_list sv"; cases sv) (auto simp: serverAddBroadcastPort_def add_ports_def)

lemma port_loop_print:
  "\<forall>w\<in>set ws. word_ok w \<and> \<not> is_comment w \<Longrightarrow> broadcast_list sv \<noteq> Freed \<Longrightarrow>
   port_loop \<lparr>token = t, remainder = Some (print_line ws)\<rparr> sv = Inr (\<lparr>token = [], remainder = None\<rparr>, add_ports ws sv)"
proof (induction ws arbitrary: t sv)
  case Nil
  then show ?case by (subst port_loop.simps) (simp add: is_comment_def add_ports_def)
next
  case (Cons w ws)
  obtain r sv1 where sv1: "serverAddBroadcastPort True (sint (atoi w)) sv = Inr (r, sv1)"
    "broadcast_list sv1 \<noteq> Freed" "add_ports ws sv1 = add_ports (w # ws) sv"
    using add_ports_Cons [OF Cons.prems(2)] by blast
  show ?case using Cons sv1 by (subst port_loop.simps) (simp add: tokenize_print)
qed

lemma split_server_print:
  assumes "CHR '':'' \<notin> set h"
  shows "split_server env cls \<lparr>token = h @ CHR '':'' # p, remainder = r\<rparr> sv =
    (\<lparr>token = h, remainder = r\<rparr>, add_servers env cls [(h, p)] sv)"
proof -
  have "takeWhile (\<lambda>c. c \<noteq> CHR '':'') (h @ CHR '':'' # p) = h"
    and "dropWhile (\<lambda>c. c \<noteq> CHR '':'') (h @ CHR '':'' # p) = CHR '':'' # p"
    using assms by (auto simp: takeWhile_append dropWhile_append)
  then show ?thesis
    by (cases "id_string sv"; cases sv)
       (simp_all add: split_server_def add_servers_def serverSetPort_def serverAddIDClass_def)
qed

lemma add_servers_Cons:
  "add_servers env cls servers (add_servers env cls [x] sv) = add_servers env cls (x # servers) sv"
  by (cases x; cases sv; cases "id_string sv") (auto simp: add_servers_def Let_def)

lemma server_loop_print:
  "\<forall>(h, p)\<in>set servers. word_ok (h @ '':'' @ p) \<and> CHR '':'' \<notin> set h \<Longrightarrow>
   server_loop env cls \<lparr>token = t, remainder = Some (print_line (map (\<lambda>(h, p). h @ '':'' @ p) servers))\<rparr> sv =
   Inr (\<lparr>token = [], remainder = None\<rparr>, add_servers env cls servers sv)"
proof (induction servers arbitrary: t sv)
  case Nil
  then show ?case by (subst server_loop.simps) (simp add: split_server_def add_servers_def)
next
  case (Cons x servers)
  obtain h p where x: "x = (h, p)" by (cases x)
  have "\<forall>w\<in>set (map (\<lambda>(h, p). h @ '':'' @ p) servers). word_ok w" using Cons.prems by auto
  then have "parserTokenize (Some (print_line (map (\<lambda>(h, p). h @ '':'' @ p) (x # servers)))) =
      Inr \<lparr>token = h @ '':'' @ p, remainder = Some (print_line (map (\<lambda>(h, p). h @ '':'' @ p) servers))\<rparr>"
    using tokenize_print [of "h @ '':'' @ p" "map (\<lambda>(h, p). h @ '':'' @ p) servers"] Cons.prems x by simp
  then show ?case
    using Cons x by (subst server_loop.simps) (simp add: split_server_print add_servers_Cons del: list.map)
qed

text \<open>
  C21.  A printed class section is read back: all its ports are appended to the broadcast ports; for every
  server entry that names this host the class is added to the identifier, and the last of them sets
  the server's port.  Exactly the section is consumed.
\<close>

theorem class_section_read_back:
  assumes "class_ok ports servers" and "broadcast_list (ps_sv s) \<noteq> Freed"
  shows "parserParseClass env cls (class_text ports servers @ rest) s =
    Inr (PARSER_SUCCESS, rest, s\<lparr>ps_sv := add_servers env cls servers (add_ports ports (ps_sv s))\<rparr>)"
proof -
  define sw where "sw = map (\<lambda>(h, p). h @ '':'' @ p) servers"
  let ?sv1 = "add_ports ports (ps_sv s)"
  have lp: "line_ok (''port'' # ports)" and ls: "line_ok (''server'' # sw)"
    and le: "line_ok [''end'', ''class'']"
    using assms(1) by (auto simp: class_ok_def sw_def line_ok_def word_ok_def char_defs)
  have kw: "\<not> is_comment ''port''" "\<not> is_comment ''server''" "\<not> is_comment ''end''"
    "\<not> strcaseeq [] ''server''" "\<not> strcaseeq [] ''end''" "\<not> strcaseeq ''server'' ''port''"
    "\<not> strcaseeq ''end'' ''port''" "\<not> strcaseeq ''end'' ''server''"
    by (auto simp: is_comment_def strcaseeq_def char_defs)
  have p: "port_loop \<lparr>token = ''port'', remainder = Some (print_line ports)\<rparr> (ps_sv s) =
      Inr (\<lparr>token = [], remainder = None\<rparr>, ?sv1)"
    using assms lp by (intro port_loop_print) (auto simp: class_ok_def line_ok_def)
  have q: "server_loop env cls \<lparr>token = ''server'', remainder = Some (print_line sw)\<rparr> ?sv1 =
      Inr (\<lparr>token = [], remainder = None\<rparr>, add_servers env cls servers ?sv1)"
    using assms ls unfolding sw_def by (intro server_loop_print) (auto simp: class_ok_def line_ok_def)
  have e: "parserTokenize (Some (print_line [''class''])) = Inr \<lparr>token = ''class'', remainder = Some []\<rparr>"
    using tokenize_print [of "''class''" "[]"] le by (simp add: line_ok_def)
  have 1: "parserParseClass env cls (class_text ports servers @ rest) s =
      parserParseClass env cls (print_line (''server'' # sw) @ print_line [''end'', ''class''] @ rest)
        (s\<lparr>ps_sv := ?sv1\<rparr>)"
    unfolding class_text_def append_assoc sw_def [symmetric]
    by (subst parserParseClass.simps)
       (simp add: fgets_print [OF lp] tokenize_line [OF lp] kw p end_of_def del: print_line.simps)
  have 2: "parserParseClass env cls (print_line (''server'' # sw) @ print_line [''end'', ''class''] @ rest)
        (s\<lparr>ps_sv := ?sv1\<rparr>) =
      parserParseClass env cls (print_line [''end'', ''class''] @ rest)
        (s\<lparr>ps_sv := add_servers env cls servers ?sv1\<rparr>)"
    by (subst parserParseClass.simps)
       (simp add: fgets_print [OF ls] tokenize_line [OF ls] kw q end_of_def del: print_line.simps)
  show ?thesis unfolding 1 2
    by (subst parserParseClass.simps)
       (simp add: fgets_print [OF le] tokenize_line [OF le] kw e end_of_def del: print_line.simps)
qed


theorem class_section_read_back_witness:
  "\<exists>s1. parserParseClass \<lparr>pe_fs = \<lparr>fs_read = (\<lambda>_. None), fs_dir = (\<lambda>_. None)\<rparr>,
       pe_host = Some \<lparr>h_name = ''nut'', h_aliases = [], h_addr_list = [4096]\<rparr>,
       pe_inet_aton = (\<lambda>_. None), pe_expat = (\<lambda>_. ([], True))\<rparr> ''web''
       (class_text [''2000'', ''2001''] [(''elm'', ''7''), (''NUT'', ''8'')] @ ''x'') parser_static =
     Inr (PARSER_SUCCESS, ''x'', s1) \<and> broadcast_list (ps_sv s1) = Ptr [2000, 2001] \<and>
     id_string (ps_sv s1) = Some ''web!'' \<and> sv_port (ps_sv s1) = 8"
proof -
  have "class_ok [''2000'', ''2001''] [(''elm'', ''7''), (''NUT'', ''8'')]"
    by (simp add: class_ok_def line_ok_def word_ok_def is_comment_def char_defs)
  moreover have "strcaseeq ''nut'' ''NUT''" by code_simp
  moreover have "\<not> strcaseeq ''nut'' ''elm''" by (simp add: strcaseeq_def char_defs)
  ultimately show ?thesis
    by (simp add: class_section_read_back parser_static_def add_ports_def add_servers_def parserIsMyClass_def
        char_defs atoi_def strtol_def)
qed

text \<open>
  A version line is never survived: a version of dots only is read through \<open>NULL\<close>, any other makes
  the server write behind its buffer.
\<close>

theorem version_line_faults:
  assumes "line_ok (''version'' # v # ws)"
  shows "parserParseGeneral (print_line (''version'' # v # ws) @ rest) s =
    Inl (if set v \<subseteq> {CHR ''.''} then NullDeref else OutOfBounds)"
proof -
  have "strcaseeq ''version'' ''version''" by simp
  moreover have "parserTokenize (Some (print_line (v # ws))) = Inr \<lparr>token = v, remainder = Some (print_line ws)\<rparr>"
    using assms by (intro tokenize_print) (auto simp: line_ok_def)
  ultimately show ?thesis
    by (subst parserParseGeneral.simps)
       (simp add: fgets_print [OF assms] tokenize_line [OF assms] version_line_def del: print_line.simps)
qed

theorem version_line_faults_witness:
  "parserParseGeneral (print_line [''version'', ''0.4.2''] @ ''end general'') parser_static = Inl OutOfBounds"
  using version_line_faults [of "''0.4.2''" "[]"] by (simp add: line_ok_def word_ok_def char_defs)

end
