(* ===== verification/Theme_Load.thy ===== *)
theory Theme_Load
  imports Xml_Theme Server_Events
begin

text \<open>
  What loading a theme does: which sounds the translation table finds, in which order, and that a
  document of sounds and events is loaded as by a loop over its events, ending in a read through
  \<open>NULL\<close> unless there are no sounds or some event uses the sound defined last.
\<close>

section \<open>The order of lookups\<close>

text \<open>The table after definitions of sounds with their paths, the last one at its head.\<close>

definition trans_entry :: "string \<Rightarrow> string \<times> string \<Rightarrow> trans_table" where
  "trans_entry sp = (\<lambda>(n, p). \<lparr>tt_name = Some n, tt_path = Some (sp @ p)\<rparr>)"

definition table_of :: "string \<Rightarrow> (string \<times> string) list \<Rightarrow> trans_table list" where
  "table_of sp ss = rev (map (trans_entry sp) ss)"

definition names_distinct :: "(string \<times> 'a) list \<Rightarrow> bool" where
  "names_distinct ss \<longleftrightarrow> distinct (map (\<lambda>(n, p). map tolower n) ss)"

text \<open>A sequence of lookups.\<close>

fun lookups :: "string list \<Rightarrow> parser \<Rightarrow> (string option list \<times> parser) result" where
  "lookups [] s = Inr ([], s)"
| "lookups (n # ns) s =
     bindE (xmlThemeLookupTransPath n s) (\<lambda>(p, s1).
     bindE (lookups ns s1) (\<lambda>(ps, s2). Inr (p # ps, s2)))"

lemma lookup_loop_hit:
  "\<forall>e\<in>set pre. \<exists>nm. tt_name e = Some nm \<and> \<not> strcaseeq nm name \<Longrightarrow>
   tt_name ent = Some nm \<Longrightarrow> strcaseeq nm name \<Longrightarrow> tt_path ent = Some path \<Longrightarrow>
   lookup_loop seen (pre @ ent # post) name =
     Inr (Some path, if seen @ pre = [] then [] else seen @ pre @ post)"
  by (induction pre arbitrary: seen) auto

lemma lookup_oldest:
  assumes "names_distinct ((n, p) # ss)"
  shows "xmlThemeLookupTransPath n (s\<lparr>ps_trans := table_of sp ((n, p) # ss)\<rparr>) =
    Inr (Some (sp @ p), s\<lparr>ps_trans := table_of sp ss\<rparr>)"
proof -
  have "\<forall>e\<in>set (table_of sp ss). \<exists>nm. tt_name e = Some nm \<and> \<not> strcaseeq nm n"
    using assms by (force simp: table_of_def trans_entry_def names_distinct_def strcaseeq_def)
  then have "lookup_loop [] (table_of sp ss @ trans_entry sp (n, p) # []) n =
      Inr (Some (sp @ p), if [] @ table_of sp ss = [] then [] else [] @ table_of sp ss @ [])"
    by (intro lookup_loop_hit [where nm = n]) (auto simp: trans_entry_def)
  then show ?thesis by (auto simp: xmlThemeLookupTransPath_def table_of_def)
qed

lemma lookup_newest:
  "xmlThemeLookupTransPath n (s\<lparr>ps_trans := table_of sp (ss @ [(n, p)])\<rparr>) =
    Inr (Some (sp @ p), s\<lparr>ps_trans := []\<rparr>)"
  by (simp add: xmlThemeLookupTransPath_def table_of_def trans_entry_def)

lemma lookups_empty: "lookups ns (s\<lparr>ps_trans := []\<rparr>) = Inr (map (\<lambda>_. None) ns, s\<lparr>ps_trans := []\<rparr>)"
  by (induction ns) (simp_all add: xmlThemeLookupTransPath_def)

lemma lookups_in_order:
  "names_distinct ss \<Longrightarrow> lookups (map fst ss) (s\<lparr>ps_trans := table_of sp ss\<rparr>) =
     Inr (map (\<lambda>(n, p). Some (sp @ p)) ss, s\<lparr>ps_trans := []\<rparr>)"
proof (induction ss)
  case (Cons x ss)
  then show ?case by (cases x) (auto simp: lookup_oldest names_distinct_def)
qed (simp add: table_of_def)

text \<open>
  The sounds of a theme are all found when they are looked up in the order of their definition, and
  the table is empty then; but once the sound defined last is looked up, no other is found any more.
\<close>

theorem theme_lookup_order:
  assumes "names_distinct (ss @ [(n, p)])"
  shows "lookups (map fst (ss @ [(n, p)])) (s\<lparr>ps_trans := table_of sp (ss @ [(n, p)])\<rparr>) =
      Inr (map (\<lambda>(n, p). Some (sp @ p)) (ss @ [(n, p)]), s\<lparr>ps_trans := []\<rparr>) \<and>
    lookups (n # ns) (s\<lparr>ps_trans := table_of sp (ss @ [(n, p)])\<rparr>) =
      Inr (Some (sp @ p) # map (\<lambda>_. None) ns, s\<lparr>ps_trans := []\<rparr>)"
  using lookups_in_order [OF assms] by (simp_all add: lookup_newest lookups_empty)

theorem theme_lookup_order_witness:
  "lookups [''b'', ''a''] (parser_static\<lparr>ps_trans := table_of ''/s/'' [(''a'', ''x''), (''b'', ''y'')]\<rparr>) =
     Inr ([Some ''/s/y'', None], parser_static\<lparr>ps_trans := []\<rparr>)"
  using theme_lookup_order [of "[(''a'', ''x'')]" "''b''" "''y''" "''/s/''" parser_static "[''a'']"]
  by (simp add: names_distinct_def char_defs)

section \<open>The callbacks of a theme\<close>

text \<open>White space between elements: nothing is left of it.\<close>

fun blank :: "xml_callback \<Rightarrow> bool" where
  "blank (XChar mem len) \<longleftrightarrow> createXmlNormalizedString mem len = Inr None"
| "blank cb \<longleftrightarrow> False"

lemma first_pass_blank: "blank cb \<Longrightarrow> first_pass cb x = Inr x"
  by (cases cb; cases x) (auto simp: xmlParseFirstPassChar_def)

lemma second_pass_blank: "blank cb \<Longrightarrow> second_pass fs cb x = Inr x"
  by (cases cb; cases x) (auto simp: xmlParseSecondPassChar_def)

lemma foldE_inert:
  "(\<And>x s. P x \<Longrightarrow> f x s = Inr s) \<Longrightarrow> foldE f xs s = foldE f (filter (\<lambda>x. \<not> P x) xs) s"
  by (induction xs arbitrary: s) (auto intro: bindE_cong)

definition sound_doc :: "string \<Rightarrow> string \<times> string \<Rightarrow> xml_callback list" where
  "sound_doc rest = (\<lambda>(n, p). XStart ''sound'' # xml_field ''name'' n rest @ xml_field ''path'' p rest @ [XEnd ''sound''])"

definition event_doc :: "string \<Rightarrow> string \<times> string \<Rightarrow> xml_callback list" where
  "event_doc rest = (\<lambda>(n, w). XStart ''event'' # xml_field ''name'' n rest @ xml_field ''sound'' w rest @ [XEnd ''event''])"

definition theme_doc :: "string \<Rightarrow> (string \<times> string) list \<Rightarrow> (string \<times> string) list \<Rightarrow> xml_callback list" where
  "theme_doc rest ss uses =
     [XStart ''theme'', XStart ''sounds''] @ concat (map (sound_doc rest) ss) @ [XEnd ''sounds'', XStart ''events'']
     @ concat (map (event_doc rest) uses) @ [XEnd ''events'', XEnd ''theme'']"

definition pairs_plain :: "(string \<times> string) list \<Rightarrow> bool" where
  "pairs_plain ss \<longleftrightarrow> (\<forall>(n, p)\<in>set ss. plain n \<and> n \<noteq> [] \<and> plain p \<and> p \<noteq> [])"

lemma theme_tags:
  "\<not> strcaseeq ''theme'' ''sounds''" "\<not> strcaseeq ''theme'' ''sound''" "\<not> strcaseeq ''theme'' ''states''"
  "\<not> strcaseeq ''theme'' ''state''" "\<not> strcaseeq ''theme'' ''events''" "\<not> strcaseeq ''theme'' ''event''"
  "\<not> strcaseeq ''sound'' ''sounds''" "\<not> strcaseeq ''sound'' ''theme''" "\<not> strcaseeq ''sound'' ''events''"
  "\<not> strcaseeq ''sound'' ''states''" "\<not> strcaseeq ''sound'' ''name''" "\<not> strcaseeq ''sound'' ''path''"
  "\<not> strcaseeq ''sound'' ''event''" "\<not> strcaseeq ''sound'' ''state''"
  "\<not> strcaseeq ''sounds'' ''theme''" "\<not> strcaseeq ''sounds'' ''events''" "\<not> strcaseeq ''sounds'' ''states''"
  "\<not> strcaseeq ''sounds'' ''event''" "\<not> strcaseeq ''sounds'' ''state''"
  "\<not> strcaseeq ''name'' ''sounds''" "\<not> strcaseeq ''name'' ''sound''" "\<not> strcaseeq ''name'' ''states''"
  "\<not> strcaseeq ''name'' ''theme''" "\<not> strcaseeq ''name'' ''events''" "\<not> strcaseeq ''name'' ''event''"
  "\<not> strcaseeq ''name'' ''path''" "\<not> strcaseeq ''name'' ''state''"
  "\<not> strcaseeq ''path'' ''sounds''" "\<not> strcaseeq ''path'' ''sound''" "\<not> strcaseeq ''path'' ''states''"
  "\<not> strcaseeq ''path'' ''theme''" "\<not> strcaseeq ''path'' ''events''" "\<not> strcaseeq ''path'' ''event''"
  "\<not> strcaseeq ''path'' ''name''" "\<not> strcaseeq ''path'' ''state''"
  "\<not> strcaseeq ''events'' ''sounds''" "\<not> strcaseeq ''events'' ''sound''" "\<not> strcaseeq ''events'' ''states''"
  "\<not> strcaseeq ''events'' ''theme''" "\<not> strcaseeq ''events'' ''state''" "\<not> strcaseeq ''events'' ''event''"
  "\<not> strcaseeq ''event'' ''sounds''" "\<not> strcaseeq ''event'' ''sound''" "\<not> strcaseeq ''event'' ''states''"
  "\<not> strcaseeq ''event'' ''theme''" "\<not> strcaseeq ''event'' ''state''" "\<not> strcaseeq ''event'' ''events''"
  by (simp_all add: strcaseeq_def char_defs)

lemmas first_defs = xmlParseFirstPassStart_def xmlParseFirstPassEnd_def xmlParseFirstPassChar_def
lemmas second_defs = xmlParseSecondPassStart_def xmlParseSecondPassEnd_def xmlParseSecondPassChar_def


lemma first_sound:
  assumes "fp_context i = SOUNDS_CONTEXT" and "fp_sound_path i = Ptr sp"
    and "plain n" "n \<noteq> []" "plain p" "p \<noteq> []"
  shows "foldE first_pass (sound_doc rest (n, p) @ cs) (i, s) =
    foldE first_pass cs (i\<lparr>fp_tag := ''path''\<rparr>, s\<lparr>ps_trans := trans_entry sp (n, p) # ps_trans s\<rparr>)"
  using assms normalize_plain [OF assms(3), of rest] normalize_plain [OF assms(5), of rest]
  by (cases i) (simp add: sound_doc_def xml_field_def first_defs theme_tags xmlThemeCreateTransEntry_def trans_entry_def)

lemma first_sounds:
  "fp_context i = SOUNDS_CONTEXT \<Longrightarrow> fp_sound_path i = Ptr sp \<Longrightarrow> pairs_plain ss \<Longrightarrow>
   \<exists>i1. foldE first_pass (concat (map (sound_doc rest) ss) @ cs) (i, s) =
     foldE first_pass cs (i1, s\<lparr>ps_trans := table_of sp ss @ ps_trans s\<rparr>) \<and>
     fp_context i1 = SOUNDS_CONTEXT \<and> fp_thresholds i1 = fp_thresholds i \<and> fp_sound_path i1 = Ptr sp"
proof (induction ss arbitrary: i s)
  case Nil
  then show ?case by (auto simp: table_of_def)
next
  case (Cons x ss)
  obtain n p where x: "x = (n, p)" by (cases x)
  let ?s1 = "s\<lparr>ps_trans := trans_entry sp (n, p) # ps_trans s\<rparr>"
  have "foldE first_pass (concat (map (sound_doc rest) (x # ss)) @ cs) (i, s) =
      foldE first_pass (concat (map (sound_doc rest) ss) @ cs) (i\<lparr>fp_tag := ''path''\<rparr>, ?s1)"
    using first_sound [OF Cons.prems(1,2), of n p rest] Cons.prems(3) x by (simp add: pairs_plain_def)
  then show ?case
    using Cons.IH [of "i\<lparr>fp_tag := ''path''\<rparr>" ?s1] Cons.prems x
    by (simp add: pairs_plain_def table_of_def)
qed

lemma first_event:
  assumes "fp_context i = NO_CONTEXT" and "plain n" "n \<noteq> []" "plain p" "p \<noteq> []"
  shows "foldE first_pass (event_doc rest (n, p) @ cs) (i, s) = foldE first_pass cs (i\<lparr>fp_tag := ''sound''\<rparr>, s)"
  using assms normalize_plain [OF assms(2), of rest] normalize_plain [OF assms(4), of rest]
  by (cases i) (simp add: event_doc_def xml_field_def first_defs theme_tags)

lemma first_events:
  "fp_context i = NO_CONTEXT \<Longrightarrow> pairs_plain uses \<Longrightarrow>
   \<exists>i1. foldE first_pass (concat (map (event_doc rest) uses) @ cs) (i, s) = foldE first_pass cs (i1, s) \<and>
     fp_context i1 = NO_CONTEXT \<and> fp_thresholds i1 = fp_thresholds i"
proof (induction uses arbitrary: i)
  case (Cons x uses)
  obtain n p where x: "x = (n, p)" by (cases x)
  show ?case
    using first_event [OF Cons.prems(1), of n p rest] Cons.prems x Cons.IH [of "i\<lparr>fp_tag := ''sound''\<rparr>"]
    by (simp add: pairs_plain_def)
qed auto

lemma first_pass_theme:
  assumes "ps_sound_path s = Ptr sp" and "ps_trans s = []" and "pairs_plain ss" and "pairs_plain uses"
  shows "\<exists>i1. foldE first_pass (theme_doc rest ss uses) (first_info_init (ps_sound_path s), s) =
      Inr (i1, s\<lparr>ps_trans := table_of sp ss\<rparr>)"
proof -
  let ?tl = "[XEnd ''events'', XEnd ''theme'']"
  let ?ev = "concat (map (event_doc rest) uses) @ ?tl"
  let ?i = "(first_info_init (Ptr sp))\<lparr>fp_tag := ''sounds'', fp_context := SOUNDS_CONTEXT\<rparr>"
  have 1: "foldE first_pass (theme_doc rest ss uses) (first_info_init (ps_sound_path s), s) =
      foldE first_pass (concat (map (sound_doc rest) ss) @ XEnd ''sounds'' # XStart ''events'' # ?ev) (?i, s)"
    using assms(1) by (simp add: theme_doc_def first_defs theme_tags first_info_init_def)
  obtain i1 where i1: "fp_context i1 = SOUNDS_CONTEXT" and
    2: "foldE first_pass (concat (map (sound_doc rest) ss) @ XEnd ''sounds'' # XStart ''events'' # ?ev) (?i, s) =
      foldE first_pass (XEnd ''sounds'' # XStart ''events'' # ?ev) (i1, s\<lparr>ps_trans := table_of sp ss\<rparr>)"
    using first_sounds [of ?i sp ss rest "XEnd ''sounds'' # XStart ''events'' # ?ev" s] assms
    by (auto simp: first_info_init_def)
  let ?j = "i1\<lparr>fp_tag := ''events'', fp_context := NO_CONTEXT\<rparr>"
  have 3: "foldE first_pass (XEnd ''sounds'' # XStart ''events'' # ?ev) (i1, s\<lparr>ps_trans := table_of sp ss\<rparr>) =
      foldE first_pass ?ev (?j, s\<lparr>ps_trans := table_of sp ss\<rparr>)"
    by (cases i1) (simp add: first_defs theme_tags)
  show ?thesis
    using first_events [of ?j uses rest ?tl "s\<lparr>ps_trans := table_of sp ss\<rparr>"] assms(4)
    unfolding 1 2 3 by (auto simp: first_defs theme_tags)
qed

section \<open>The second pass\<close>

text \<open>The loop over the events of a theme that the two passes amount to.\<close>

definition load_events :: "filesys \<Rightarrow> (string \<times> string) list \<Rightarrow> parser \<Rightarrow> parser result" where
  "load_events fs = foldE (\<lambda>(n, w) s.
     bindE (xmlThemeLookupTransPath w s) (\<lambda>(p, s1).
     case p of None \<Rightarrow> Inr s1
     | Some path \<Rightarrow> bindE (parserLoadEventSndDir fs n path s1) (\<lambda>(r, s2). Inr s2)))"

lemma second_sound:
  assumes "sp_context i = NO_CONTEXT" and "plain n" "n \<noteq> []" "plain p" "p \<noteq> []"
  shows "foldE (second_pass fs) (sound_doc rest (n, p) @ cs) (i, s) =
    foldE (second_pass fs) cs (i\<lparr>sp_tag := ''path''\<rparr>, s)"
  using assms normalize_plain [OF assms(2), of rest] normalize_plain [OF assms(4), of rest]
  by (cases i) (simp add: sound_doc_def xml_field_def second_defs theme_tags)

lemma second_sounds:
  "sp_context i = NO_CONTEXT \<Longrightarrow> pairs_plain ss \<Longrightarrow>
   \<exists>t. foldE (second_pass fs) (concat (map (sound_doc rest) ss) @ cs) (i, s) =
     foldE (second_pass fs) cs (i\<lparr>sp_tag := t\<rparr>, s)"
proof (induction ss arbitrary: i)
  case Nil
  show ?case by (rule exI [of _ "sp_tag i"]) simp
next
  case (Cons x ss)
  obtain n p where x: "x = (n, p)" by (cases x)
  show ?case
    using second_sound [OF Cons.prems(1), of n p fs rest] Cons.prems x Cons.IH [of "i\<lparr>sp_tag := ''path''\<rparr>"]
    by (auto simp: pairs_plain_def)
qed

lemma second_event:
  assumes "sp_context i = EVENT_CONTEXT" and "plain n" "n \<noteq> []" "plain w" "w \<noteq> []"
  shows "foldE (second_pass fs) (event_doc rest (n, w) @ cs) (i, s) =
    bindE (xmlThemeLookupTransPath w s) (\<lambda>(p, s1).
    bindE (case p of None \<Rightarrow> Inr (1, s1) | Some path \<Rightarrow> parserLoadEventSndDir fs n path s1) (\<lambda>(r, s2).
    foldE (second_pass fs) cs (if r = 0 then i\<lparr>sp_tag := ''sound'', sp_name := Some n, sp_path := p\<rparr>
      else i\<lparr>sp_tag := ''sound'', sp_name := None, sp_path := None\<rparr>, s2)))"
  using assms normalize_plain [OF assms(2), of rest] normalize_plain [OF assms(4), of rest]
  by (cases i) (auto simp: event_doc_def xml_field_def second_defs theme_tags bindE_assoc
    intro!: bindE_cong split: option.split)

lemma second_events:
  "sp_context i = EVENT_CONTEXT \<Longrightarrow> pairs_plain uses \<Longrightarrow>
   bindE (foldE (second_pass fs) (concat (map (event_doc rest) uses) @ [XEnd ''events'', XEnd ''theme'']) (i, s))
     (\<lambda>(i2, s2). K s2) = bindE (load_events fs uses s) K"
proof (induction uses arbitrary: i s)
  case Nil
  then show ?case by (simp add: second_defs theme_tags load_events_def)
next
  case (Cons x uses)
  obtain n w where x: "x = (n, w)" by (cases x)
  let ?cs = "concat (map (event_doc rest) uses) @ [XEnd ''events'', XEnd ''theme'']"
  have "foldE (second_pass fs) (concat (map (event_doc rest) (x # uses)) @ [XEnd ''events'', XEnd ''theme'']) (i, s) =
      foldE (second_pass fs) (event_doc rest (n, w) @ ?cs) (i, s)" using x by simp
  also note second_event [OF Cons.prems(1)]
  finally show ?case
    using Cons.prems x Cons.IH
    by (auto simp: pairs_plain_def load_events_def bindE_assoc intro!: bindE_cong split: option.split)
qed

text \<open>
  What is left of the translation table.  Only the lookup of its head, the sound defined last,
  takes the head away, and the whole table with it.
\<close>

lemma lookup_keeps_head: "lookup_loop (ent # seen) es w = Inr (p, t) \<Longrightarrow> \<exists>r. t = ent # r"
  by (induction es arbitrary: seen) (auto split: option.splits if_splits)

lemma lookup_head:
  assumes "xmlThemeLookupTransPath w s = Inr (p, s1)" and "ps_trans s = ent # es" and "tt_name ent = Some nm"
  shows "if strcaseeq nm w then ps_trans s1 = [] else \<exists>r. ps_trans s1 = ent # r"
  using assms lookup_keeps_head [of ent "[]" es w]
  by (auto simp: xmlThemeLookupTransPath_def bindE_eq_Inr_iff split: option.splits)

lemma lookup_none: "xmlThemeLookupTransPath w s = Inr (p, s1) \<Longrightarrow> ps_trans s = [] \<Longrightarrow> ps_trans s1 = []"
  by (auto simp: xmlThemeLookupTransPath_def)

lemma load_dir_trans: "parserLoadEventSndDir fs n path s = Inr (r, s1) \<Longrightarrow> ps_trans s1 = ps_trans s"
  by (auto simp: parserLoadEventSndDir_def Let_def bindE_def split: option.splits if_splits sum.splits)

lemma load_events_Cons:
  assumes "load_events fs ((n, w) # uses) s = Inr s2"
  shows "\<exists>p s1 s1'. xmlThemeLookupTransPath w s = Inr (p, s1) \<and> ps_trans s1' = ps_trans s1 \<and>
    load_events fs uses s1' = Inr s2"
  using assms load_dir_trans
  by (fastforce simp: load_events_def bindE_eq_Inr_iff split: option.splits)

lemma load_events_none: "load_events fs uses s = Inr s2 \<Longrightarrow> ps_trans s = [] \<Longrightarrow> ps_trans s2 = []"
proof (induction uses arbitrary: s)
  case Nil
  then show ?case by (simp add: load_events_def)
next
  case (Cons u uses)
  obtain n w where u: "u = (n, w)" by (cases u)
  from load_events_Cons [OF Cons.prems(1) [unfolded u]] lookup_none Cons.prems(2) Cons.IH show ?case by metis
qed

lemma load_events_head:
  assumes "load_events fs uses s = Inr s2" and "ps_trans s = ent # es" and "tt_name ent = Some nm"
  shows "ps_trans s2 = [] \<longleftrightarrow> (\<exists>u\<in>set uses. strcaseeq nm (snd u))"
  using assms(1,2)
proof (induction uses arbitrary: s es)
  case Nil
  then show ?case by (simp add: load_events_def)
next
  case (Cons u uses)
  obtain n w where u: "u = (n, w)" by (cases u)
  from load_events_Cons [OF Cons.prems(1) [unfolded u]] obtain p s1 s1' where
    1: "xmlThemeLookupTransPath w s = Inr (p, s1)" "ps_trans s1' = ps_trans s1" "load_events fs uses s1' = Inr s2"
    by blast
  show ?case
  proof (cases "strcaseeq nm w")
    case True
    with lookup_head [OF 1(1) Cons.prems(2) assms(3)] load_events_none [OF 1(3)] 1(2) show ?thesis by (simp add: u)
  next
    case False
    with lookup_head [OF 1(1) Cons.prems(2) assms(3)] 1(2) obtain r where "ps_trans s1' = ent # r" by auto
    with Cons.IH [OF 1(3)] False show ?thesis by (simp add: u)
  qed
qed

text \<open>No sounds, or some event uses the one defined last.\<close>

definition last_used :: "(string \<times> string) list \<Rightarrow> (string \<times> string) list \<Rightarrow> bool" where
  "last_used ss uses \<longleftrightarrow> ss = [] \<or> list_ex (\<lambda>u. strcaseeq (fst (last ss)) (snd u)) uses"

lemma load_events_empties:
  assumes "load_events fs uses (s\<lparr>ps_trans := table_of sp ss\<rparr>) = Inr s2"
  shows "ps_trans s2 = [] \<longleftrightarrow> last_used ss uses"
proof (cases ss rule: rev_cases)
  case Nil
  with load_events_none [OF assms] show ?thesis by (simp add: last_used_def table_of_def)
next
  case (snoc ss' x)
  obtain n p where "x = (n, p)" by (cases x)
  with snoc load_events_head [OF assms, of "trans_entry sp (n, p)" "table_of sp ss'" n] show ?thesis
    by (auto simp: last_used_def table_of_def trans_entry_def list_ex_iff)
qed

text \<open>
  C24.  A theme of sounds and events, with any white space between its elements, their texts words in one
  piece, the parser's translation table being empty before: it is loaded as by a loop over its events
  that looks each sound up and loads the directory found.  When that loop returns, the server accepts
  the theme if it defines no sound or if some event uses the sound defined last, whether or not the
  others are used (the lookup of the sound defined last loses them); in every other case it ends in a
  read through \<open>NULL\<close>.
\<close>

theorem theme_load_equivalence:
  assumes "filter (\<lambda>cb. \<not> blank cb) cbs = theme_doc rest ss uses"
    and "expat xml = (cbs, True)" and "pairs_plain ss" and "pairs_plain uses"
    and "ps_sound_path s = Ptr sp" and "ps_trans s = []"
  shows "xmlParseTheme expat fs xml s =
    bindE (load_events fs uses (s\<lparr>ps_trans := table_of sp ss\<rparr>)) (\<lambda>s2.
    if last_used ss uses then Inr (XML_PARSER_SUCCESS, s2) else Inl NullDeref)"
proof -
  let ?s1 = "s\<lparr>ps_trans := table_of sp ss\<rparr>"
  have f1: "foldE first_pass cbs x = foldE first_pass (theme_doc rest ss uses) x" for x
    using foldE_inert [of blank first_pass cbs x, OF first_pass_blank] assms(1) by simp
  have f2: "foldE (second_pass fs) cbs x = foldE (second_pass fs) (theme_doc rest ss uses) x" for x
    using foldE_inert [of blank "second_pass fs" cbs x, OF second_pass_blank] assms(1) by simp
  obtain i1 where i1: "foldE first_pass (theme_doc rest ss uses) (first_info_init (ps_sound_path s), s) = Inr (i1, ?s1)"
    using first_pass_theme [OF assms(5,6,3,4)] by blast
  let ?i = "second_info_init (fp_thresholds i1)"
  let ?ev = "concat (map (event_doc rest) uses) @ [XEnd ''events'', XEnd ''theme'']"
  obtain t where "foldE (second_pass fs) (theme_doc rest ss uses) (?i, ?s1) =
      foldE (second_pass fs) (XEnd ''sounds'' # XStart ''events'' # ?ev) (?i\<lparr>sp_tag := t\<rparr>, ?s1)"
    using second_sounds [of "?i\<lparr>sp_tag := ''sounds''\<rparr>" ss fs rest "XEnd ''sounds'' # XStart ''events'' # ?ev" ?s1] assms(3)
    by (auto simp: theme_doc_def second_defs theme_tags second_info_init_def)
  also have "\<dots> = foldE (second_pass fs) ?ev (?i\<lparr>sp_tag := ''events'', sp_context := EVENT_CONTEXT\<rparr>, ?s1)"
    by (simp add: second_defs theme_tags second_info_init_def)
  finally have 2: "bindE (foldE (second_pass fs) (theme_doc rest ss uses) (?i, ?s1)) (\<lambda>(i2, s2). K s2) =
      bindE (load_events fs uses ?s1) K" for K :: "parser \<Rightarrow> (int \<times> parser) result"
    using second_events [OF _ assms(4), of _ fs rest ?s1 K] by simp
  have "xmlParseTheme expat fs xml s = bindE (load_events fs uses ?s1)
      (\<lambda>s2. if ps_trans s2 = [] then Inr (XML_PARSER_SUCCESS, s2) else Inl NullDeref)"
    using 2 [of "\<lambda>s2. bindE (free_trans (ps_trans s2)) (\<lambda>tab. Inr (XML_PARSER_SUCCESS, s2\<lparr>ps_trans := tab\<rparr>))"] assms(2)
    by (auto simp: xmlParseTheme_def f1 f2 i1 free_trans_def intro!: bindE_cong)
  then show ?thesis using load_events_empties by (auto intro!: bindE_cong)
qed

text \<open>A theme with two sounds and an event that uses one of them.\<close>

definition sample_theme :: "string \<Rightarrow> string" where
  "sample_theme w = ''<theme><sounds><sound><name>a</name><path>x</path></sound>'' @ [NL] @
     ''<sound><name>b</name><path>y</path></sound></sounds><events><event><name>e</name><sound>'' @ w @
     ''</sound></event></events></theme>''"

definition theme_callbacks :: "string \<Rightarrow> xml_callback list" where
  "theme_callbacks w = [XStart ''theme'', XStart ''sounds''] @ sound_doc ''<'' (''a'', ''x'') @ [XChar [NL, CHR ''<''] 1]
     @ sound_doc ''<'' (''b'', ''y'') @ [XEnd ''sounds'', XStart ''events''] @ event_doc ''<'' (''e'', w)
     @ [XEnd ''events'', XEnd ''theme'']"

definition theme_expat :: "string \<Rightarrow> xml_callback list \<times> bool" where
  "theme_expat xml = (if xml = sample_theme ''a'' then (theme_callbacks ''a'', True)
     else if xml = sample_theme ''b'' then (theme_callbacks ''b'', True) else ([], False))"

definition theme_files :: filesys where
  "theme_files = \<lparr>fs_read = (\<lambda>p. if p = ''/s/y/k'' then Some ''ab'' else None),
     fs_dir = (\<lambda>p. if p = ''/s/y'' then Some [''.'', ''..'', ''k''] else None)\<rparr>"

theorem theme_load_equivalence_witness:
  "(\<exists>tab. xmlParseTheme theme_expat theme_files (sample_theme ''b'')
       (parser_static\<lparr>ps_sound_path := Ptr ''/s/'', ps_w := world_static\<lparr>stable := fresh_table\<rparr>\<rparr>) =
     Inr (XML_PARSER_SUCCESS, parser_static\<lparr>ps_sound_path := Ptr ''/s/'', ps_event_cnt := 1,
       ps_w := world_static\<lparr>stable := tab\<rparr>\<rparr>) \<and>
     engineSoundTableRetrieve ''e'' tab = Inr (Some \<lparr>se_name = ''e'',
       se_data = EventData \<lparr>snds = [Some [0x6261]], lens = [1], snd_cnt = 1\<rparr>, se_type = EVENT_T\<rparr>)) \<and>
   xmlParseTheme theme_expat theme_files (sample_theme ''a'')
       (parser_static\<lparr>ps_sound_path := Ptr ''/s/'', ps_w := world_static\<lparr>stable := fresh_table\<rparr>\<rparr>) =
     Inl NullDeref"
proof -
  let ?s = "parser_static\<lparr>ps_sound_path := Ptr ''/s/'', ps_w := world_static\<lparr>stable := fresh_table\<rparr>\<rparr>"
  let ?ss = "[(''a'', ''x''), (''b'', ''y'')]"
  let ?e = "\<lparr>se_name = ''e'', se_data = EventData \<lparr>snds = [Some [0x6261]], lens = [1], snd_cnt = 1\<rparr>,
    se_type = EVENT_T\<rparr>"
  have nl: "createXmlNormalizedString [NL, CHR ''<''] 1 = Inr None"
    by (simp add: createXmlNormalizedString_def norm_loop.simps aget_def push_def cstring_def)
  have one: "createXmlNormalizedString [c, CHR ''<''] 1 = Inr (Some [c])" if "plain [c]" for c
    using normalize_plain [OF that, of "''<''"] by simp
  have doc: "filter (\<lambda>cb. \<not> blank cb) (theme_callbacks [c]) = theme_doc ''<'' ?ss [(''e'', [c])]" if "plain [c]" for c
    using nl one [OF that] one [of "CHR ''a''"] one [of "CHR ''b''"] one [of "CHR ''e''"] one [of "CHR ''x''"]
      one [of "CHR ''y''"]
    by (simp add: theme_callbacks_def theme_doc_def sound_doc_def event_doc_def xml_field_def plain_def)
  have ex: "theme_expat (sample_theme ''a'') = (theme_callbacks ''a'', True)"
    "theme_expat (sample_theme ''b'') = (theme_callbacks ''b'', True)"
    by (simp_all add: theme_expat_def sample_theme_def)
  have run: "xmlParseTheme theme_expat theme_files (sample_theme [c]) ?s =
      bindE (load_events theme_files [(''e'', [c])] (?s\<lparr>ps_trans := table_of ''/s/'' ?ss\<rparr>)) (\<lambda>s2.
      if strcaseeq ''b'' [c] then Inr (XML_PARSER_SUCCESS, s2) else Inl NullDeref)" if "c \<in> set ''ab''" for c
    using ex doc [of c] that
    by (subst theme_load_equivalence [of "theme_callbacks [c]" "''<''" ?ss "[(''e'', [c])]" _ _ _ "''/s/''"])
      (auto simp: pairs_plain_def parser_static_def last_used_def plain_def)
  have look: "xmlThemeLookupTransPath ''b'' (?s\<lparr>ps_trans := table_of ''/s/'' ?ss\<rparr>) = Inr (Some ''/s/y'', ?s\<lparr>ps_trans := []\<rparr>)"
    "xmlThemeLookupTransPath ''a'' (?s\<lparr>ps_trans := table_of ''/s/'' ?ss\<rparr>) =
       Inr (Some ''/s/x'', ?s\<lparr>ps_trans := table_of ''/s/'' [(''b'', ''y'')]\<rparr>)"
    by (simp_all add: xmlThemeLookupTransPath_def table_of_def trans_entry_def strcaseeq_def char_defs)
  have dots: "dot_name ''..''" "dot_name ''.''" "\<not> dot_name ''k''"
    by (simp_all add: dot_name_def strcaseeq_def char_defs)
  obtain tab where tab: "engineSoundTableInsert ?e fresh_table = Inr (ENGINE_SUCCESS, tab)"
      "engineSoundTableRetrieve ''e'' tab = Inr (Some ?e)"
    using st.ins_vacant [OF initial_table(1), of ?e] by (auto simp: fresh_vacant hash_eval)
  have "parserScanDir theme_files ''/s/y'' = Some [''k'', ''..'', ''.'']"
    by (simp add: parserScanDir_def theme_files_def code_def insort_key.simps sort_key_def)
  then have "parserLoadEventSndDir theme_files ''e'' ''/s/y'' (?s\<lparr>ps_trans := []\<rparr>) = Inr (PARSER_SUCCESS,
      parser_static\<lparr>ps_sound_path := Ptr ''/s/'', ps_event_cnt := 1, ps_w := world_static\<lparr>stable := tab\<rparr>\<rparr>)"
    using tab(1) dots by (simp add: parserLoadEventSndDir_def engineAllocEventEntry_def theme_files_def
      parserLoadSoundFile_def parserGetFileSize_def engineEventEntryAssignSnd_def engineSoundTableInsertEvent_def
      aset_def Let_def code_def parser_static_def world_static_def)
  moreover have "parserLoadEventSndDir theme_files ''e'' ''/s/x'' s' = Inr (0, s')" for s'
    by (simp add: parserLoadEventSndDir_def parserScanDir_def theme_files_def)
  ultimately show ?thesis
    using run [of "CHR ''b''"] run [of "CHR ''a''"] look tab(2)
    by (intro conjI exI [of _ tab]) (simp_all add: load_events_def strcaseeq_def char_defs)
qed

end
