(* ===== verification/Sound_Load.thy ===== *)
theory Sound_Load
  imports Config_File Theme_Load
begin

text \<open>
  Loading sounds: an event or state section of a configuration puts exactly the sounds of its
  directories, in the order of their names, into the sound table and the mixer, and the thresholds
  of a state divide the range of its volume.
\<close>

section \<open>The sounds of a directory\<close>

text \<open>
  A directory as the loader needs it: it can be listed, two of its entries are the directory itself and
  its parent, and the others can be read.  Its sounds in the order of the names.
\<close>

definition sound_names :: "filesys \<Rightarrow> string \<Rightarrow> string list" where
  "sound_names fs dir =
     (case fs_dir fs dir of None \<Rightarrow> [] | Some es \<Rightarrow> filter (\<lambda>nm. \<not> dot_name nm) (sort_key (map code) es))"

definition readable :: "filesys \<Rightarrow> string \<Rightarrow> string \<Rightarrow> bool" where
  "readable fs dir nm \<longleftrightarrow> fs_read fs (dir @ ''/'' @ nm) \<noteq> None"

definition listable :: "filesys \<Rightarrow> string \<Rightarrow> bool" where
  "listable fs dir \<longleftrightarrow> (\<exists>es. fs_dir fs dir = Some es \<and> length (filter dot_name es) = 2)"

definition dir_sounds :: "filesys \<Rightarrow> string \<Rightarrow> samples list" where
  "dir_sounds fs dir = map (\<lambda>nm. the (parserLoadSoundFile fs (dir @ ''/'' @ nm))) (sound_names fs dir)"

lemma load_readable:
  "readable fs dir nm \<longleftrightarrow> (\<exists>smp. parserLoadSoundFile fs (dir @ CHR ''/'' # nm) = Some smp)"
  by (auto simp: readable_def parserLoadSoundFile_def split: option.splits)

lemma scan_listable:
  assumes "listable fs dir"
  shows "\<exists>nl. parserScanDir fs dir = Some nl \<and> sound_names fs dir = filter (\<lambda>nm. \<not> dot_name nm) (rev nl)
    \<and> length nl = length (sound_names fs dir) + 2"
proof -
  obtain es where es: "fs_dir fs dir = Some es" "length (filter dot_name es) = 2"
    using assms by (auto simp: listable_def)
  have "mset (filter (\<lambda>nm. \<not> dot_name nm) (sort_key (map code) es)) = mset (filter (\<lambda>nm. \<not> dot_name nm) es)"
    by (simp add: mset_filter)
  then have "length (sound_names fs dir) = length (filter (\<lambda>nm. \<not> dot_name nm) es)"
    using es(1) mset_eq_length by (fastforce simp: sound_names_def)
  then have "length es = length (sound_names fs dir) + 2"
    using sum_length_filter_compl [of dot_name es] es(2) by simp
  then show ?thesis using es(1) by (simp add: parserScanDir_def sound_names_def)
qed

section \<open>Events\<close>

definition event_entry :: "samples list \<Rightarrow> EVENT_ENTRY" where
  "event_entry smps = \<lparr>snds = map Some smps, lens = map (\<lambda>x. of_nat (length x)) smps, snd_cnt = of_nat (length smps)\<rparr>"

definition part_entry :: "nat \<Rightarrow> samples list \<Rightarrow> EVENT_ENTRY" where
  "part_entry n smps = \<lparr>snds = map Some smps @ replicate (n - length smps) None,
     lens = map (\<lambda>x. of_nat (length x)) smps @ replicate (n - length smps) 0, snd_cnt = of_nat n\<rparr>"

lemma replicate_update:
  "length xs < n \<Longrightarrow> (xs @ replicate (n - length xs) z)[length xs := v] = (xs @ [v]) @ replicate (n - Suc (length xs)) z"
  by (cases "n - length xs") (auto simp: list_update_append)

lemma assign_part:
  assumes "length smps < n"
  shows "engineEventEntryAssignSnd (Some (part_entry n smps)) (int (length smps)) (Some smp) (of_nat (length smp)) =
    Inr (ENGINE_SUCCESS, Some (part_entry n (smps @ [smp])))"
  using replicate_update [of "map Some smps" n "None" "Some smp"] assms
    replicate_update [of "map (\<lambda>x. of_nat (length x)) smps" n "0" "of_nat (length smp)"]
  by (simp add: engineEventEntryAssignSnd_def part_entry_def)

lemma event_dir_loop_loads:
  "\<forall>nm\<in>set (filter (\<lambda>nm. \<not> dot_name nm) ns). readable fs dir nm \<Longrightarrow>
   length smps + length (filter (\<lambda>nm. \<not> dot_name nm) ns) \<le> n \<Longrightarrow>
   event_dir_loop fs dir ns (int (length smps)) (Some (part_entry n smps)) =
   Inr (Some (Some (part_entry n (smps @ map (\<lambda>nm. the (parserLoadSoundFile fs (dir @ ''/'' @ nm)))
     (filter (\<lambda>nm. \<not> dot_name nm) ns)))))"
proof (induction ns arbitrary: smps)
  case (Cons nm ns)
  show ?case
  proof (cases "dot_name nm")
    case False
    then obtain smp where smp: "parserLoadSoundFile fs (dir @ CHR ''/'' # nm) = Some smp"
      using Cons.prems(1) load_readable by auto
    have "length smps < n" using Cons.prems(2) False by simp
    then show ?thesis
      using Cons.IH [of "smps @ [smp]"] Cons.prems False smp assign_part [of smps n smp]
      by (simp add: algebra_simps)
  qed (use Cons in simp)
qed simp

lemma event_dir_loop_fails:
  "\<not> (\<forall>nm\<in>set (filter (\<lambda>nm. \<not> dot_name nm) ns). readable fs dir nm) \<Longrightarrow>
   length smps + length (filter (\<lambda>nm. \<not> dot_name nm) ns) \<le> n \<Longrightarrow>
   event_dir_loop fs dir ns (int (length smps)) (Some (part_entry n smps)) = Inr None"
proof (induction ns arbitrary: smps)
  case (Cons nm ns)
  show ?case
  proof (cases "dot_name nm")
    case False
    show ?thesis
    proof (cases "parserLoadSoundFile fs (dir @ CHR ''/'' # nm)")
      case (Some smp)
      then have "readable fs dir nm" using load_readable by blast
      moreover have "length smps < n" using Cons.prems(2) False by simp
      ultimately show ?thesis
        using Cons.IH [of "smps @ [smp]"] Cons.prems False Some assign_part [of smps n smp]
        by (auto simp: algebra_simps)
    qed (use False in simp)
  qed (use Cons in auto)
qed simp

definition loadable :: "filesys \<Rightarrow> string \<Rightarrow> bool" where
  "loadable fs dir \<longleftrightarrow> listable fs dir \<and> (\<forall>nm\<in>set (sound_names fs dir). readable fs dir nm)"

definition loaded_event :: "filesys \<Rightarrow> string \<Rightarrow> string \<Rightarrow> sound_entry" where
  "loaded_event fs name dir =
     \<lparr>se_name = name, se_data = EventData (event_entry (dir_sounds fs dir)), se_type = EVENT_T\<rparr>"

lemma load_event_dir:
  assumes "listable fs dir \<or> fs_dir fs dir = None" and "table_wf (stable (ps_w s))"
  shows "if \<not> loadable fs dir then parserLoadEventSndDir fs name dir s = Inr (0, s)
    else if \<not> hashable name then parserLoadEventSndDir fs name dir s = Inl OutOfBounds
    else \<exists>tab. parserLoadEventSndDir fs name dir s =
        Inr (PARSER_SUCCESS, s\<lparr>ps_event_cnt := ps_event_cnt s + 1, ps_w := (ps_w s)\<lparr>stable := tab\<rparr>\<rparr>) \<and>
      table_wf tab \<and>
      (\<forall>k. engineSoundTableRetrieve k tab = found_after (loaded_event fs name dir) (stable (ps_w s)) k)"
proof (cases "listable fs dir")
  case True
  from scan_listable [OF True] obtain nl where nl: "parserScanDir fs dir = Some nl"
    "sound_names fs dir = filter (\<lambda>nm. \<not> dot_name nm) (rev nl)" "length nl = length (sound_names fs dir) + 2"
    by blast
  let ?n = "length (sound_names fs dir)" and ?e = "loaded_event fs name dir"
  have alloc: "engineAllocEventEntry True ?n = Some (part_entry ?n [])"
    by (simp add: engineAllocEventEntry_def part_entry_def)
  have len: "length (dir_sounds fs dir) = ?n" by (simp add: dir_sounds_def)
  have full: "part_entry ?n (dir_sounds fs dir) = event_entry (dir_sounds fs dir)"
    by (simp add: part_entry_def event_entry_def len)
  show ?thesis
  proof (cases "loadable fs dir")
    case True
    then have "event_dir_loop fs dir (rev nl) 0 (Some (part_entry ?n [])) =
        Inr (Some (Some (event_entry (dir_sounds fs dir))))"
      using event_dir_loop_loads [of "rev nl" fs dir "[]" ?n] nl(2) full by (simp add: dir_sounds_def loadable_def)
    then have run: "parserLoadEventSndDir fs name dir s =
        bindE (engineSoundTableInsert ?e (stable (ps_w s))) (\<lambda>(rc, tab).
        Inr (PARSER_SUCCESS, s\<lparr>ps_event_cnt := ps_event_cnt s + 1, ps_w := (ps_w s)\<lparr>stable := tab\<rparr>\<rparr>))"
      using nl(1,3) alloc
      by (simp add: parserLoadEventSndDir_def engineSoundTableInsertEvent_def loaded_event_def Let_def)
    have "se_name ?e = name" by (simp add: loaded_event_def)
    with insert_outcome [OF assms(2), of ?e] True show ?thesis
      unfolding run by (cases "hashable name") fastforce+
  next
    case False
    then have "event_dir_loop fs dir (rev nl) 0 (Some (part_entry ?n [])) = Inr None"
      using event_dir_loop_fails [of "rev nl" fs dir "[]" ?n] nl(2) \<open>listable fs dir\<close> by (simp add: loadable_def)
    then show ?thesis
      unfolding if_P [OF False] using nl alloc by (simp add: parserLoadEventSndDir_def)
  qed
next
  case False
  with assms(1) have "fs_dir fs dir = None" by blast
  then show ?thesis using False by (simp add: loadable_def parserLoadEventSndDir_def parserScanDir_def)
qed


text \<open>A value after a keyword that is not itself taken for one of the keywords tested later.\<close>

definition value_ok :: "string \<Rightarrow> bool" where
  "value_ok w \<longleftrightarrow> word_ok w \<and>
     (\<forall>kw\<in>{''name'', ''path'', ''end'', ''fade'', ''threshold'', ''level''}. \<not> strcaseeq w kw)"

lemma value_okD:
  assumes "value_ok w"
  shows "word_ok w" "\<not> strcaseeq w ''name''" "\<not> strcaseeq w ''path''" "\<not> strcaseeq w ''end''"
    "\<not> strcaseeq w ''fade''" "\<not> strcaseeq w ''threshold''" "\<not> strcaseeq w ''level''"
  using assms by (auto simp: value_ok_def)

lemma section_tags:
  "\<not> strcaseeq ''name'' ''path''" "\<not> strcaseeq ''name'' ''end''" "\<not> strcaseeq ''name'' ''threshold''"
  "\<not> strcaseeq ''path'' ''name''" "\<not> strcaseeq ''path'' ''end''" "\<not> strcaseeq ''path'' ''level''"
  "\<not> strcaseeq ''path'' ''fade''" "\<not> strcaseeq ''path'' ''threshold''"
  "\<not> strcaseeq ''end'' ''name''" "\<not> strcaseeq ''end'' ''path''" "\<not> strcaseeq ''end'' ''level''"
  "\<not> strcaseeq ''end'' ''fade''" "\<not> strcaseeq ''end'' ''threshold''"
  "\<not> strcaseeq ''level'' ''path''" "\<not> strcaseeq ''level'' ''fade''" "\<not> strcaseeq ''level'' ''end''"
  "\<not> strcaseeq ''level'' ''threshold''" "\<not> strcaseeq ''level'' ''name''"
  "\<not> strcaseeq ''fade'' ''level''" "\<not> strcaseeq ''fade'' ''path''" "\<not> strcaseeq ''fade'' ''end''"
  "\<not> strcaseeq ''fade'' ''threshold''" "\<not> strcaseeq ''fade'' ''name''"
  "\<not> strcaseeq ''threshold'' ''name''" "\<not> strcaseeq ''threshold'' ''path''" "\<not> strcaseeq ''threshold'' ''end''"
  "\<not> strcaseeq ''threshold'' ''level''" "\<not> strcaseeq ''threshold'' ''state''" "\<not> strcaseeq ''threshold'' ''fade''"
  "\<not> is_comment ''name''" "\<not> is_comment ''path''" "\<not> is_comment ''end''" "\<not> is_comment ''level''"
  "\<not> is_comment ''fade''" "\<not> is_comment ''threshold''"
  by (simp_all add: strcaseeq_def is_comment_def char_defs)

text \<open>Reading one printed line whose first word is a keyword and whose second a value.\<close>

lemma line_ok_word:
  "line_ok [w] \<Longrightarrow> parserTokenize (Some (buf_str (print_line [w]))) = Inr \<lparr>token = w, remainder = Some []\<rparr>"
  using tokenize_line [of w "[]"] by simp

lemma line_ok_words:
  "line_ok [w, v] \<Longrightarrow> parserTokenize (Some (buf_str (print_line [w, v]))) =
     Inr \<lparr>token = w, remainder = Some (print_line [v])\<rparr>"
  "line_ok [w, v] \<Longrightarrow> parserTokenize (Some (print_line [v])) = Inr \<lparr>token = v, remainder = Some []\<rparr>"
  using tokenize_line [of w "[v]"] tokenize_print [of v "[]"]
  by (simp_all add: line_ok_def)

lemma end_lines:
  "line_ok [''end'', ''event'']" "line_ok [''end'', ''state'']" "line_ok [''end'', ''threshold'']" "line_ok [''threshold'']"
  by (simp_all add: line_ok_def word_ok_def char_defs)

definition event_text :: "string \<Rightarrow> string \<Rightarrow> string" where
  "event_text name path = print_line [''name'', name] @ print_line [''path'', path] @ print_line [''end'', ''event'']"

lemma event_section:
  assumes "line_ok [''name'', name]" and "line_ok [''path'', path]" and "value_ok name" and "value_ok path"
    and "ps_sound_path s = Ptr sp"
  shows "parserParseEvent fs (event_text name path @ rest) s =
    bindE (parserLoadEventSndDir fs name (sp @ path) s) (\<lambda>(r, s1).
    Inr (if r = 0 then PARSER_FAILURE else PARSER_SUCCESS, rest, s1))"
proof -
  note [simp] = value_okD [OF assms(3)] value_okD [OF assms(4)] line_ok_words [OF assms(1)]
    line_ok_words [OF assms(2)] line_ok_words [OF end_lines(1)] fgets_print [OF assms(1)]
    fgets_print [OF assms(2)] fgets_print [OF end_lines(1)] section_tags
  note [simp del] = print_line.simps
  have 1: "event_loop fs None None (event_text name path @ rest) s =
      event_loop fs (Some name) None (print_line [''path'', path] @ print_line [''end'', ''event''] @ rest) s"
    by (subst event_loop.simps) (simp add: event_text_def name_line_def path_line_def end_of_def)
  have 2: "event_loop fs (Some name) None (print_line [''path'', path] @ print_line [''end'', ''event''] @ rest) s =
      event_loop fs (Some name) (Some (sp @ path)) (print_line [''end'', ''event''] @ rest) s"
    by (subst event_loop.simps) (simp add: name_line_def path_line_def end_of_def assms(5))
  show ?thesis unfolding parserParseEvent_def 1 2
    by (subst event_loop.simps) (simp add: name_line_def path_line_def end_of_def)
qed

text \<open>
  C22.  An event section with the lines \<open>name\<close> and \<open>path\<close>, for words that are none of the keywords
  and no comments, a set sound path and a table of 256 buckets; the directory either cannot be
  opened or is listed with exactly two names that are skipped as its dot entries.
  If the directory cannot be opened or one of its files cannot be read, the section fails and changes
  nothing.  Otherwise a name that cannot be hashed makes the server reach outside the table; any other
  name makes the section succeed and the event is counted.  When the slot of the name was vacant, the name
  is then found, with the sounds of the directory in the order of the file names, and the lookup of any
  other name in that slot runs forever; when the slot was in use, the section succeeds all
  the same, but no lookup finds anything it did not find before.  Other slots are as they were.
\<close>

theorem event_section_loads:
  assumes "line_ok [''name'', name]" and "line_ok [''path'', path]" and "value_ok name" and "value_ok path"
    and "ps_sound_path s = Ptr sp" and "listable fs (sp @ path) \<or> fs_dir fs (sp @ path) = None"
    and "table_wf (stable (ps_w s))"
  shows "if \<not> loadable fs (sp @ path)
    then parserParseEvent fs (event_text name path @ rest) s = Inr (PARSER_FAILURE, rest, s)
    else if \<not> hashable name then parserParseEvent fs (event_text name path @ rest) s = Inl OutOfBounds
    else \<exists>tab. parserParseEvent fs (event_text name path @ rest) s = Inr (PARSER_SUCCESS, rest,
        s\<lparr>ps_event_cnt := ps_event_cnt s + 1, ps_w := (ps_w s)\<lparr>stable := tab\<rparr>\<rparr>) \<and>
      table_wf tab \<and>
      (\<forall>k. engineSoundTableRetrieve k tab =
           found_after (loaded_event fs name (sp @ path)) (stable (ps_w s)) k)"
  using load_event_dir [OF assms(6,7), of name] unfolding event_section [OF assms(1-5)]
  by (auto simp: PARSER_SUCCESS_def split: if_splits)

theorem event_section_loads_witness:
  "\<exists>tab. parserParseEvent
       \<lparr>fs_read = (\<lambda>p. if p = ''/s/d/x'' then Some ''ab'' else if p = ''/s/d/y'' then Some ''cdef'' else None),
        fs_dir = (\<lambda>p. if p = ''/s/d'' then Some [''..'', ''y'', ''x'', ''.''] else None)\<rparr>
       (event_text ''tick'' ''d'' @ ''end'')
       (parser_static\<lparr>ps_sound_path := Ptr ''/s/'', ps_w := world_static\<lparr>stable := fresh_table\<rparr>\<rparr>) =
     Inr (PARSER_SUCCESS, ''end'', parser_static\<lparr>ps_sound_path := Ptr ''/s/'', ps_event_cnt := 1,
       ps_w := world_static\<lparr>stable := tab\<rparr>\<rparr>) \<and>
     engineSoundTableRetrieve ''tick'' tab = Inr (Some \<lparr>se_name = ''tick'',
       se_data = EventData (event_entry [[0x6261], [0x6463, 0x6665]]), se_type = EVENT_T\<rparr>) \<and>
     engineSoundTableRetrieve ''kcit'' tab = Inl Diverges"
proof -
  let ?fs = "\<lparr>fs_read = (\<lambda>p. if p = ''/s/d/x'' then Some ''ab'' else if p = ''/s/d/y'' then Some ''cdef'' else None),
        fs_dir = (\<lambda>p. if p = ''/s/d'' then Some [''..'', ''y'', ''x'', ''.''] else None)\<rparr>"
  let ?s = "parser_static\<lparr>ps_sound_path := Ptr ''/s/'', ps_w := world_static\<lparr>stable := fresh_table\<rparr>\<rparr>"
  have dots: "dot_name ''..''" "dot_name ''.''" "\<not> dot_name ''x''" "\<not> dot_name ''y''"
    by (simp_all add: dot_name_def strcaseeq_def char_defs)
  have names: "sound_names ?fs ''/s/d'' = [''x'', ''y'']"
    using dots by (simp add: sound_names_def code_def insort_key.simps sort_key_def)
  have load: "dir_sounds ?fs ''/s/d'' = [[0x6261], [0x6463, 0x6665]]"
    unfolding dir_sounds_def names
    by (simp add: parserLoadSoundFile_def parserGetFileSize_def code_def numeral_2_eq_2)
  have ld: "loadable ?fs (''/s/'' @ ''d'')" and ls: "listable ?fs (''/s/'' @ ''d'')"
    using dots names by (simp_all add: listable_def readable_def loadable_def)
  have words: "line_ok [''name'', ''tick'']" "line_ok [''path'', ''d'']" "value_ok ''tick''" "value_ok ''d''"
    by (simp_all add: line_ok_def word_ok_def value_ok_def strcaseeq_def char_defs)
  have found: "found_after (loaded_event ?fs ''tick'' (''/s/'' @ ''d'')) fresh_table k =
      (if hashable k \<and> slot k = slot ''tick''
       then if strcaseeq ''tick'' k then Inr (Some \<lparr>se_name = ''tick'',
           se_data = EventData (event_entry [[0x6261], [0x6463, 0x6665]]), se_type = EVENT_T\<rparr>)
         else Inl Diverges
       else engineSoundTableRetrieve k fresh_table)" for k
    using load by (simp add: found_after_def loaded_event_def fresh_vacant)
  have h: "hashable ''tick''" "hashable ''kcit''" "slot ''kcit'' = slot ''tick''" "\<not> strcaseeq ''tick'' ''kcit''"
    by (simp_all add: hash_eval strcaseeq_def tolower_def)
  have s: "ps_sound_path ?s = Ptr ''/s/''" "stable (ps_w ?s) = fresh_table" "ps_event_cnt ?s + 1 = 1"
    by (simp_all add: parser_static_def world_static_def)
  note event_section_loads [OF words s(1) disjI1 [OF ls], of "''end''", unfolded s(2), OF initial_table(1)]
  then obtain tab where "parserParseEvent ?fs (event_text ''tick'' ''d'' @ ''end'') ?s = Inr
      (PARSER_SUCCESS, ''end'', ?s\<lparr>ps_event_cnt := 1, ps_w := (ps_w ?s)\<lparr>stable := tab\<rparr>\<rparr>)"
    "\<forall>k. engineSoundTableRetrieve k tab = found_after (loaded_event ?fs ''tick'' (''/s/'' @ ''d'')) fresh_table k"
    unfolding s(3) by (simp only: ld h not_True_eq_False if_False) blast
  with h show ?thesis
    unfolding found by (intro exI [of _ tab]) (simp add: parser_static_def)
qed

end
