(* ===== verification/State_Load.thy ===== *)
theory State_Load
  imports Sound_Load
begin

text \<open>
  Loading a state: the thresholds of a state section are written to the mixer one by one, each with
  the sounds of its directory and the bounds that follow from the level before.
\<close>

section \<open>Writing thresholds\<close>

text \<open>A mixer whose state \<open>st\<close> has the thresholds \<open>ts\<close>.\<close>

definition with_thresholds :: "world \<Rightarrow> STATE_BUF list \<Rightarrow> nat \<Rightarrow> STATE_BUF \<Rightarrow> THRESHOLD list \<Rightarrow> world" where
  "with_thresholds w bs st b ts = w\<lparr>sbuffs := Ptr (bs[st := b\<lparr>sb_thresh := Some ts\<rparr>]), mlock := False\<rparr>"

definition part_threshold :: "real \<Rightarrow> real \<Rightarrow> nat \<Rightarrow> samples list \<Rightarrow> THRESHOLD" where
  "part_threshold lb hb n smps = \<lparr>l_bound = lb, h_bound = hb,
     state_snd = zero_state_snd\<lparr>ss_snd_buf := Some (map Some smps @ replicate (n - length smps) None),
       ss_len := map (\<lambda>x. of_nat (length x)) smps @ replicate (n - length smps) 0, ss_snd_cnt := of_nat n\<rparr>\<rparr>"

definition loaded_threshold :: "real \<Rightarrow> real \<Rightarrow> samples list \<Rightarrow> THRESHOLD" where
  "loaded_threshold lb hb smps = part_threshold lb hb (length smps) smps"

definition slots_ok :: "STATE_BUF list \<Rightarrow> nat \<Rightarrow> STATE_BUF \<Rightarrow> THRESHOLD list \<Rightarrow> bool" where
  "slots_ok bs st b ts \<longleftrightarrow> st < length bs \<and> sb_thresh_cnt b = int (length ts) \<and> length ts < 2 ^ 31"

lemma thresh_cnt_u_ok: "slots_ok bs st b ts \<Longrightarrow> thresh_cnt_u (b\<lparr>sb_thresh := x\<rparr>) = length ts"
  using unat_of_nat32 [of "length ts"] by (simp add: thresh_cnt_u_def slots_ok_def)

lemma slots_ok_update [simp]: "slots_ok bs st b (ts[i := t]) = slots_ok bs st b ts"
  by (simp add: slots_ok_def)

lemma pa_get_thresholds:
  "slots_ok bs st b ts \<Longrightarrow> pa_get (sbuffs (with_thresholds w bs st b ts)) (int st) = Inr (b\<lparr>sb_thresh := Some ts\<rparr>)"
  by (simp add: slots_ok_def with_thresholds_def)

lemma add_threshold:
  assumes "slots_ok bs st b ts" and "th < length ts"
  shows "mixerAddStateThreshold True st th lb hb n (with_thresholds w bs st b ts) =
    Inr (MIXER_SUCCESS, with_thresholds w bs st b (ts[th := part_threshold lb hb n []]))"
proof -
  have "pa_set (sbuffs (with_thresholds w bs st b ts)) (int st) v = Inr (Ptr (bs[st := v]))" for v
    using assms(1) by (simp add: slots_ok_def with_thresholds_def)
  moreover have "mlock (with_thresholds w bs st b ts) = False" by (simp add: with_thresholds_def)
  ultimately show ?thesis
    using assms by (simp add: mixerAddStateThreshold_def pa_get_thresholds thresh_cnt_u_ok Let_def part_threshold_def)
      (simp add: with_thresholds_def)
qed

lemma add_state:
  assumes "slots_ok bs st b ts" and "th < length ts" and "ts ! th = part_threshold lb hb n smps"
    and "length smps < n" and "n < 2 ^ 31"
  shows "mixerAddState st th (length smps) (Some smp) (of_nat (length smp)) (with_thresholds w bs st b ts) =
    Inr (MIXER_SUCCESS, with_thresholds w bs st b (ts[th := part_threshold lb hb n (smps @ [smp])]))"
proof -
  have lock: "mlock (with_thresholds w bs st b ts) = False" by (simp add: with_thresholds_def)
  have n: "unat (of_nat n :: 32 word) = n" using assms(5) by (simp add: unat_of_nat32)
  have get: "get_threshold (b\<lparr>sb_thresh := Some ts\<rparr>) (int th) = Inr (part_threshold lb hb n smps)"
    using assms(2,3) by (simp add: get_threshold_def)
  have seg: "snd_segment (state_snd (part_threshold lb hb n smps)) (int (length smps)) = Inr None"
    using assms(4) by (simp add: snd_segment_def part_threshold_def nth_append)
  have upd: "(map Some smps @ replicate (n - length smps) None)[length smps := Some smp] =
      map Some (smps @ [smp]) @ replicate (n - length (smps @ [smp])) None"
    "(map (\<lambda>x. of_nat (length x)) smps @ replicate (n - length smps) 0)[length smps := of_nat (length smp)] =
      map (\<lambda>x. of_nat (length x)) (smps @ [smp]) @ replicate (n - length (smps @ [smp])) (0 :: 32 word)"
    using replicate_update [of "map Some smps" n None "Some smp"] assms(4)
      replicate_update [of "map (\<lambda>x. of_nat (length x)) smps" n "0 :: 32 word" "of_nat (length smp)"] by simp_all
  have set: "pa_set (sbuffs (with_thresholds w bs st b ts)) (int st) v = Inr (Ptr (bs[st := v]))" for v
    using assms(1) by (simp add: slots_ok_def with_thresholds_def)
  have "set_state_snd st (int th) s (with_thresholds w bs st b ts) =
      Inr (with_thresholds w bs st b (ts[th := (part_threshold lb hb n smps)\<lparr>state_snd := s\<rparr>]))" for s
    using assms(1,2) by (simp add: set_state_snd_def pa_get_thresholds get set) (simp add: with_thresholds_def)
  then show ?thesis
    using assms(2,4) n
    by (simp add: mixerAddState_def pa_get_thresholds [OF assms(1)] thresh_cnt_u_ok [OF assms(1)] get seg lock Let_def)
       (simp add: part_threshold_def upd with_thresholds_def zero_state_snd_def)
qed

lemma state_dir_loop_loads:
  "\<forall>nm\<in>set (filter (\<lambda>nm. \<not> dot_name nm) ns). readable fs dir nm \<Longrightarrow>
   length smps + length (filter (\<lambda>nm. \<not> dot_name nm) ns) \<le> n \<Longrightarrow> n < 2 ^ 31 \<Longrightarrow>
   slots_ok bs st b ts \<Longrightarrow> th < length ts \<Longrightarrow>
   state_dir_loop fs dir ns st th (length smps) (with_thresholds w bs st b (ts[th := part_threshold lb hb n smps])) =
   Inr (True, with_thresholds w bs st b (ts[th := part_threshold lb hb n
     (smps @ map (\<lambda>nm. the (parserLoadSoundFile fs (dir @ ''/'' @ nm))) (filter (\<lambda>nm. \<not> dot_name nm) ns))]))"
proof (induction ns arbitrary: smps)
  case (Cons nm ns)
  show ?case
  proof (cases "dot_name nm")
    case False
    then obtain smp where smp: "parserLoadSoundFile fs (dir @ CHR ''/'' # nm) = Some smp"
      using Cons.prems(1) load_readable by auto
    have "length smps < n" using Cons.prems(2) False by simp
    then show ?thesis
      using Cons.IH [of "smps @ [smp]"] Cons.prems False smp
        add_state [of bs st b "ts[th := part_threshold lb hb n smps]" th lb hb n smps smp w]
      by simp
  qed (use Cons in simp)
qed simp

section \<open>One threshold\<close>

text \<open>The mixer after a threshold has been loaded, with the fade time of its state.\<close>

definition set_fade_time :: "nat \<Rightarrow> real \<Rightarrow> FADE_REC list \<Rightarrow> FADE_REC list" where
  "set_fade_time st t fs = fs[st := (fs ! st)\<lparr>fade_time := t\<rparr>]"

lemma load_state_dir:
  assumes "listable fs dir" and "\<forall>nm\<in>set (sound_names fs dir). readable fs dir nm"
    and "length (sound_names fs dir) < 2 ^ 31"
    and "slots_ok bs st b ts" and "th < length ts" and "st < unat (no_sbuffs w)"
    and "lin_fade w = Ptr fds" and "st < length fds"
    and "ps_state_cnt s = int st" and "ps_w s = with_thresholds w bs st b ts"
  shows "parserLoadStateSndDir fs th lb hb dir fade s = Inr (PARSER_SUCCESS,
    s\<lparr>ps_w := with_thresholds (w\<lparr>lin_fade := Ptr (set_fade_time st fade fds)\<rparr>) bs st b
       (ts[th := loaded_threshold lb hb (dir_sounds fs dir)])\<rparr>)"
proof -
  obtain nl where nl: "parserScanDir fs dir = Some nl"
    "sound_names fs dir = filter (\<lambda>nm. \<not> dot_name nm) (rev nl)" "length nl = length (sound_names fs dir) + 2"
    using scan_listable [OF assms(1)] by blast
  let ?n = "length (sound_names fs dir)"
  have idx: "unat (word_of_int (ps_state_cnt s) :: 32 word) = st"
    using assms(6,9) unat32_less [of "no_sbuffs w"] by (simp add: unat_of_nat32)
  have 1: "mixerAddStateThreshold True st th lb hb ?n (ps_w s) =
      Inr (MIXER_SUCCESS, with_thresholds w bs st b (ts[th := part_threshold lb hb ?n []]))"
    unfolding assms(10) by (rule add_threshold [OF assms(4,5)])
  have len: "length (dir_sounds fs dir) = ?n" by (simp add: dir_sounds_def)
  have 2: "state_dir_loop fs dir (rev nl) st th 0 (with_thresholds w bs st b (ts[th := part_threshold lb hb ?n []])) =
      Inr (True, with_thresholds w bs st b (ts[th := loaded_threshold lb hb (dir_sounds fs dir)]))"
    using state_dir_loop_loads [of "rev nl" fs dir "[]" ?n bs st b ts th w lb hb] assms(2-5) nl(2) len
    by (simp add: dir_sounds_def loaded_threshold_def)
  have 3: "mixerSetFadeTime st fade (with_thresholds w bs st b ts') =
      Inr (MIXER_SUCCESS, with_thresholds (w\<lparr>lin_fade := Ptr (set_fade_time st fade fds)\<rparr>) bs st b ts')" for ts'
    using assms(6-8) by (cases w) (simp add: mixerSetFadeTime_def with_thresholds_def set_fade_time_def)
  have sb: "mixerSBuffs (ps_w s) = no_sbuffs w" by (simp add: assms(10) mixerSBuffs_def with_thresholds_def)
  show ?thesis
    using assms(6) nl(1,3) 1 2 3 by (simp add: parserLoadStateSndDir_def idx sb Let_def)
qed


definition threshold_text :: "string \<times> string \<times> string \<Rightarrow> string" where
  "threshold_text = (\<lambda>(lv, p, fd). print_line [''level'', lv] @ print_line [''path'', p] @
     print_line [''fade'', fd] @ print_line [''end'', ''threshold''])"

definition threshold_ok :: "filesys \<Rightarrow> string \<Rightarrow> string \<times> string \<times> string \<Rightarrow> bool" where
  "threshold_ok fs sp = (\<lambda>(lv, p, fd).
     line_ok [''level'', lv] \<and> line_ok [''path'', p] \<and> line_ok [''fade'', fd] \<and>
     value_ok lv \<and> value_ok p \<and> value_ok fd \<and> strtod lv \<noteq> 0 \<and> listable fs (sp @ p) \<and>
     (\<forall>nm\<in>set (sound_names fs (sp @ p)). readable fs (sp @ p) nm) \<and>
     length (sound_names fs (sp @ p)) < 2 ^ 31)"

text \<open>The lower bound of a threshold: the level of the one before.\<close>

definition bound_before :: "THRESHOLD list \<Rightarrow> nat \<Rightarrow> real" where
  "bound_before ts k = (if k = 0 then 0 else h_bound (ts ! (k - 1)))"

lemma threshold_section:
  assumes "threshold_ok fs sp (lv, p, fd)" and "ps_sound_path s = Ptr sp"
    and "slots_ok bs st b ts" and "th < length ts" and "st < unat (no_sbuffs w)"
    and "lin_fade w = Ptr fds" and "st < length fds"
    and "ps_state_cnt s = int st" and "ps_w s = with_thresholds w bs st b ts"
  shows "parserParseThreshold fs (threshold_text (lv, p, fd) @ rest) (int th) s = Inr (PARSER_SUCCESS, rest,
    s\<lparr>ps_w := with_thresholds (w\<lparr>lin_fade := Ptr (set_fade_time st (strtod fd) fds)\<rparr>) bs st b
       (ts[th := loaded_threshold (bound_before ts th) (strtod lv) (dir_sounds fs (sp @ p))])\<rparr>)"
proof -
  have ok: "line_ok [''level'', lv]" "line_ok [''path'', p]" "line_ok [''fade'', fd]"
    "value_ok lv" "value_ok p" "value_ok fd" "strtod lv \<noteq> 0" "listable fs (sp @ p)"
    "\<forall>nm\<in>set (sound_names fs (sp @ p)). readable fs (sp @ p) nm" "length (sound_names fs (sp @ p)) < 2 ^ 31"
    using assms(1) by (auto simp: threshold_ok_def)
  note [simp] = value_okD [OF ok(4)] value_okD [OF ok(5)] value_okD [OF ok(6)] line_ok_words [OF ok(1)]
    line_ok_words [OF ok(2)] line_ok_words [OF ok(3)] line_ok_words [OF end_lines(3)]
    fgets_print [OF ok(1)] fgets_print [OF ok(2)] fgets_print [OF ok(3)] fgets_print [OF end_lines(3)] section_tags
  note [simp del] = print_line.simps
  have entry: "mixerGetThresholdEntry (int st) (int th - 1) (ps_w s) = Inr (Some (ts ! (th - 1)))" if "th > 0"
  proof -
    have "aget ts (int th - 1) = Inr (ts ! (th - 1))"
      using aget_int [of ts "th - 1"] assms(4) that by (simp add: of_nat_diff)
    then show ?thesis
      using assms(3,4) that pa_get_thresholds [OF assms(3), of w] unfolding assms(9)
      by (simp add: mixerGetThresholdEntry_def get_threshold_def slots_ok_def)
         (simp add: with_thresholds_def)
  qed
  let ?r1 = "print_line [''path'', p] @ print_line [''fade'', fd] @ print_line [''end'', ''threshold''] @ rest"
  let ?r2 = "print_line [''fade'', fd] @ print_line [''end'', ''threshold''] @ rest"
  let ?r3 = "print_line [''end'', ''threshold''] @ rest"
  let ?lb = "bound_before ts th"
  have 1: "threshold_loop fs (int th) 0 0 0 None (threshold_text (lv, p, fd) @ rest) s =
      threshold_loop fs (int th) ?lb (strtod lv) 0 None ?r1 s"
    using entry by (subst threshold_loop.simps)
      (simp add: threshold_text_def level_line_def path_line_def fade_line_def end_of_def assms(8) bound_before_def)
  have 2: "threshold_loop fs (int th) ?lb (strtod lv) 0 None ?r1 s =
      threshold_loop fs (int th) ?lb (strtod lv) 0 (Some (sp @ p)) ?r2 s"
    by (subst threshold_loop.simps) (simp add: level_line_def path_line_def fade_line_def end_of_def assms(2))
  have 3: "threshold_loop fs (int th) ?lb (strtod lv) 0 (Some (sp @ p)) ?r2 s =
      threshold_loop fs (int th) ?lb (strtod lv) (strtod fd) (Some (sp @ p)) ?r3 s"
    by (subst threshold_loop.simps) (simp add: level_line_def path_line_def fade_line_def end_of_def)
  have idx: "unat (word_of_int (int th) :: 32 word) = th"
    using assms(3,4) by (simp add: slots_ok_def unat_of_nat32)
  show ?thesis
    unfolding parserParseThreshold_def 1 2 3
    using ok(7) load_state_dir [OF ok(8,9,10) assms(3-9), of ?lb "strtod lv" "strtod fd"]
    by (subst threshold_loop.simps)
       (simp add: level_line_def path_line_def fade_line_def end_of_def idx [simplified] PARSER_SUCCESS_def)
qed


section \<open>A whole state\<close>

definition thresholds_text :: "(string \<times> string \<times> string) list \<Rightarrow> string" where
  "thresholds_text thrs = concat (map (\<lambda>t. print_line [''threshold''] @ threshold_text t) thrs)"

definition state_text :: "string \<Rightarrow> (string \<times> string \<times> string) list \<Rightarrow> string" where
  "state_text name thrs = print_line [''name'', name] @ thresholds_text thrs @ print_line [''end'', ''state'']"

text \<open>The look-ahead counts the thresholds.\<close>

lemma look_ahead_line:
  assumes "line_ok (w # ws)" and "\<not> strcaseeq w ''end''"
  shows "look_ahead (print_line (w # ws) @ r) c = look_ahead r (if strcaseeq w ''threshold'' then c + 1 else c)"
  using assms by (subst look_ahead.simps)
    (simp add: fgets_print tokenize_line end_of_def del: print_line.simps)

lemma look_ahead_threshold:
  assumes "threshold_ok fs sp t"
  shows "look_ahead (print_line [''threshold''] @ threshold_text t @ r) c = look_ahead r (c + 1)"
proof -
  obtain lv p fd where t: "t = (lv, p, fd)" by (cases t)
  then have ok: "line_ok [''level'', lv]" "line_ok [''path'', p]" "line_ok [''fade'', fd]"
    using assms by (auto simp: threshold_ok_def)
  note [simp] = line_ok_words [OF end_lines(3)] fgets_print [OF end_lines(3)] section_tags
    look_ahead_line [OF ok(1)] look_ahead_line [OF ok(2)] look_ahead_line [OF ok(3)] look_ahead_line [OF end_lines(4)]
  note [simp del] = print_line.simps
  have "look_ahead (print_line [''end'', ''threshold''] @ r) (c + 1) = look_ahead r (c + 1)"
    by (subst look_ahead.simps) (simp add: end_of_def)
  then show ?thesis by (simp add: t threshold_text_def)
qed

lemma look_ahead_thresholds:
  "\<forall>t\<in>set thrs. threshold_ok fs sp t \<Longrightarrow>
   look_ahead (thresholds_text thrs @ print_line [''end'', ''state''] @ rest) c = Inr (c + int (length thrs), True)"
proof (induction thrs arbitrary: c)
  case Nil
  note [simp] = line_ok_words [OF end_lines(2)] fgets_print [OF end_lines(2)] section_tags
  show ?case by (subst look_ahead.simps) (simp add: thresholds_text_def end_of_def del: print_line.simps)
next
  case (Cons t thrs)
  then show ?case
    using look_ahead_threshold [of fs sp t "thresholds_text thrs @ print_line [''end'', ''state''] @ rest" c]
    by (simp add: thresholds_text_def del: print_line.simps)
qed

text \<open>The thresholds a list of levels and directories describes, the first lower bound given.\<close>

fun thresholds_of :: "filesys \<Rightarrow> string \<Rightarrow> real \<Rightarrow> (string \<times> string \<times> string) list \<Rightarrow> THRESHOLD list" where
  "thresholds_of fs sp lb [] = []"
| "thresholds_of fs sp lb ((lv, p, fd) # thrs) =
     loaded_threshold lb (strtod lv) (dir_sounds fs (sp @ p)) # thresholds_of fs sp (strtod lv) thrs"

definition fade_of :: "(string \<times> string \<times> string) list \<Rightarrow> nat \<Rightarrow> FADE_REC list \<Rightarrow> FADE_REC list" where
  "fade_of thrs st fds = fold (\<lambda>(lv, p, fd). set_fade_time st (strtod fd)) thrs fds"

lemma length_thresholds_of [simp]: "length (thresholds_of fs sp lb thrs) = length thrs"
  by (induction thrs arbitrary: lb) auto

lemma length_set_fade [simp]: "length (set_fade_time st t fds) = length fds"
  by (simp add: set_fade_time_def)

lemma state_loop_thresholds:
  "\<forall>t\<in>set thrs. threshold_ok fs sp t \<Longrightarrow> ps_sound_path s = Ptr sp \<Longrightarrow>
   length ts = length done + length thrs \<Longrightarrow> take (length done) ts = done \<Longrightarrow> slots_ok bs st b ts \<Longrightarrow>
   st < unat (no_sbuffs w) \<Longrightarrow> lin_fade w = Ptr fds \<Longrightarrow> st < length fds \<Longrightarrow> ps_state_cnt s = int st \<Longrightarrow>
   ps_w s = with_thresholds w bs st b ts \<Longrightarrow>
   state_loop fs name (int (length done)) (thresholds_text thrs @ r) s =
   state_loop fs name (int (length done + length thrs)) r (s\<lparr>ps_w := with_thresholds
     (w\<lparr>lin_fade := Ptr (fade_of thrs st fds)\<rparr>) bs st b
     (done @ thresholds_of fs sp (bound_before done (length done)) thrs)\<rparr>)"
proof (induction thrs arbitrary: s w ts "done" fds)
  case Nil
  have "w\<lparr>lin_fade := Ptr fds\<rparr> = w" using Nil.prems(7) by (cases w) simp
  moreover have "s\<lparr>ps_w := with_thresholds w bs st b done\<rparr> = s" using Nil.prems(3,4,10) by (cases s) simp
  ultimately show ?case by (simp add: thresholds_text_def fade_of_def)
next
  case (Cons t thrs)
  obtain lv p fd where t: "t = (lv, p, fd)" by (cases t)
  let ?k = "length done"
  let ?lt = "loaded_threshold (bound_before ts ?k) (strtod lv) (dir_sounds fs (sp @ p))"
  let ?w1 = "w\<lparr>lin_fade := Ptr (set_fade_time st (strtod fd) fds)\<rparr>"
  let ?s1 = "s\<lparr>ps_w := with_thresholds ?w1 bs st b (ts[?k := ?lt])\<rparr>"
  have k: "?k < length ts" using Cons.prems(3) by simp
  have bb: "bound_before ts ?k = bound_before done ?k"
    using Cons.prems(4) nth_take [of "?k - 1" ?k ts] by (auto simp: bound_before_def)
  have "threshold_ok fs sp (lv, p, fd)" using Cons.prems(1) t by simp
  note sec = threshold_section [OF this Cons.prems(2,5) k Cons.prems(6-10), of "thresholds_text thrs @ r"]
  note [simp] = line_ok_word [OF end_lines(4)] fgets_print [OF end_lines(4)] section_tags
  have step: "state_loop fs name (int ?k) (thresholds_text (t # thrs) @ r) s =
      state_loop fs name (int (length (done @ [?lt]))) (thresholds_text thrs @ r) ?s1"
    using sec by (subst state_loop.simps)
      (simp add: thresholds_text_def t name_line_def end_of_def Let_def PARSER_SUCCESS_def add.commute del: print_line.simps)
  have upd: "take (length (done @ [?lt])) (ts[?k := ?lt]) = done @ [?lt]"
    using Cons.prems(4) k by (simp add: take_Suc_conv_app_nth)
  have hb: "bound_before (done @ [?lt]) (length (done @ [?lt])) = strtod lv"
    by (simp add: bound_before_def loaded_threshold_def part_threshold_def)
  show ?case
    unfolding step
    by (subst Cons.IH [of ?s1 "ts[?k := ?lt]" "done @ [?lt]" ?w1 "set_fade_time st (strtod fd) fds"])
       (use Cons.prems upd hb bb t in \<open>simp_all add: fade_of_def slots_ok_def\<close>)
qed


lemma alloc_state:
  assumes "sbuffs w = Ptr bs" and "st < length bs" and "sb_thresh (bs ! st) = None" and "\<not> mlock w"
  shows "mixerAllocNewState True st (int n) w = Inr (MIXER_SUCCESS,
    with_thresholds (w\<lparr>mixer_loaded_states := mixer_loaded_states w + 1\<rparr>) bs st
      ((bs ! st)\<lparr>sb_thresh_cnt := int n, sb_stereo_pos := 0.5\<rparr>) (replicate n zero_threshold))"
  using assms by (cases w; cases "bs ! st") (simp add: mixerAllocNewState_def with_thresholds_def Let_def)

lemma state_name_line:
  assumes "line_ok [''name'', name]" and "value_ok name"
  shows "look_ahead (print_line [''name'', name] @ r) c = look_ahead r c"
    and "state_loop fs nm k (print_line [''name'', name] @ r) s = state_loop fs (Some name) k r s"
proof -
  note [simp] = value_okD [OF assms(2)] line_ok_words [OF assms(1)] fgets_print [OF assms(1)] section_tags
    look_ahead_line [OF assms(1)]
  note [simp del] = print_line.simps
  show "look_ahead (print_line [''name'', name] @ r) c = look_ahead r c" by simp
  show "state_loop fs nm k (print_line [''name'', name] @ r) s = state_loop fs (Some name) k r s"
    by (subst state_loop.simps) (simp add: name_line_def end_of_def Let_def PARSER_SUCCESS_def)
qed

lemma state_end_line:
  "state_loop fs (Some name) k (print_line [''end'', ''state''] @ r) s =
    bindE (engineSoundTableInsert (state_sound name (ps_state_cnt s)) (stable (ps_w s))) (\<lambda>(rc, tab).
    Inr (PARSER_SUCCESS, r, s\<lparr>ps_w := (ps_w s)\<lparr>stable := tab\<rparr>, ps_state_cnt := ps_state_cnt s + 1\<rparr>))"
proof -
  note [simp] = line_ok_words [OF end_lines(2)] fgets_print [OF end_lines(2)] section_tags
  note [simp del] = print_line.simps
  show ?thesis
    by (subst state_loop.simps) (simp add: name_line_def end_of_def Let_def PARSER_SUCCESS_def
      engineAllocStateEntry_def engineSoundTableInsertState_def state_sound_def)
qed

text \<open>
  C23.  A state section is loaded into the next free state of the mixer: its thresholds, in order, have the
  given levels as upper bounds and the level before as lower bound, and the sounds of their
  directories; the last fade time is the state's; the name is entered into the sound table; the
  other states are untouched.
\<close>

theorem state_section_loads:
  assumes "line_ok [''name'', name]" and "value_ok name" and "\<forall>t\<in>set thrs. threshold_ok fs sp t"
    and "ps_sound_path s = Ptr sp" and "ps_state_cnt s = int st" and "length thrs < 2 ^ 31"
    and "sbuffs (ps_w s) = Ptr bs" and "st < length bs" and "sb_thresh (bs ! st) = None" and "\<not> mlock (ps_w s)"
    and "length bs = unat (no_sbuffs (ps_w s))" and "lin_fade (ps_w s) = Ptr fds" and "length fds = length bs"
    and "table_wf (stable (ps_w s))" and "hashable name" and "vacant_slot (slot name) (stable (ps_w s))"
  shows "\<exists>s' b. parserParseState fs (state_text name thrs @ rest) s = Inr (PARSER_SUCCESS, rest, s') \<and>
    ps_state_cnt s' = int st + 1 \<and>
    sbuffs (ps_w s') = Ptr (bs[st := b]) \<and> sb_thresh b = Some (thresholds_of fs sp 0 thrs) \<and>
    sb_thresh_cnt b = int (length thrs) \<and> lin_fade (ps_w s') = Ptr (fade_of thrs st fds) \<and>
    engineSoundTableRetrieve name (stable (ps_w s')) = Inr (Some (state_sound name (int st)))"
proof -
  let ?n = "length thrs"
  let ?w1 = "(ps_w s)\<lparr>mixer_loaded_states := mixer_loaded_states (ps_w s) + 1\<rparr>"
  let ?b = "(bs ! st)\<lparr>sb_thresh_cnt := int ?n, sb_stereo_pos := 0.5\<rparr>"
  let ?ts = "replicate ?n zero_threshold"
  let ?s1 = "s\<lparr>ps_w := with_thresholds ?w1 bs st ?b ?ts\<rparr>"
  let ?w2 = "with_thresholds (?w1\<lparr>lin_fade := Ptr (fade_of thrs st fds)\<rparr>) bs st ?b (thresholds_of fs sp 0 thrs)"
  let ?s2 = "?s1\<lparr>ps_w := ?w2\<rparr>"
  have "st < 2 ^ 32" using assms(8,11) unat32_less [of "no_sbuffs (ps_w s)"] by linarith
  then have idx: "state_index s = st" using assms(5) by (simp add: state_index_def unat_of_nat32)
  have look: "look_ahead (state_text name thrs @ rest) 0 = Inr (int ?n, True)"
    using look_ahead_thresholds [OF assms(3), of rest 0] state_name_line(1) [OF assms(1,2)] by (simp add: state_text_def)
  have slots: "slots_ok bs st ?b ?ts" using assms(6,8) by (simp add: slots_ok_def)
  have "state_loop fs None 0 (state_text name thrs @ rest) ?s1 =
      state_loop fs (Some name) (int (length ([] :: THRESHOLD list)))
        (thresholds_text thrs @ print_line [''end'', ''state''] @ rest) ?s1"
    using state_name_line(2) [OF assms(1,2)] by (simp add: state_text_def)
  also have "\<dots> = state_loop fs (Some name) (int ?n) (print_line [''end'', ''state''] @ rest) ?s2"
    by (subst state_loop_thresholds [where sp = sp and st = st and w = ?w1 and bs = bs and b = ?b and ts = ?ts and fds = fds])
       (use assms slots in \<open>simp_all add: bound_before_def\<close>)
  finally have run: "parserParseState fs (state_text name thrs @ rest) s =
      state_loop fs (Some name) (int ?n) (print_line [''end'', ''state''] @ rest) ?s2"
    using look alloc_state [OF assms(7-10), of ?n] by (simp add: parserParseState_def idx)
  have tab: "stable (with_thresholds w bs' st' b' ts') = stable w" for w bs' st' b' ts'
    by (simp add: with_thresholds_def)
  obtain tab where ins: "engineSoundTableInsert (state_sound name (int st)) (stable (ps_w s)) = Inr (ENGINE_SUCCESS, tab)"
    "engineSoundTableRetrieve name tab = Inr (Some (state_sound name (int st)))"
    using st.ins_vacant [OF assms(14), of "state_sound name (int st)"] assms(15,16) by (auto simp: state_sound_def)
  let ?s3 = "?s2\<lparr>ps_w := ?w2\<lparr>stable := tab\<rparr>, ps_state_cnt := int st + 1\<rparr>"
  have "parserParseState fs (state_text name thrs @ rest) s = Inr (PARSER_SUCCESS, rest, ?s3)"
    unfolding run state_end_line using ins(1) assms(5) by (simp add: tab)
  then show ?thesis
    using ins(2) by (intro exI [of _ ?s3] exI [of _ "?b\<lparr>sb_thresh := Some (thresholds_of fs sp 0 thrs)\<rparr>"])
      (simp add: with_thresholds_def)
qed


theorem state_section_loads_witness:
  "\<exists>s' b. parserParseState
       \<lparr>fs_read = (\<lambda>p. if p = ''/s/d/x'' then Some ''ab'' else None),
        fs_dir = (\<lambda>p. if p = ''/s/d'' then Some [''..'', ''x'', ''.''] else None)\<rparr>
       (state_text ''load'' [(''2'', ''d'', ''3'')] @ ''end'')
       (parser_static\<lparr>ps_sound_path := Ptr ''/s/'', ps_w := world_static\<lparr>sbuffs := Ptr [zero_state_buf],
          no_sbuffs := 1, lin_fade := Ptr [zero_fade], stable := fresh_table\<rparr>\<rparr>) = Inr (PARSER_SUCCESS, ''end'', s') \<and>
     ps_state_cnt s' = 1 \<and> sbuffs (ps_w s') = Ptr [b] \<and>
     sb_thresh b = Some [loaded_threshold 0 2 [[0x6261]]]"
proof -
  let ?fs = "\<lparr>fs_read = (\<lambda>p. if p = ''/s/d/x'' then Some ''ab'' else None),
        fs_dir = (\<lambda>p. if p = ''/s/d'' then Some [''..'', ''x'', ''.''] else None)\<rparr>"
  have dots: "dot_name ''..''" "dot_name ''.''" "\<not> dot_name ''x''"
    by (simp_all add: dot_name_def strcaseeq_def char_defs)
  have names: "sound_names ?fs ''/s/d'' = [''x'']"
    using dots by (simp add: sound_names_def code_def insort_key.simps sort_key_def)
  have load: "dir_sounds ?fs ''/s/d'' = [[0x6261]]"
    unfolding dir_sounds_def names
    by (simp add: parserLoadSoundFile_def parserGetFileSize_def code_def numeral_2_eq_2)
  have lev: "strtod ''2'' = 2" by (simp add: strtod_def exp_value_def char_defs)
  have "threshold_ok ?fs ''/s/'' (''2'', ''d'', ''3'')"
    using names dots by (simp add: threshold_ok_def line_ok_def word_ok_def value_ok_def strcaseeq_def char_defs lev
      listable_def readable_def)
  moreover have "line_ok [''name'', ''load'']" "value_ok ''load''"
    by (simp_all add: line_ok_def word_ok_def value_ok_def strcaseeq_def char_defs)
  ultimately show ?thesis
    using state_section_loads [of "''load''" "[(''2'', ''d'', ''3'')]" ?fs "''/s/''"
      "parser_static\<lparr>ps_sound_path := Ptr ''/s/'', ps_w := world_static\<lparr>sbuffs := Ptr [zero_state_buf],
          no_sbuffs := 1, lin_fade := Ptr [zero_fade], stable := fresh_table\<rparr>\<rparr>" 0 "[zero_state_buf]" "[zero_fade]" "''end''"]
    by (fastforce simp: parser_static_def world_static_def zero_state_buf_def lev load initial_table fresh_vacant ascii_hashable code_def)
qed

end
