(* ===== verification/Entry_Types.thy ===== *)
theory Entry_Types
  imports Engine
begin

text \<open>
  The casts of the sound table.  An entry holds a \<open>void *\<close> and a type; the accessors and the engine cast the
  pointer according to the type, or without looking at it.  Shown: in every table the insert
  functions can build, the type of an entry tells what its pointer points to, so the guarded casts are
  safe and the unguarded ones fault on the entries of the other type.
\<close>

section \<open>Tagged entries\<close>

definition tagged :: "sound_entry \<Rightarrow> bool" where
  "tagged p \<longleftrightarrow> (case se_type p of
      EVENT_T \<Rightarrow> (\<exists>e. se_data p = EventData e) | STATE_T \<Rightarrow> (\<exists>st. se_data p = StateData st))"

definition table_tagged :: "sound_table \<Rightarrow> bool" where
  "table_tagged tab \<longleftrightarrow> (\<exists>bs. tab = Ptr bs \<and> length bs = 256 \<and> (\<forall>b\<in>set bs. \<forall>p\<in>set b. tagged p))"

text \<open>Tables the program can build.\<close>

inductive built :: "sound_table \<Rightarrow> bool" where
  empty: "engineInitSoundTable True = (r, t) \<Longrightarrow> built t"
| event: "built t \<Longrightarrow> engineSoundTableInsertEvent ok name ev t = Inr (r, t') \<Longrightarrow> built t'"
| state: "built t \<Longrightarrow> engineSoundTableInsertState ok name st t = Inr (r, t') \<Longrightarrow> built t'"

lemma chain_append_set: "chain_append b e = Some b' \<Longrightarrow> set b' = insert e (set b)"
  by (induction b e arbitrary: b' rule: chain_append.induct) (auto split: if_splits)

lemma insert_tagged:
  assumes "table_tagged t" and "tagged e" and "engineSoundTableInsert e t = Inr (r, t')"
  shows "table_tagged t'"
proof -
  obtain bs where bs: "t = Ptr bs" "length bs = 256" "\<forall>b\<in>set bs. \<forall>p\<in>set b. tagged p"
    using assms(1) by (auto simp: table_tagged_def)
  have put: "table_tagged (Ptr (bs[i := b']))" if "\<forall>p\<in>set b'. tagged p" for i b'
    using bs(2,3) that set_update_subset_insert [of bs i b'] unfolding table_tagged_def by fastforce
  define k where "k = engineSoundHash (se_name e)"
  obtain b where b: "aget bs k = Inr b" and
    run: "(if b = [] then bindE (aset bs k [e]) (\<lambda>bs'. Inr (ENGINE_SUCCESS, Ptr bs'))
      else case chain_append b e of None \<Rightarrow> Inr (ENGINE_SOUND_EXISTS, t)
        | Some b' \<Rightarrow> bindE (aset bs k b') (\<lambda>bs'. Inr (ENGINE_SUCCESS, Ptr bs'))) = Inr (r, t')"
    using assms(3) bs(1) unfolding engineSoundTableInsert_def Let_def k_def by (auto simp: bindE_eq_Inr_iff)
  have k: "nat k < length bs" "aset bs k x = Inr (bs[nat k := x])" and bk: "b = bs ! nat k" for x
    using b by (auto simp: aget_def aset_def split: if_splits)
  have tb: "\<forall>p\<in>set b. tagged p" using bs(3) nth_mem [OF k(1)] bk by simp
  have "t' = t \<or> (\<exists>b'. t' = Ptr (bs[nat k := b']) \<and> (\<forall>p\<in>set b'. tagged p))"
  proof (cases "b = [] \<or> chain_append b e = None")
    case True
    then show ?thesis using run k(2) assms(2) by (auto split: if_splits intro!: exI [of _ "[e]"])
  next
    case False
    then obtain b' where b': "chain_append b e = Some b'" by auto
    then have "\<forall>p\<in>set b'. tagged p" using chain_append_set [OF b'] tb assms(2) by simp
    then show ?thesis using run k(2) False b' by auto
  qed
  then show ?thesis using put assms(1) by blast
qed

lemma built_tagged: "built t \<Longrightarrow> table_tagged t"
proof (induction rule: built.induct)
  case (empty r t)
  then show ?case using initial_table
    by (auto simp: engineInitSoundTable_def table_tagged_def HASHES_def)
next
  case (event t ok name ev r t')
  then show ?case
    using insert_tagged [of t "\<lparr>se_name = name, se_data = EventData ev, se_type = EVENT_T\<rparr>"]
    by (auto simp: engineSoundTableInsertEvent_def tagged_def split: if_splits)
next
  case (state t ok name st r t')
  then show ?case
    using insert_tagged [of t "\<lparr>se_name = name, se_data = StateData st, se_type = STATE_T\<rparr>"]
    by (auto simp: engineSoundTableInsertState_def tagged_def split: if_splits)
qed

lemma tagged_lookup:
  assumes "table_tagged t" and "engineSoundTableRetrieve name t = Inr (Some ent)"
  shows "tagged ent"
proof -
  obtain bs where bs: "t = Ptr bs" "length bs = 256" "\<forall>b\<in>set bs. \<forall>p\<in>set b. tagged p"
    using assms(1) by (auto simp: table_tagged_def)
  have wf: "table_wf t" using bs by (simp add: table_wf_def)
  have "ent \<in> set (bs ! slot name)"
    using assms(2) bs(1) unfolding retrieve_eq [OF wf]
    by (auto simp: bucket_def split: if_splits list.splits)
  moreover have "bs ! slot name \<in> set bs" using bs(2) slot_less [of name] by simp
  ultimately show ?thesis using bs(3) by blast
qed

section \<open>Properties\<close>

text \<open>
  C30.  Types of the sound table.  In every table built by the two insert functions, an entry that is found holds
  what its type says.  So the engine's casts behind its comparison of types are safe and the count
  of samples, which looks at the type, returns; fetching a sample, which does not, reads behind
  the entry of a state.
\<close>

theorem sound_table_well_typed:
  assumes "built t" and "engineSoundTableRetrieve name t = Inr (Some ent)"
  shows "(\<exists>n. engineGetNoEventSnds name t = Inr n) \<and>
    (se_type ent = EVENT_T \<longrightarrow> (\<exists>e. as_event_entry (se_data ent) = Inr e \<and>
       (\<forall>i. engineGetEventSnd name i t = aget (snds e) i))) \<and>
    (se_type ent = STATE_T \<longrightarrow> (\<exists>st. as_state_entry (se_data ent) = Inr st) \<and>
       engineGetNoEventSnds name t = Inr ENGINE_SOUND_NOT_FOUND \<and>
       (\<forall>i. engineGetEventSnd name i t = Inl OutOfBounds))"
  using tagged_lookup [OF built_tagged [OF assms(1)] assms(2)] assms(2)
  by (cases "se_type ent") (auto simp: engineGetNoEventSnds_def engineGetEventSnd_def tagged_def)

theorem sound_table_well_typed_witness:
  "\<exists>t. engineSoundTableInsertState True ''ab'' \<lparr>mixer_index = 0\<rparr> fresh_table = Inr (ENGINE_SUCCESS, t) \<and>
     engineGetEventSnd ''ab'' 0 t = Inl OutOfBounds"
proof -
  let ?e = "\<lparr>se_name = ''ab'', se_data = StateData \<lparr>mixer_index = 0\<rparr>, se_type = STATE_T\<rparr>"
  have h: "hashable (se_name ?e)" by (simp add: hash_eval)
  have "bucket (slot (se_name ?e)) fresh_table = []" using initial_table slot_less by simp
  from insert_vacant [OF _ h this] obtain t where t: "engineSoundTableInsert ?e fresh_table = Inr (ENGINE_SUCCESS, t)"
    "table_wf t" "\<forall>i. bucket i t = (if i = slot ''ab'' then [?e] else bucket i fresh_table)"
    using initial_table by (auto simp: table_wf_def)
  have ins: "engineSoundTableInsertState True ''ab'' \<lparr>mixer_index = 0\<rparr> fresh_table = Inr (ENGINE_SUCCESS, t)"
    using t(1) by (simp add: engineSoundTableInsertState_def)
  have "built fresh_table" by (rule built.empty [of ENGINE_SUCCESS]) (simp add: engineInitSoundTable_def)
  then have b: "built t" by (rule built.state [OF _ ins])
  have "engineSoundTableRetrieve ''ab'' t = Inr (Some ?e)"
    unfolding retrieve_eq [OF t(2)] using t(3) by (simp add: hash_eval)
  from sound_table_well_typed [OF b this] ins show ?thesis by auto
qed

end
