(* ===== verification/Logging.thy ===== *)
theory Logging
  imports C_Strings
begin

text \<open>
  debug.c: the log.  A message is what its format and arguments make of it; the stream is what has
  been written.  Shown: the line written for a harmless message, that the line's memory is exactly as
  large as needed whatever the message, and that a message is used as a format a second time, so
  that a percent sign in it reads arguments that were not passed.
\<close>

section \<open>Levels (debug.h)\<close>

definition DBG_DEF :: "32 word" where "DBG_DEF = push_bit 0 1"
definition DBG_GEN :: "32 word" where "DBG_GEN = push_bit 2 1"
definition DBG_SETUP :: "32 word" where "DBG_SETUP = push_bit 3 1"
definition DBG_SRVR :: "32 word" where "DBG_SRVR = push_bit 4 1"
definition DBG_HOOK :: "32 word" where "DBG_HOOK = push_bit 5 1"
definition DBG_ENG :: "32 word" where "DBG_ENG = push_bit 6 1"
definition DBG_MXR :: "32 word" where "DBG_MXR = push_bit 8 1"
definition DBG_AUTO :: "32 word" where "DBG_AUTO = push_bit 10 1"
definition DBG_QUE :: "32 word" where "DBG_QUE = push_bit 12 1"
definition DBG_PLBK :: "32 word" where "DBG_PLBK = push_bit 14 1"
definition DBG_ASSRT :: "32 word" where "DBG_ASSRT = push_bit 31 1"

definition DBG_LOWEST :: "32 word" where "DBG_LOWEST = or DBG_DEF DBG_GEN"
definition DBG_LOWER :: "32 word" where "DBG_LOWER = or (or DBG_LOWEST DBG_SETUP) DBG_SRVR"
definition DBG_MEDIUM :: "32 word" where "DBG_MEDIUM = or (or DBG_LOWER DBG_PLBK) DBG_ENG"
definition DBG_HIGHER :: "32 word" where "DBG_HIGHER = or (or (or DBG_MEDIUM DBG_MXR) DBG_AUTO) DBG_HOOK"
definition DBG_HIGHEST :: "32 word" where "DBG_HIGHEST = or DBG_HIGHER DBG_QUE"
definition DBG_ALL_W_ASSERT :: "32 word" where "DBG_ALL_W_ASSERT = or DBG_HIGHEST DBG_ASSRT"

lemmas debug_levels = DBG_DEF_def DBG_GEN_def DBG_SETUP_def DBG_SRVR_def DBG_HOOK_def DBG_ENG_def DBG_MXR_def
  DBG_AUTO_def DBG_QUE_def DBG_PLBK_def DBG_ASSRT_def DBG_LOWEST_def DBG_LOWER_def DBG_MEDIUM_def DBG_HIGHER_def
  DBG_HIGHEST_def DBG_ALL_W_ASSERT_def

definition LOG_BUF :: nat where "LOG_BUF = 1024"

section \<open>Operations\<close>

text \<open>\<open>log_handle\<close>: no stream, or what has been written to it.\<close>

type_synonym log_handle = "string ptr"

text \<open>
  Opening the log.  With a file name, the buffer for the error message is appended to without having
  been initialised, if there is memory for it.
\<close>

definition logInit :: "bool \<Rightarrow> bool \<Rightarrow> string option \<Rightarrow> log_handle \<Rightarrow> (int \<times> log_handle) result" where
  "logInit malloc_ok fopen_ok log_file h =
     (case log_file of
        Some f \<Rightarrow> if malloc_ok then Inl UninitRead
                  else if \<not> fopen_ok then Inr (0, Null) else Inr (1, Ptr [])
      | None \<Rightarrow> Inr (1, Ptr []))"

definition logClose :: "log_handle \<Rightarrow> log_handle result" where
  "logClose h = (case h of Null \<Rightarrow> Inl NullDeref | Freed \<Rightarrow> Inl UseAfterFree | Ptr t \<Rightarrow> Inr Freed)"

text \<open>\<open>fprintf\<close> with a format and no arguments: a conversion reads an argument that is not there.\<close>

fun print_bare :: "string \<Rightarrow> string result" where
  "print_bare [] = Inr []"
| "print_bare (c # cs) =
     (if c \<noteq> CHR ''%'' then bindE (print_bare cs) (\<lambda>t. Inr (c # t))
      else case cs of [] \<Rightarrow> Inl UninitRead
           | d # ds \<Rightarrow> if d = CHR ''%'' then bindE (print_bare ds) (\<lambda>t. Inr (CHR ''%'' # t)) else Inl UninitRead)"

text \<open>What \<open>vsnprintf\<close> leaves in the buffer.\<close>

definition log_output :: "string \<Rightarrow> string" where
  "log_output msg = take (LOG_BUF - 1) msg"

text \<open>
  The line and the bytes allocated for it, the allocation being taken to succeed; \<open>time_string\<close> is the
  result of \<open>asctime\<close>.
\<close>

definition log_string :: "string \<Rightarrow> string \<Rightarrow> string" where
  "log_string time_string output = ''['' @ butlast time_string @ ''] '' @ output"

definition log_alloc :: "string \<Rightarrow> string \<Rightarrow> nat" where
  "log_alloc time_string output = length output + length (butlast time_string) + 4"

definition logMsg :: "32 word \<Rightarrow> string \<Rightarrow> 32 word \<Rightarrow> string \<Rightarrow> log_handle \<Rightarrow> log_handle result" where
  "logMsg debug_level asctime level msg h =
     (if and level debug_level = 0 then Inr h
      else if asctime = [] then Inl OutOfBounds
      else let output = log_output msg; line = log_string asctime output in
        if log_alloc asctime output < length line + 1 then Inl OutOfBounds
        else bindE (pget h) (\<lambda>written.
             bindE (print_bare line) (\<lambda>t. Inr (Ptr (written @ t)))))"

text \<open>An assertion of the source, when compiled in: it is logged and evaluated.\<close>

definition assert_fn :: "32 word \<Rightarrow> string \<Rightarrow> int \<Rightarrow> string \<Rightarrow> log_handle \<Rightarrow> (int \<times> log_handle) result" where
  "assert_fn debug_level asctime b msg h =
     bindE (if b = 0 then logMsg debug_level asctime DBG_ASSRT msg h else Inr h) (\<lambda>h1.
     Inr (of_bool (b \<noteq> 0), h1))"

section \<open>Printing without arguments\<close>

text \<open>Percent signs in pairs.\<close>

fun escaped :: "string \<Rightarrow> string" where
  "escaped [] = []"
| "escaped (c # cs) = (if c = CHR ''%'' then [c, c] else [c]) @ escaped cs"

lemma print_escaped: "print_bare (escaped t) = Inr t"
  by (induction t) auto

lemma print_bare_iff: "(\<exists>r. print_bare f = Inr r) \<longleftrightarrow> (\<exists>t. f = escaped t)"
proof (induction f rule: print_bare.induct)
  case 1
  show ?case by (auto intro: exI [of _ "[]"])
next
  case (2 c cs)
  show ?case
  proof (cases "c = CHR ''%''")
    case False
    then have "(\<exists>r. print_bare (c # cs) = Inr r) \<longleftrightarrow> (\<exists>t. cs = escaped t)"
      using 2(1) by (auto simp: bindE_eq_Inr_iff)
    also have "\<dots> \<longleftrightarrow> (\<exists>t. c # cs = escaped t)"
    proof
      assume "\<exists>t. cs = escaped t"
      then obtain t where "cs = escaped t" ..
      then have "c # cs = escaped (c # t)" using False by simp
      then show "\<exists>t. c # cs = escaped t" ..
    next
      assume "\<exists>t. c # cs = escaped t"
      then obtain t where t: "c # cs = escaped t" ..
      then show "\<exists>t. cs = escaped t" using False by (cases t) (auto split: if_splits)
    qed
    finally show ?thesis .
  next
    case True
    show ?thesis
    proof (cases "\<exists>ds. cs = CHR ''%'' # ds")
      case pair: True
      then obtain ds where ds: "cs = CHR ''%'' # ds" ..
      have "(\<exists>r. print_bare (c # cs) = Inr r) \<longleftrightarrow> (\<exists>t. ds = escaped t)"
        using 2(2) True ds by (auto simp: bindE_eq_Inr_iff)
      also have "\<dots> \<longleftrightarrow> (\<exists>t. c # cs = escaped t)"
      proof
        assume "\<exists>t. ds = escaped t"
        then obtain t where "ds = escaped t" ..
        then have "c # cs = escaped (CHR ''%'' # t)" using True ds by simp
        then show "\<exists>t. c # cs = escaped t" ..
      next
        assume "\<exists>t. c # cs = escaped t"
        then obtain t where "c # cs = escaped t" ..
        then show "\<exists>t. ds = escaped t" using True ds by (cases t) (auto split: if_splits)
      qed
      finally show ?thesis .
    next
      case False
      then have "\<nexists>r. print_bare (c # cs) = Inr r" using True by (auto split: list.splits)
      moreover have "\<nexists>t. c # cs = escaped t"
      proof
        assume "\<exists>t. c # cs = escaped t"
        then obtain t where "c # cs = escaped t" ..
        then show False using True False by (cases t) (auto split: if_splits)
      qed
      ultimately show ?thesis by simp
    qed
  qed
qed

lemma print_bare_plain: "CHR ''%'' \<notin> set f \<Longrightarrow> print_bare f = Inr f"
  by (induction f) auto

lemma print_bare_conversion:
  "CHR ''%'' \<notin> set f \<Longrightarrow> c \<noteq> CHR ''%'' \<Longrightarrow> print_bare (f @ CHR ''%'' # c # g) = Inl UninitRead"
  by (induction f) auto

section \<open>Logging to an open stream\<close>

lemma log_alloc_exact: "log_alloc asctime output = length (log_string asctime output) + 1"
  by (simp add: log_alloc_def log_string_def)

lemma logMsg_open:
  assumes "and level debug_level \<noteq> 0" and "asctime \<noteq> []"
  shows "logMsg debug_level asctime level msg (Ptr old) =
      bindE (print_bare (log_string asctime (log_output msg))) (\<lambda>t. Inr (Ptr (old @ t)))"
  using assms log_alloc_exact by (simp add: logMsg_def Let_def)

lemma log_string_plain:
  assumes "CHR ''%'' \<notin> set asctime" and "CHR ''%'' \<notin> set msg"
  shows "CHR ''%'' \<notin> set (log_string asctime (log_output msg))"
  using assms in_set_butlastD [of _ asctime] set_take_subset [of "LOG_BUF - 1" msg]
  by (auto simp: log_string_def log_output_def)

lemma logMsg_plain:
  assumes "and level debug_level \<noteq> 0" and "asctime \<noteq> []" and "CHR ''%'' \<notin> set asctime" and "CHR ''%'' \<notin> set msg"
  shows "logMsg debug_level asctime level msg (Ptr old) = Inr (Ptr (old @ log_string asctime (log_output msg)))"
  using logMsg_open [OF assms(1,2)] print_bare_plain [OF log_string_plain [OF assms(3,4)]] by simp

section \<open>Properties\<close>

text \<open>
  C38.  Logging a message.  A message at a level that is compiled in, logged to an open stream, never runs over
  the buffers: the line has exactly the length that was allocated less its end.  A
  message without percent signs is appended, cut to 1023 characters, behind the time in
  brackets; any message is written without a fault exactly if every percent sign in its line is doubled,
  because the finished line is used as a format.
\<close>

theorem logMsg_line:
  assumes "and level debug_level \<noteq> 0" and "asctime \<noteq> []" and "CHR ''%'' \<notin> set asctime"
  shows "log_alloc asctime (log_output msg) = length (log_string asctime (log_output msg)) + 1 \<and>
    (CHR ''%'' \<notin> set msg \<longrightarrow> logMsg debug_level asctime level msg (Ptr old) =
       Inr (Ptr (old @ ''['' @ butlast asctime @ ''] '' @ take 1023 msg))) \<and>
    ((\<exists>h. logMsg debug_level asctime level msg (Ptr old) = Inr h) \<longleftrightarrow>
       (\<exists>t. log_string asctime (log_output msg) = escaped t))"
proof -
  have run: "logMsg debug_level asctime level msg (Ptr old) =
      bindE (print_bare (log_string asctime (log_output msg))) (\<lambda>t. Inr (Ptr (old @ t)))"
    using logMsg_open [OF assms(1,2)] .
  have "(\<exists>h. logMsg debug_level asctime level msg (Ptr old) = Inr h) \<longleftrightarrow>
       (\<exists>r. print_bare (log_string asctime (log_output msg)) = Inr r)"
    unfolding run by (auto simp: bindE_eq_Inr_iff)
  moreover have "CHR ''%'' \<notin> set msg \<longrightarrow> logMsg debug_level asctime level msg (Ptr old) =
       Inr (Ptr (old @ ''['' @ butlast asctime @ ''] '' @ take 1023 msg))"
    using logMsg_plain [OF assms, of msg old] by (simp add: log_string_def log_output_def LOG_BUF_def)
  ultimately show ?thesis using log_alloc_exact print_bare_iff by blast
qed

theorem logMsg_line_witness:
  "logMsg DBG_LOWER ''Mon 12:00X'' DBG_SRVR ''hello'' (Ptr ''old '') = Inr (Ptr ''old [Mon 12:00] hello'') \<and>
   \<not> (\<exists>h. logMsg DBG_LOWER ''Mon 12:00X'' DBG_SRVR ''%s'' (Ptr []) = Inr h)"
proof -
  have l: "and DBG_SRVR DBG_LOWER \<noteq> 0" by (simp add: debug_levels)
  have no: "\<nexists>t. log_string ''Mon 12:00X'' (log_output ''%s'') = escaped t"
    using print_bare_iff [of "log_string ''Mon 12:00X'' (log_output ''%s'')"]
    by (simp add: log_string_def log_output_def LOG_BUF_def)
  show ?thesis
    using logMsg_line [OF l, of "''Mon 12:00X''" "''hello''" "''old ''"] logMsg_line [OF l, of "''Mon 12:00X''" "''%s''" "[]"] no
    by simp
qed

end
