(* ===== verification/Notice_Hook.thy ===== *)
theory Notice_Hook
  imports Notice Logging
begin

text \<open>
  notice.c, \<open>executeEventNoticeHook\<close>: what is logged about a client's notice when the debugging level has the
  hook's bit.  Shown: a harmless notice appends its lines, and a percent sign in the data a client
  sends is taken for a conversion.
\<close>

section \<open>Formatting\<close>

text \<open>\<open>%s\<close>, \<open>%d\<close> and \<open>%04x\<close>.\<close>

definition fmt_s :: "string option \<Rightarrow> string result" where
  "fmt_s s = (case s of None \<Rightarrow> Inl NullDeref | Some t \<Rightarrow> Inr t)"

definition fmt_d :: "int \<Rightarrow> string" where
  "fmt_d n = (if n < 0 then CHR ''-'' # show_nat (nat (- n)) else show_nat (nat n))"

fun hex_digits :: "nat \<Rightarrow> string" where
  "hex_digits n =
     (let d = ''0123456789abcdef'' ! (n mod 16) in if n < 16 then [d] else hex_digits (n div 16) @ [d])"

declare hex_digits.simps [simp del]

definition fmt_04x :: "int \<Rightarrow> string" where
  "fmt_04x n = (let h = hex_digits (unat (word_of_int n :: 32 word)) in replicate (4 - length h) (CHR ''0'') @ h)"

definition hook_line :: "string \<Rightarrow> string \<Rightarrow> string" where
  "hook_line name text' = CHR 0x09 # name @ ''['' @ text' @ '']'' @ [NL]"

definition hook_messages :: "string \<Rightarrow> NOTICE \<Rightarrow> string list result" where
  "hook_messages date nt =
     bindE (fmt_s (nt_host nt)) (\<lambda>host.
     bindE (fmt_s (nt_client nt)) (\<lambda>client.
     bindE (fmt_s (nt_data nt)) (\<lambda>dat.
     bindE (fmt_s (nt_sound nt)) (\<lambda>sound.
     Inr [[NL], ''Event notice hook executed!'' @ [NL], ''XML notice was:'' @ [NL],
          hook_line ''Host:     '' host, hook_line ''Client:   '' client, hook_line ''Date:     '' date,
          hook_line ''Data:     '' dat, hook_line ''Metric:   '' (fmt_d (nt_metric nt)),
          hook_line ''Type:     '' (fmt_d (nt_type nt)), hook_line ''Sound:    '' sound,
          hook_line ''Location: '' (fmt_d (nt_location nt)), hook_line ''Priority: '' (fmt_d (nt_priority nt)),
          hook_line ''Volume:   '' (fmt_d (nt_volume nt)), hook_line ''Dither:   '' (fmt_d (nt_dither nt)),
          hook_line ''Flags:    '' (''0x'' @ fmt_04x (nt_flags nt))]))))"

text \<open>
  \<open>date\<close> is what \<open>asctime\<close> makes of the date of the notice, in the static buffer that \<open>asctime\<close> always
  uses.  The messages logged before the date is printed have put the present time there and removed
  its newline.
\<close>

definition executeEventNoticeHook ::
  "32 word \<Rightarrow> string \<Rightarrow> string \<Rightarrow> NOTICE \<Rightarrow> log_handle \<Rightarrow> log_handle result" where
  "executeEventNoticeHook debug_level asctime date nt h =
     (if and debug_level DBG_HOOK = 0 then Inr h
      else if date = [] then Inl OutOfBounds
      else bindE (hook_messages (butlast asctime) nt) (\<lambda>ms. foldE (logMsg debug_level asctime DBG_HOOK) ms h))"

section \<open>Numbers hold no percent sign\<close>

lemma show_nat_plain: "CHR ''%'' \<notin> set (show_nat n)"
  using show_nat_digits [of n] by (auto simp: char_defs)

lemma fmt_d_plain: "CHR ''%'' \<notin> set (fmt_d n)"
  using show_nat_plain by (simp add: fmt_d_def)

lemma hex_digit_plain: "i < 16 \<Longrightarrow> ''0123456789abcdef'' ! i \<noteq> CHR ''%''"
proof -
  assume "i < 16"
  then have "i \<in> set [0, 1, 2, 3, 4, 5, 6, 7, 8, 9, 10, 11, 12, 13, 14, 15]" by (simp, presburger)
  then show ?thesis by auto
qed

lemma hex_digits_plain: "CHR ''%'' \<notin> set (hex_digits n)"
proof (induction n rule: hex_digits.induct)
  case (1 n)
  have "''0123456789abcdef'' ! (n mod 16) \<noteq> CHR ''%''" by (rule hex_digit_plain) simp
  then show ?case using 1 by (subst hex_digits.simps) (auto simp: Let_def)
qed

lemma fmt_04x_plain: "CHR ''%'' \<notin> set (fmt_04x n)"
  using hex_digits_plain by (auto simp: fmt_04x_def Let_def)

lemma hook_line_plain: "CHR ''%'' \<notin> set (hook_line name t) \<longleftrightarrow> CHR ''%'' \<notin> set name \<and> CHR ''%'' \<notin> set t"
  by (auto simp: hook_line_def)

section \<open>Logging several messages\<close>

lemma fold_log_plain:
  assumes "and level debug_level \<noteq> 0" and "asctime \<noteq> []" and "CHR ''%'' \<notin> set asctime"
  shows "\<forall>m\<in>set ms. CHR ''%'' \<notin> set m \<Longrightarrow> foldE (logMsg debug_level asctime level) ms (Ptr old) =
     Inr (Ptr (old @ concat (map (\<lambda>m. log_string asctime (log_output m)) ms)))"
  by (induction ms arbitrary: old) (auto simp: logMsg_plain [OF assms])

lemma fold_log_conversion:
  assumes "and level debug_level \<noteq> 0" and "asctime \<noteq> []" and "CHR ''%'' \<notin> set asctime"
    and "\<forall>m\<in>set ms. CHR ''%'' \<notin> set m" and "CHR ''%'' \<notin> set f" and "c \<noteq> CHR ''%''" and "length f < 1022"
  shows "foldE (logMsg debug_level asctime level) (ms @ (f @ CHR ''%'' # c # g) # ns) (Ptr old) = Inl UninitRead"
proof -
  have "log_output (f @ CHR ''%'' # c # g) = f @ CHR ''%'' # c # take (1021 - length f) g"
    using assms(7) by (simp add: log_output_def LOG_BUF_def take_Cons')
  then have "log_string asctime (log_output (f @ CHR ''%'' # c # g)) =
      (''['' @ butlast asctime @ ''] '' @ f) @ CHR ''%'' # c # take (1021 - length f) g"
    by (simp add: log_string_def)
  moreover have "CHR ''%'' \<notin> set (''['' @ butlast asctime @ ''] '' @ f)"
    using assms(3,5) in_set_butlastD [of _ asctime] by auto
  ultimately have "print_bare (log_string asctime (log_output (f @ CHR ''%'' # c # g))) = Inl UninitRead"
    using print_bare_conversion [OF _ assms(6), of "''['' @ butlast asctime @ ''] '' @ f"] by metis
  then have bad: "logMsg debug_level asctime level (f @ CHR ''%'' # c # g) (Ptr o') = Inl UninitRead" for o'
    by (simp add: logMsg_open [OF assms(1,2)])
  show ?thesis using fold_log_plain [OF assms(1-4)] bad by (simp add: foldE_append)
qed

section \<open>The lines before and behind the data\<close>

definition hook_head :: "string \<Rightarrow> string \<Rightarrow> string \<Rightarrow> string list" where
  "hook_head host client date =
     [[NL], ''Event notice hook executed!'' @ [NL], ''XML notice was:'' @ [NL],
      hook_line ''Host:     '' host, hook_line ''Client:   '' client, hook_line ''Date:     '' date]"

definition hook_tail :: "string \<Rightarrow> NOTICE \<Rightarrow> string list" where
  "hook_tail sound nt =
     [hook_line ''Metric:   '' (fmt_d (nt_metric nt)),
      hook_line ''Type:     '' (fmt_d (nt_type nt)), hook_line ''Sound:    '' sound,
      hook_line ''Location: '' (fmt_d (nt_location nt)), hook_line ''Priority: '' (fmt_d (nt_priority nt)),
      hook_line ''Volume:   '' (fmt_d (nt_volume nt)), hook_line ''Dither:   '' (fmt_d (nt_dither nt)),
      hook_line ''Flags:    '' (''0x'' @ fmt_04x (nt_flags nt))]"

lemma hook_messages_split:
  assumes "nt_host nt = Some host" "nt_client nt = Some client" "nt_sound nt = Some sound" "nt_data nt = Some dat"
  shows "hook_messages date nt = Inr (hook_head host client date @ hook_line ''Data:     '' dat # hook_tail sound nt)"
  by (simp add: assms hook_messages_def fmt_s_def hook_head_def hook_tail_def)

lemma hook_head_plain:
  assumes "CHR ''%'' \<notin> set host \<union> set client" and "CHR ''%'' \<notin> set date"
  shows "\<forall>m\<in>set (hook_head host client date). CHR ''%'' \<notin> set m"
  using assms by (simp add: hook_head_def hook_line_plain)

lemma hook_tail_plain: "CHR ''%'' \<notin> set sound \<Longrightarrow> \<forall>m\<in>set (hook_tail sound nt). CHR ''%'' \<notin> set m"
  by (simp add: hook_tail_def hook_line_plain fmt_d_plain fmt_04x_plain)

lemma hook_size: "length (hook_head host client date @ x # hook_tail sound nt) = 15"
  by (simp add: hook_head_def hook_tail_def)

lemma hook_date: "(hook_head host client date @ x # hook_tail sound nt) ! 5 = hook_line ''Date:     '' date"
  by (simp add: hook_head_def eval_nat_numeral)

section \<open>Properties\<close>

text \<open>
  Logging a client's notice.  With the hook's debugging level compiled in, a notice whose texts hold no
  percent sign appends its fifteen lines to the log; the date among them is the present time and not the date of
  the notice.  If the data a client sends hold a percent sign that
  is not doubled (within the first thousand characters), logging them reads arguments that
  do not exist, whatever the rest of the notice.
\<close>

theorem notice_hook_format:
  assumes "and DBG_HOOK debug_level \<noteq> 0" and "asctime \<noteq> []" and "CHR ''%'' \<notin> set asctime"
    and "date \<noteq> []"
    and "nt_host nt = Some host" "nt_client nt = Some client" "nt_sound nt = Some sound" "nt_data nt = Some dat"
    and "CHR ''%'' \<notin> set host \<union> set client"
  shows "(CHR ''%'' \<notin> set dat \<union> set sound \<longrightarrow> (\<exists>ms. hook_messages (butlast asctime) nt = Inr ms \<and> length ms = 15 \<and>
      ms ! 5 = hook_line ''Date:     '' (butlast asctime) \<and>
      executeEventNoticeHook debug_level asctime date nt (Ptr old) =
        Inr (Ptr (old @ concat (map (\<lambda>m. log_string asctime (log_output m)) ms))))) \<and>
    (\<forall>a b. dat = a @ ''%'' @ b \<longrightarrow> CHR ''%'' \<notin> set a \<longrightarrow> length a < 1000 \<longrightarrow> (b = [] \<or> hd b \<noteq> CHR ''%'') \<longrightarrow>
      executeEventNoticeHook debug_level asctime date nt (Ptr old) = Inl UninitRead)"
proof (intro conjI impI allI)
  let ?ms = "hook_head host client (butlast asctime) @ hook_line ''Data:     '' dat # hook_tail sound nt"
  have ms: "hook_messages (butlast asctime) nt = Inr ?ms" by (rule hook_messages_split [OF assms(5,6,7,8)])
  have on: "and debug_level DBG_HOOK \<noteq> 0" using assms(1) by (simp add: and.commute)
  have run: "executeEventNoticeHook debug_level asctime date nt h = foldE (logMsg debug_level asctime DBG_HOOK) ?ms h" for h
    unfolding executeEventNoticeHook_def ms using on assms(4) by simp
  have "CHR ''%'' \<notin> set (butlast asctime)" using assms(3) in_set_butlastD by metis
  then have head: "\<forall>m\<in>set (hook_head host client (butlast asctime)). CHR ''%'' \<notin> set m" by (rule hook_head_plain [OF assms(9)])
  {
    assume plain: "CHR ''%'' \<notin> set dat \<union> set sound"
    then have "\<forall>m\<in>set ?ms. CHR ''%'' \<notin> set m" using head hook_tail_plain [of sound nt] by (auto simp: hook_line_plain)
    then show "\<exists>ms. hook_messages (butlast asctime) nt = Inr ms \<and> length ms = 15 \<and>
        ms ! 5 = hook_line ''Date:     '' (butlast asctime) \<and>
        executeEventNoticeHook debug_level asctime date nt (Ptr old) =
          Inr (Ptr (old @ concat (map (\<lambda>m. log_string asctime (log_output m)) ms)))"
      using ms hook_date [of host client "butlast asctime" _ sound nt] hook_size [of host client "butlast asctime" _ sound nt]
        trans [OF run fold_log_plain [OF assms(1-3), of ?ms old]] by (intro exI [of _ ?ms]) simp
  }
  fix a b
  assume dat: "dat = a @ ''%'' @ b" "CHR ''%'' \<notin> set a" "length a < 1000" and b: "b = [] \<or> hd b \<noteq> CHR ''%''"
  obtain c g where cg: "b @ '']'' @ [NL] = c # g" "c \<noteq> CHR ''%''" using b by (cases b) auto
  let ?f = "CHR 0x09 # ''Data:     ['' @ a"
  have line: "hook_line ''Data:     '' dat = ?f @ CHR ''%'' # c # g"
    using dat(1) cg(1) by (simp add: hook_line_def)
  have f: "CHR ''%'' \<notin> set ?f" "length ?f < 1022" using dat(2,3) by simp_all
  show "executeEventNoticeHook debug_level asctime date nt (Ptr old) = Inl UninitRead"
    unfolding run line by (rule fold_log_conversion [OF assms(1-3) head f(1) cg(2) f(2)])
qed

theorem notice_hook_format_witness:
  "executeEventNoticeHook DBG_HIGHER ''Mon 12:00X'' ''Tue 1:00X''
     (noticeCreateNotice\<lparr>nt_host := Some ''h'', nt_client := Some ''c'', nt_sound := Some ''s'', nt_data := Some ''%n''\<rparr>)
     (Ptr []) = Inl UninitRead"
proof -
  have l: "and DBG_HOOK DBG_HIGHER \<noteq> 0" by (simp add: debug_levels)
  let ?nt = "noticeCreateNotice\<lparr>nt_host := Some ''h'', nt_client := Some ''c'', nt_sound := Some ''s'', nt_data := Some ''%n''\<rparr>"
  have "\<forall>a b. ''%n'' = a @ ''%'' @ b \<longrightarrow> CHR ''%'' \<notin> set a \<longrightarrow> length a < 1000 \<longrightarrow> (b = [] \<or> hd b \<noteq> CHR ''%'') \<longrightarrow>
      executeEventNoticeHook DBG_HIGHER ''Mon 12:00X'' ''Tue 1:00X'' ?nt (Ptr []) = Inl UninitRead"
    by (rule notice_hook_format [OF l, of _ _ ?nt "''h''" "''c''" "''s''", THEN conjunct2]) simp_all
  from this [rule_format, of "[]" "''n''"] show ?thesis by simp
qed

end
