(* ===== verification/Queue_Race.thy ===== *)
theory Queue_Race
  imports Engine_Queue
begin

text \<open>
  engine_queue.c, statement by statement.  \<open>engineEnqueue\<close> is called by every servlet thread, the
  receiving loop and the playback thread, \<open>engineDequeue\<close> by the engine thread, and no lock guards
  \<open>head\<close>, \<open>tail\<close> and the cells: only the count of the semaphore is shared safely.
  Here a call is a thread with a program counter, and a step executes one statement of it.  Shown: a
  call that nothing interrupts is the operation of the theory \<open>Engine_Queue\<close>; under every interleaving
  the semaphore counts the finished calls; but it need not count the elements: two
  overlapping \<open>engineEnqueue\<close> calls can lose an event, after which the engine thread reads through
  \<open>NULL\<close>, and an \<open>engineEnqueue\<close> that overlaps an \<open>engineDequeue\<close> can write to freed memory.
\<close>

section \<open>Program counters and steps\<close>

text \<open>
  The arguments are the locals of the call: the parameter \<open>d\<close> and \<open>cur_pos\<close> of \<open>engineEnqueue\<close>,
  \<open>temp\<close> of \<open>engineDequeue\<close>; \<open>D_Acquire\<close> has the flag \<open>eintr\<close> of the wait.  A finished call keeps
  what it returns.
\<close>

datatype eq_pc =
    E_Start EVENT
  | E_Test EVENT "nat option"
  | E_First EVENT
  | E_First_Event EVENT
  | E_First_Links
  | E_First_Tail
  | E_Walk EVENT "nat option"
  | E_Link EVENT "nat option"
  | E_Link_Event EVENT "nat option"
  | E_Link_Next "nat option"
  | E_Link_Prev "nat option"
  | E_Link_Tail "nat option"
  | E_Release
  | D_Acquire bool
  | D_Read
  | D_Test EVENT
  | D_Back EVENT
  | D_Free_Next EVENT
  | D_Clear EVENT
  | D_Free_Tail EVENT
  | D_Reset EVENT
  | Finished "EVENT option"

text \<open>\<open>p->field = v\<close>, the new contents of the cell being given by \<open>f\<close>.\<close>

definition store_cell ::
  "nat option \<Rightarrow> (ENGINE_QUEUE_ELEMENT \<Rightarrow> ENGINE_QUEUE_ELEMENT) \<Rightarrow> engine_queue \<Rightarrow> engine_queue result"
where
  "store_cell p f q =
     bindE (deref (eq_mem q) p) (\<lambda>n. Inr (q\<lparr>eq_mem := (eq_mem q)(the p \<mapsto> f n)\<rparr>))"

text \<open>\<open>malloc\<close>: the next address, with the unspecified contents \<open>g\<close>.\<close>

definition eq_malloc :: "ENGINE_QUEUE_ELEMENT \<Rightarrow> engine_queue \<Rightarrow> nat \<times> engine_queue" where
  "eq_malloc g q = (eq_brk q, q\<lparr>eq_mem := (eq_mem q)(eq_brk q \<mapsto> g), eq_brk := Suc (eq_brk q)\<rparr>)"

text \<open>One statement of \<open>engineEnqueue\<close>.\<close>

fun enqueue_step ::
  "ENGINE_QUEUE_ELEMENT \<Rightarrow> eq_pc \<Rightarrow> engine_queue \<Rightarrow> (eq_pc \<times> engine_queue) result" where
  "enqueue_step g (E_Start d) q = Inr (E_Test d (eq_head q), q)"
| "enqueue_step g (E_Test d cur_pos) q =
     Inr (if eq_head q = None then E_First d else E_Walk d cur_pos, q)"
| "enqueue_step g (E_First d) q =
     (let (a, q') = eq_malloc g q in Inr (E_First_Event d, q'\<lparr>eq_head := Some a\<rparr>))"
| "enqueue_step g (E_First_Event d) q =
     bindE (store_cell (eq_head q) (\<lambda>n. n\<lparr>incoming_event := d\<rparr>) q) (\<lambda>q'. Inr (E_First_Links, q'))"
| "enqueue_step g E_First_Links q =
     bindE (store_cell (eq_head q) (\<lambda>n. n\<lparr>el_next := None, el_prev := None\<rparr>) q)
       (\<lambda>q'. Inr (E_First_Tail, q'))"
| "enqueue_step g E_First_Tail q = Inr (E_Release, q\<lparr>eq_tail := eq_head q\<rparr>)"
| "enqueue_step g (E_Walk d cur_pos) q =
     bindE (deref (eq_mem q) cur_pos) (\<lambda>n.
     Inr (if el_next n \<noteq> None then E_Walk d (el_next n) else E_Link d cur_pos, q))"
| "enqueue_step g (E_Link d cur_pos) q =
     (let (a, q') = eq_malloc g q
      in bindE (store_cell cur_pos (\<lambda>n. n\<lparr>el_next := Some a\<rparr>) q') (\<lambda>q''.
         Inr (E_Link_Event d cur_pos, q'')))"
| "enqueue_step g (E_Link_Event d cur_pos) q =
     bindE (deref (eq_mem q) cur_pos) (\<lambda>c.
     bindE (store_cell (el_next c) (\<lambda>n. n\<lparr>incoming_event := d\<rparr>) q) (\<lambda>q'.
     Inr (E_Link_Next cur_pos, q')))"
| "enqueue_step g (E_Link_Next cur_pos) q =
     bindE (deref (eq_mem q) cur_pos) (\<lambda>c.
     bindE (store_cell (el_next c) (\<lambda>n. n\<lparr>el_next := None\<rparr>) q) (\<lambda>q'.
     Inr (E_Link_Prev cur_pos, q')))"
| "enqueue_step g (E_Link_Prev cur_pos) q =
     bindE (deref (eq_mem q) cur_pos) (\<lambda>c.
     bindE (store_cell (el_next c) (\<lambda>n. n\<lparr>el_prev := cur_pos\<rparr>) q) (\<lambda>q'.
     Inr (E_Link_Tail cur_pos, q')))"
| "enqueue_step g (E_Link_Tail cur_pos) q =
     bindE (deref (eq_mem q) cur_pos) (\<lambda>c. Inr (E_Release, q\<lparr>eq_tail := el_next c\<rparr>))"
| "enqueue_step g E_Release q = bindE (eq_release q) (\<lambda>q'. Inr (Finished None, q'))"
| "enqueue_step g pc q = Inr (pc, q)"

text \<open>One statement of \<open>engineDequeue\<close>.  A wait stays where it is.\<close>

fun dequeue_step :: "eq_pc \<Rightarrow> engine_queue \<Rightarrow> (eq_pc \<times> engine_queue) result" where
  "dequeue_step (D_Acquire eintr) q =
     bindE (pget (eq_semaphore q)) (\<lambda>s.
     case semaphoreAcquire s True eintr of
       Blocks \<Rightarrow> Inr (D_Acquire eintr, q)
     | Returned r s' \<Rightarrow> Inr (D_Read, q\<lparr>eq_semaphore := Ptr s'\<rparr>))"
| "dequeue_step D_Read q =
     bindE (deref (eq_mem q) (eq_tail q)) (\<lambda>t. Inr (D_Test (incoming_event t), q))"
| "dequeue_step (D_Test temp) q =
     bindE (deref (eq_mem q) (eq_tail q)) (\<lambda>t.
     Inr (if el_prev t \<noteq> None then D_Back temp else D_Free_Tail temp, q))"
| "dequeue_step (D_Back temp) q =
     bindE (deref (eq_mem q) (eq_tail q)) (\<lambda>t. Inr (D_Free_Next temp, q\<lparr>eq_tail := el_prev t\<rparr>))"
| "dequeue_step (D_Free_Next temp) q =
     bindE (deref (eq_mem q) (eq_tail q)) (\<lambda>t.
     bindE (free_cell (eq_mem q) (el_next t)) (\<lambda>m. Inr (D_Clear temp, q\<lparr>eq_mem := m\<rparr>)))"
| "dequeue_step (D_Clear temp) q =
     bindE (store_cell (eq_tail q) (\<lambda>n. n\<lparr>el_next := None\<rparr>) q)
       (\<lambda>q'. Inr (Finished (Some temp), q'))"
| "dequeue_step (D_Free_Tail temp) q =
     bindE (free_cell (eq_mem q) (eq_tail q)) (\<lambda>m. Inr (D_Reset temp, q\<lparr>eq_mem := m\<rparr>))"
| "dequeue_step (D_Reset temp) q =
     Inr (Finished (Some temp), q\<lparr>eq_tail := None, eq_head := None\<rparr>)"
| "dequeue_step pc q = Inr (pc, q)"

fun in_dequeue :: "eq_pc \<Rightarrow> bool" where
  "in_dequeue (D_Acquire eintr) = True" | "in_dequeue D_Read = True"
| "in_dequeue (D_Test temp) = True" | "in_dequeue (D_Back temp) = True"
| "in_dequeue (D_Free_Next temp) = True" | "in_dequeue (D_Clear temp) = True"
| "in_dequeue (D_Free_Tail temp) = True" | "in_dequeue (D_Reset temp) = True"
| "in_dequeue pc = False"

definition eq_step ::
  "ENGINE_QUEUE_ELEMENT \<Rightarrow> eq_pc \<Rightarrow> engine_queue \<Rightarrow> (eq_pc \<times> engine_queue) result" where
  "eq_step g pc q = (if in_dequeue pc then dequeue_step pc q else enqueue_step g pc q)"

section \<open>Interleavings\<close>

type_synonym eq_threads = "engine_queue \<times> eq_pc list"

text \<open>\<open>eq_sched g is s\<close>: the threads numbered in \<open>is\<close> take one step each, in that order.\<close>

definition eq_turn :: "ENGINE_QUEUE_ELEMENT \<Rightarrow> nat \<Rightarrow> eq_threads \<Rightarrow> eq_threads result" where
  "eq_turn g i s =
     (if i < length (snd s)
      then bindE (eq_step g (snd s ! i) (fst s)) (\<lambda>(pc, q). Inr (q, (snd s)[i := pc]))
      else Inr s)"

fun eq_sched :: "ENGINE_QUEUE_ELEMENT \<Rightarrow> nat list \<Rightarrow> eq_threads \<Rightarrow> eq_threads result" where
  "eq_sched g [] s = Inr s"
| "eq_sched g (i # is) s = bindE (eq_turn g i s) (eq_sched g is)"

lemma eq_sched_append: "eq_sched g (is @ js) s = bindE (eq_sched g is s) (eq_sched g js)"
  by (induction "is" arbitrary: s) (auto simp: bindE_assoc cong: bindE_cong)

text \<open>The states that some interleaving without a fault reaches.\<close>

inductive eq_reach :: "ENGINE_QUEUE_ELEMENT \<Rightarrow> eq_threads \<Rightarrow> eq_threads \<Rightarrow> bool" for g s0 where
  reach_start: "eq_reach g s0 s0"
| reach_step: "eq_reach g s0 (q, pcs) \<Longrightarrow> i < length pcs \<Longrightarrow> eq_step g (pcs ! i) q = Inr (pc, q') \<Longrightarrow>
     eq_reach g s0 (q', pcs[i := pc])"

lemma eq_turn_reach:
  assumes "eq_reach g s0 s" and "eq_turn g i s = Inr s'"
  shows "eq_reach g s0 s'"
  using assms by (cases s) (auto simp: eq_turn_def bindE_eq_Inr_iff intro: reach_step split: if_splits)

lemma eq_sched_reach: "eq_reach g s0 s \<Longrightarrow> eq_sched g is s = Inr s' \<Longrightarrow> eq_reach g s0 s'"
  by (induction "is" arbitrary: s) (auto simp: bindE_eq_Inr_iff dest: eq_turn_reach)

lemma reach_eq_sched: "eq_reach g s0 s \<Longrightarrow> \<exists>is. eq_sched g is s0 = Inr s"
proof (induction rule: eq_reach.induct)
  case reach_start
  show ?case by (rule exI [of _ "[]"]) simp
next
  case (reach_step q pcs i pc q')
  then obtain "is" where "eq_sched g is s0 = Inr (q, pcs)" by blast
  with reach_step.hyps have "eq_sched g (is @ [i]) s0 = Inr (q', pcs[i := pc])"
    by (simp add: eq_sched_append eq_turn_def)
  then show ?case by blast
qed

section \<open>A call that nothing interrupts\<close>

text \<open>\<open>alone g n (pc, q)\<close>: the next \<open>n\<close> statements of one call, nothing else running.\<close>

fun alone ::
  "ENGINE_QUEUE_ELEMENT \<Rightarrow> nat \<Rightarrow> eq_pc \<times> engine_queue \<Rightarrow> (eq_pc \<times> engine_queue) result" where
  "alone g 0 s = Inr s"
| "alone g (Suc n) s = bindE (eq_step g (fst s) (snd s)) (alone g n)"

definition alone_to ::
  "ENGINE_QUEUE_ELEMENT \<Rightarrow> eq_pc \<times> engine_queue \<Rightarrow> (eq_pc \<times> engine_queue) result \<Rightarrow> bool" where
  "alone_to g s r \<longleftrightarrow> (\<exists>n. alone g n s = r)"

lemma alone_to_refl: "alone_to g s (Inr s)"
  unfolding alone_to_def by (rule exI [of _ 0]) simp

lemma alone_to_step: "eq_step g pc q = Inr s \<Longrightarrow> alone_to g s r \<Longrightarrow> alone_to g (pc, q) r"
  unfolding alone_to_def
proof (elim exE)
  fix n
  assume "eq_step g pc q = Inr s" and "alone g n s = r"
  then show "\<exists>n. alone g n (pc, q) = r" by (intro exI [of _ "Suc n"]) simp
qed

lemma alone_add: "alone g (n + k) s = bindE (alone g n s) (alone g k)"
  by (induction n arbitrary: s) (auto simp: bindE_assoc cong: bindE_cong)

lemma alone_to_trans:
  assumes "alone_to g s (Inr s1)" and "alone_to g s1 r"
  shows "alone_to g s r"
proof -
  from assms obtain n k where "alone g n s = Inr s1" "alone g k s1 = r"
    by (auto simp: alone_to_def)
  then have "alone g (n + k) s = r" by (simp add: alone_add)
  then show ?thesis unfolding alone_to_def by blast
qed

lemma alone_sched:
  "i < length pcs \<Longrightarrow> eq_sched g (replicate n i) (q, pcs) =
     bindE (alone g n (pcs ! i, q)) (\<lambda>(pc, q'). Inr (q', pcs[i := pc]))"
proof (induction n arbitrary: q pcs)
  case (Suc n)
  show ?case
  proof (cases "eq_step g (pcs ! i) q")
    case (Inr s)
    then show ?thesis
      using Suc.prems Suc.IH [of "pcs[i := fst s]" "snd s"]
      by (cases s) (simp add: eq_turn_def)
  qed (use Suc.prems in \<open>simp add: eq_turn_def\<close>)
qed simp

lemma alone_to_sched:
  assumes "alone_to g (pc, q) (Inr (pc', q'))" and "i < length pcs" and "pcs ! i = pc"
  shows "\<exists>n. eq_sched g (replicate n i) (q, pcs) = Inr (q', pcs[i := pc'])"
proof -
  from assms obtain n where "alone g n (pcs ! i, q) = Inr (pc', q')" by (auto simp: alone_to_def)
  with assms(2) show ?thesis by (intro exI [of _ n]) (simp add: alone_sched)
qed

lemma alone_to_sched_fault:
  assumes "alone_to g (pc, q) (Inl e)" and "i < length pcs" and "pcs ! i = pc"
  shows "\<exists>n. eq_sched g (replicate n i) (q, pcs) = Inl e"
proof -
  from assms obtain n where "alone g n (pcs ! i, q) = Inl e" by (auto simp: alone_to_def)
  with assms(2) show ?thesis by (intro exI [of _ n]) (simp add: alone_sched)
qed

lemma alone_to_fault: "eq_step g pc q = Inl e \<Longrightarrow> alone_to g (pc, q) (Inl e)"
  unfolding alone_to_def by (rule exI [of _ "Suc 0"]) simp

lemma alone_to_last:
  "eq_step g pc q = r \<Longrightarrow> alone_to g (pc, q) r"
  by (cases r) (auto intro: alone_to_fault alone_to_step alone_to_refl)

subsection \<open>engineEnqueue\<close>

text \<open>The walk to the end of the list ends where \<open>last_node\<close> does.\<close>

fun walked :: "EVENT \<Rightarrow> engine_queue \<Rightarrow> nat result \<Rightarrow> (eq_pc \<times> engine_queue) result" where
  "walked d q (Inl e) = Inl e"
| "walked d q (Inr c) = Inr (E_Link d (Some c), q)"

lemma walk_last_node:
  assumes "last_node m h = Some r" and "eq_mem q = m"
  shows "alone_to g (E_Walk d (Some h), q) (walked d q r) \<and>
    (\<forall>c. r = Inr c \<longrightarrow> (\<exists>n. m c = Some n \<and> el_next n = None))"
proof -
  have "eq_mem q = m \<longrightarrow> alone_to g (E_Walk d (Some h), q) (walked d q r) \<and>
    (\<forall>c. r = Inr c \<longrightarrow> (\<exists>n. m c = Some n \<and> el_next n = None))"
  proof (rule last_node.raw_induct [OF _ assms(1)], goal_cases)
    case (1 loop m cur r)
    show ?case
    proof (cases "m cur")
      case None
      with 1(2) have "r = Inl UseAfterFree" by simp
      with None show ?thesis by (auto intro!: alone_to_fault simp: eq_step_def)
    next
      case (Some n)
      show ?thesis
      proof (cases "el_next n")
        case None
        with 1(2) Some have "r = Inr cur" by simp
        with Some None show ?thesis by (auto intro!: alone_to_last simp: eq_step_def)
      next
        case (Some a)
        with 1(2) \<open>m cur = Some n\<close> have "loop m a = Some r" by simp
        from 1(1) [OF this] \<open>m cur = Some n\<close> Some show ?thesis
          by (auto intro!: alone_to_step simp: eq_step_def)
      qed
    qed
  qed
  with assms(2) show ?thesis by blast
qed

lemmas alone_next = alone_to_step [where s = "(pc1, q1)" for pc1 q1]

lemma store_cell_Some [simp]:
  "eq_mem q a = Some n \<Longrightarrow> store_cell (Some a) f q = Inr (q\<lparr>eq_mem := (eq_mem q)(a \<mapsto> f n)\<rparr>)"
  by (simp add: store_cell_def)

lemma alone_first:
  "alone_to g (E_First d, q) (Inr (E_Release,
     q\<lparr>eq_mem := (eq_mem q)(eq_brk q \<mapsto> \<lparr>incoming_event = d, el_next = None, el_prev = None\<rparr>),
       eq_brk := Suc (eq_brk q), eq_head := Some (eq_brk q), eq_tail := Some (eq_brk q)\<rparr>))"
  by (cases g; rule alone_next, simp add: eq_step_def eq_malloc_def,
      rule alone_next, simp add: eq_step_def store_cell_def,
      rule alone_next, simp add: eq_step_def store_cell_def,
      rule alone_to_last, simp add: eq_step_def)

lemma alone_link:
  assumes "eq_mem q c = Some n" and "eq_mem q (eq_brk q) = None"
  shows "alone_to g (E_Link d (Some c), q) (Inr (E_Release,
     q\<lparr>eq_mem := (eq_mem q)(c \<mapsto> n\<lparr>el_next := Some (eq_brk q)\<rparr>,
         eq_brk q \<mapsto> \<lparr>incoming_event = d, el_next = None, el_prev = Some c\<rparr>),
       eq_brk := Suc (eq_brk q), eq_tail := Some (eq_brk q)\<rparr>))"
proof -
  have ne: "c \<noteq> eq_brk q" using assms by auto
  let ?q = "\<lambda>x. q\<lparr>eq_mem := (eq_mem q)(c \<mapsto> n\<lparr>el_next := Some (eq_brk q)\<rparr>, eq_brk q \<mapsto> x),
      eq_brk := Suc (eq_brk q)\<rparr>"
  have "eq_step g (E_Link d (Some c)) q = Inr (E_Link_Event d (Some c), ?q g)"
    using assms ne by (simp add: eq_step_def eq_malloc_def fun_upd_twist)
  moreover have "eq_step g (E_Link_Event d (Some c)) (?q g) =
      Inr (E_Link_Next (Some c), ?q (g\<lparr>incoming_event := d\<rparr>))"
    using ne by (simp add: eq_step_def)
  moreover have "eq_step g (E_Link_Next (Some c)) (?q (g\<lparr>incoming_event := d\<rparr>)) =
      Inr (E_Link_Prev (Some c), ?q (g\<lparr>incoming_event := d, el_next := None\<rparr>))"
    using ne by (simp add: eq_step_def)
  moreover have "eq_step g (E_Link_Prev (Some c)) (?q (g\<lparr>incoming_event := d, el_next := None\<rparr>)) =
      Inr (E_Link_Tail (Some c),
        ?q (g\<lparr>incoming_event := d, el_next := None, el_prev := Some c\<rparr>))"
    using ne by (simp add: eq_step_def)
  moreover have "g\<lparr>incoming_event := d, el_next := None, el_prev := Some c\<rparr> =
      \<lparr>incoming_event = d, el_next = None, el_prev = Some c\<rparr>" by simp
  moreover have "eq_step g (E_Link_Tail (Some c))
        (?q \<lparr>incoming_event = d, el_next = None, el_prev = Some c\<rparr>) =
      Inr (E_Release, ?q \<lparr>incoming_event = d, el_next = None, el_prev = Some c\<rparr>
        \<lparr>eq_tail := Some (eq_brk q)\<rparr>)"
    using ne by (simp add: eq_step_def)
  ultimately show ?thesis by (auto intro!: alone_to_step alone_to_refl)
qed

fun finished_enqueue :: "engine_queue result \<Rightarrow> (eq_pc \<times> engine_queue) result" where
  "finished_enqueue (Inl e) = Inl e"
| "finished_enqueue (Inr q) = Inr (Finished None, q)"

lemma alone_release: "alone_to g (E_Release, q) (finished_enqueue (eq_release q))"
  by (rule alone_to_last, cases "eq_release q") (simp_all add: eq_step_def)

text \<open>The call up to the choice of its branch, which changes nothing.\<close>

lemma alone_enter:
  "alone_to g (E_Start d, q)
     (Inr (if eq_head q = None then E_First d else E_Walk d (eq_head q), q))"
  by (rule alone_to_step, simp add: eq_step_def, rule alone_to_last, simp add: eq_step_def)

lemma enqueue_alone:
  assumes "engineEnqueue d q \<noteq> Inl Diverges" and "eq_mem q (eq_brk q) = None"
  shows "alone_to g (E_Start d, q) (finished_enqueue (engineEnqueue d q))"
proof (cases "eq_head q")
  case None
  show ?thesis
    using alone_to_trans [OF alone_enter [of g d q],
        of "finished_enqueue (engineEnqueue d q)"]
      alone_to_trans [OF alone_first [of g d q] alone_release] None
    by (simp add: engineEnqueue_def Let_def)
next
  case (Some h)
  note enter = alone_to_trans [OF alone_enter [of g d q]]
  show ?thesis
  proof (cases "last_node (eq_mem q) h")
    case None
    with assms(1) Some show ?thesis by (simp add: engineEnqueue_def Let_def)
  next
    case walk: (Some r)
    from walk_last_node [OF this refl, of g d]
    have w: "alone_to g (E_Walk d (Some h), q) (walked d q r)"
      and c: "\<And>c. r = Inr c \<Longrightarrow> \<exists>n. eq_mem q c = Some n" by blast+
    show ?thesis
    proof (cases r)
      case (Inl e)
      with w Some walk show ?thesis by (intro enter) (simp add: engineEnqueue_def Let_def)
    next
      case (Inr c)
      with \<open>\<And>c. r = Inr c \<Longrightarrow> \<exists>n. eq_mem q c = Some n\<close> obtain n where n: "eq_mem q c = Some n"
        by blast
      have "alone_to g (E_Walk d (Some h), q) (Inr (E_Link d (Some c), q))"
        using w Inr by simp
      from alone_to_trans [OF this alone_to_trans [OF alone_link [OF n assms(2)] alone_release]]
      show ?thesis
        using Some walk Inr n by (intro enter) (simp add: engineEnqueue_def Let_def)
    qed
  qed
qed

subsection \<open>engineDequeue\<close>

fun finished_dequeue ::
  "bool \<Rightarrow> engine_queue \<Rightarrow> (EVENT \<times> engine_queue) option result \<Rightarrow> (eq_pc \<times> engine_queue) result"
where
  "finished_dequeue eintr q (Inl e) = Inl e"
| "finished_dequeue eintr q (Inr None) = Inr (D_Acquire eintr, q)"
| "finished_dequeue eintr q (Inr (Some (d, q'))) = Inr (Finished (Some d), q')"

fun finished_free :: "EVENT \<Rightarrow> engine_queue result \<Rightarrow> (eq_pc \<times> engine_queue) result" where
  "finished_free temp (Inl e) = Inl e"
| "finished_free temp (Inr q) = Inr (Finished (Some temp), q)"

lemma alone_free_tail:
  "alone_to g (D_Free_Tail temp, q) (finished_free temp
     (bindE (free_cell (eq_mem q) (eq_tail q)) (\<lambda>m.
      Inr (q\<lparr>eq_mem := m, eq_tail := None, eq_head := None\<rparr>))))"
proof (cases "free_cell (eq_mem q) (eq_tail q)")
  case (Inl e)
  then show ?thesis by (intro alone_to_last) (simp add: eq_step_def)
next
  case (Inr m)
  then have "eq_step g (D_Free_Tail temp) q = Inr (D_Reset temp, q\<lparr>eq_mem := m\<rparr>)"
    by (simp add: eq_step_def)
  from alone_to_step [OF this alone_to_last [OF refl]] Inr show ?thesis by (simp add: eq_step_def)
qed

lemma finished_free_dequeue:
  "finished_free temp r = finished_dequeue eintr q (bindE r (\<lambda>q'. Inr (Some (temp, q'))))"
  by (cases r) simp_all

lemma alone_free_next:
  assumes "eq_tail q = Some p"
  shows "alone_to g (D_Free_Next temp, q) (finished_free temp
     (bindE (deref (eq_mem q) (Some p)) (\<lambda>n.
      bindE (free_cell (eq_mem q) (el_next n)) (\<lambda>m.
      bindE (deref m (Some p)) (\<lambda>n'. Inr (q\<lparr>eq_mem := m(p \<mapsto> n'\<lparr>el_next := None\<rparr>)\<rparr>))))))"
proof (cases "deref (eq_mem q) (Some p)")
  case (Inl e)
  with assms show ?thesis
    by (simp del: deref.simps, intro alone_to_fault) (simp add: eq_step_def del: deref.simps)
next
  case n: (Inr n)
  show ?thesis
  proof (cases "free_cell (eq_mem q) (el_next n)")
    case (Inl e)
    with assms n show ?thesis
      by (simp del: deref.simps, intro alone_to_fault) (simp add: eq_step_def del: deref.simps)
  next
    case (Inr m)
    have s1: "eq_step g (D_Free_Next temp) q = Inr (D_Clear temp, q\<lparr>eq_mem := m\<rparr>)"
      using assms n Inr by (simp add: eq_step_def del: deref.simps)
    have s2: "eq_step g (D_Clear temp) (q\<lparr>eq_mem := m\<rparr>) = finished_free temp
       (bindE (deref m (Some p)) (\<lambda>n'. Inr (q\<lparr>eq_mem := m(p \<mapsto> n'\<lparr>el_next := None\<rparr>)\<rparr>)))"
      using assms
      by (cases "deref m (Some p)") (simp_all add: eq_step_def store_cell_def del: deref.simps)
    from alone_to_step [OF s1 alone_to_last [OF s2]] n Inr show ?thesis
      by (simp del: deref.simps)
  qed
qed

lemma dequeue_alone:
  "alone_to g (D_Acquire eintr, q) (finished_dequeue eintr q (engineDequeue eintr q))"
proof (cases "pget (eq_semaphore q)")
  case (Inl e)
  then show ?thesis
    by (intro alone_to_last) (simp add: engineDequeue_def eq_step_def)
next
  case sem: (Inr s)
  show ?thesis
  proof (cases "semaphoreAcquire s True eintr")
    case Blocks
    with sem show ?thesis by (intro alone_to_last) (simp add: engineDequeue_def eq_step_def)
  next
    case (Returned x s')
    let ?q = "q\<lparr>eq_semaphore := Ptr s'\<rparr>"
    have acq: "eq_step g (D_Acquire eintr) q = Inr (D_Read, ?q)"
      using sem Returned by (simp add: eq_step_def)
    show ?thesis
    proof (cases "deref (eq_mem q) (eq_tail q)")
      case (Inl e)
      with sem Returned have "engineDequeue eintr q = Inl e" by (simp add: engineDequeue_def)
      with Inl show ?thesis
        by (simp, intro alone_to_step [OF acq] alone_to_fault) (simp add: eq_step_def)
    next
      case (Inr t)
      then have rd: "alone_to g (D_Test (incoming_event t), ?q) r \<Longrightarrow>
          alone_to g (D_Acquire eintr, q) r" for r
        by (intro alone_to_step [OF acq] alone_to_step [of g D_Read]) (auto simp: eq_step_def)
      show ?thesis
      proof (cases "el_prev t")
        case None
        let ?r = "bindE (free_cell (eq_mem q) (eq_tail q)) (\<lambda>m.
            Inr (?q\<lparr>eq_mem := m, eq_tail := None, eq_head := None\<rparr>))"
        have run: "engineDequeue eintr q = bindE ?r (\<lambda>q'. Inr (Some (incoming_event t, q')))"
          using sem Returned Inr None
          by (cases q) (simp add: engineDequeue_def bindE_assoc del: deref.simps)
        have "eq_step g (D_Test (incoming_event t)) ?q = Inr (D_Free_Tail (incoming_event t), ?q)"
          using Inr None by (simp add: eq_step_def)
        note rd [OF alone_to_step [OF this alone_free_tail]]
        then show ?thesis unfolding run finished_free_dequeue [symmetric] by simp
      next
        case (Some p)
        let ?p = "?q\<lparr>eq_tail := Some p\<rparr>"
        let ?r = "bindE (deref (eq_mem q) (Some p)) (\<lambda>n.
            bindE (free_cell (eq_mem q) (el_next n)) (\<lambda>m.
            bindE (deref m (Some p)) (\<lambda>n'.
            Inr (?p\<lparr>eq_mem := m(p \<mapsto> n'\<lparr>el_next := None\<rparr>)\<rparr>))))"
        have run: "engineDequeue eintr q = bindE ?r (\<lambda>q'. Inr (Some (incoming_event t, q')))"
          using sem Returned Inr Some
          by (cases q) (simp add: engineDequeue_def bindE_assoc del: deref.simps)
        have "eq_step g (D_Test (incoming_event t)) ?q = Inr (D_Back (incoming_event t), ?q)"
          and "eq_step g (D_Back (incoming_event t)) ?q = Inr (D_Free_Next (incoming_event t), ?p)"
          using Inr Some by (simp_all add: eq_step_def)
        note rd [OF alone_to_step [OF this(1) alone_to_step [OF this(2) alone_free_next]]]
        then show ?thesis
          unfolding run finished_free_dequeue [symmetric] by (simp del: deref.simps)
      qed
    qed
  qed
qed

text \<open>The two calls within a set of threads.\<close>

lemma enqueue_uninterrupted:
  assumes "engineEnqueue d q = Inr q'" and "eq_mem q (eq_brk q) = None"
    and "i < length pcs" and "pcs ! i = E_Start d"
  shows "\<exists>n. eq_sched g (replicate n i) (q, pcs) = Inr (q', pcs[i := Finished None])"
  using enqueue_alone [of d q g] assms by (intro alone_to_sched) auto

lemma dequeue_uninterrupted:
  assumes "engineDequeue eintr q = Inr (Some (e, q'))"
    and "i < length pcs" and "pcs ! i = D_Acquire eintr"
  shows "\<exists>n. eq_sched g (replicate n i) (q, pcs) = Inr (q', pcs[i := Finished (Some e)])"
  using dequeue_alone [of g eintr q] assms by (intro alone_to_sched) auto

text \<open>
  A call that no other thread interrupts is the operation of \<open>Engine_Queue\<close>:
  when thread \<open>i\<close> is about to call \<open>engineEnqueue\<close> and the next steps are all its own, it finishes
  and leaves the queue \<open>engineEnqueue\<close> computes, wherever the other threads are in their calls; in
  the same way a call of \<open>engineDequeue\<close> returns the event and leaves the queue \<open>engineDequeue\<close>
  computes.
\<close>

lemma uninterrupted_calls:
  assumes "i < length pcs" and "eq_mem q (eq_brk q) = None"
  shows "(pcs ! i = E_Start d \<and> engineEnqueue d q = Inr q' \<longrightarrow>
            (\<exists>n. eq_sched g (replicate n i) (q, pcs) = Inr (q', pcs[i := Finished None]))) \<and>
         (pcs ! i = D_Acquire eintr \<and> engineDequeue eintr q = Inr (Some (e, q')) \<longrightarrow>
            (\<exists>n. eq_sched g (replicate n i) (q, pcs) = Inr (q', pcs[i := Finished (Some e)])))"
  using enqueue_uninterrupted dequeue_uninterrupted assms by blast

section \<open>The semaphore counts finished calls\<close>

text \<open>
  What a call still owes the semaphore: \<open>engineEnqueue\<close> adds one unit at its last step,
  \<open>engineDequeue\<close> takes one at its first.
\<close>

fun to_release :: "eq_pc \<Rightarrow> nat" where
  "to_release (Finished r) = 0"
| "to_release pc = (if in_dequeue pc then 0 else 1)"

fun to_acquire :: "eq_pc \<Rightarrow> nat" where
  "to_acquire (D_Acquire eintr) = 1"
| "to_acquire pc = 0"

fun uninterruptible :: "eq_pc \<Rightarrow> bool" where
  "uninterruptible (D_Acquire eintr) = (\<not> eintr)"
| "uninterruptible pc = True"

lemma store_cell_semaphore: "store_cell p f q = Inr q' \<Longrightarrow> eq_semaphore q' = eq_semaphore q"
  by (auto simp: store_cell_def bindE_eq_Inr_iff)

text \<open>One step.\<close>

lemma eq_step_semaphore:
  assumes "eq_step g pc q = Inr (pc', q')" and "eq_semaphore q = Ptr n" and "uninterruptible pc"
    and "n + to_release pc \<le> SEM_VALUE_MAX"
  shows "uninterruptible pc' \<and> to_acquire pc' \<le> to_acquire pc \<and> (\<exists>n'. eq_semaphore q' = Ptr n' \<and>
     n' + to_release pc' + to_acquire pc = n + to_release pc + to_acquire pc')"
  using assms
  by (cases pc)
    (auto simp: eq_step_def bindE_eq_Inr_iff eq_malloc_def eq_release_def semaphoreRelease_def
      semaphoreAcquire_def Let_def dest!: store_cell_semaphore split: if_splits acquire.splits)

text \<open>All the threads.\<close>

definition owed :: "(eq_pc \<Rightarrow> nat) \<Rightarrow> eq_pc list \<Rightarrow> nat" where
  "owed f pcs = sum_list (map f pcs)"

lemma owed_ge: "i < length pcs \<Longrightarrow> f (pcs ! i) \<le> owed f pcs"
  unfolding owed_def using elem_le_sum_list [of i "map f pcs"] by simp

lemma owed_update:
  assumes "i < length pcs"
  shows "owed f (pcs[i := pc]) + f (pcs ! i) = owed f pcs + f pc"
  using owed_ge [OF assms, of f] assms by (simp add: owed_def map_update sum_list_update)

lemma reach_semaphore:
  assumes "eq_reach g (q0, pcs0) s" and "eq_semaphore q0 = Ptr n0" and "list_all uninterruptible pcs0"
    and "n0 + owed to_release pcs0 \<le> SEM_VALUE_MAX"
  shows "list_all uninterruptible (snd s) \<and> (\<exists>n. eq_semaphore (fst s) = Ptr n \<and>
     n + owed to_release (snd s) + owed to_acquire pcs0 =
     n0 + owed to_release pcs0 + owed to_acquire (snd s) \<and>
     owed to_acquire (snd s) \<le> owed to_acquire pcs0)"
  using assms(1)
proof (induction rule: eq_reach.induct)
  case reach_start
  with assms show ?case by simp
next
  case (reach_step q pcs i pc q')
  then obtain n where n: "eq_semaphore q = Ptr n"
      "n + owed to_release pcs + owed to_acquire pcs0 =
       n0 + owed to_release pcs0 + owed to_acquire pcs"
      "owed to_acquire pcs \<le> owed to_acquire pcs0"
    and u: "list_all uninterruptible pcs" by auto
  have "n + to_release (pcs ! i) \<le> SEM_VALUE_MAX"
    using n assms(4) owed_ge [OF reach_step.hyps(2), of to_release] by linarith
  moreover have "uninterruptible (pcs ! i)"
    using u reach_step.hyps(2) by (simp add: list_all_length)
  ultimately obtain n' where st: "uninterruptible pc" "to_acquire pc \<le> to_acquire (pcs ! i)"
      "eq_semaphore q' = Ptr n'"
      "n' + to_release pc + to_acquire (pcs ! i) = n + to_release (pcs ! i) + to_acquire pc"
    using eq_step_semaphore [OF reach_step.hyps(3) n(1)] by blast
  have "list_all uninterruptible (pcs[i := pc])"
    using u st(1) reach_step.hyps(2) by (auto simp: list_all_length nth_list_update)
  moreover have "n' + owed to_release (pcs[i := pc]) + owed to_acquire pcs0 =
      n0 + owed to_release pcs0 + owed to_acquire (pcs[i := pc])"
    using st(4) n(2) owed_update [OF reach_step.hyps(2), of to_release pc]
      owed_update [OF reach_step.hyps(2), of to_acquire pc] by linarith
  ultimately show ?case 
    using st(2,3) n(3) owed_update [OF reach_step.hyps(2), of to_acquire pc] by simp
qed

text \<open>
  C8.  Invariant.  Under every interleaving of calls whose waits no signal ends, the semaphore
  equals its first value, plus the calls of \<open>engineEnqueue\<close> that have finished, minus the calls of
  \<open>engineDequeue\<close> whose wait is over: \<open>owed to_release\<close> and \<open>owed to_acquire\<close> count the calls
  that still have to add, or to take, their unit.
\<close>

theorem semaphore_counts_calls:
  assumes "eq_reach g (q0, pcs0) (q, pcs)"
    and "eq_rel q0 xs" and "list_all uninterruptible pcs0"
    and "length xs + owed to_release pcs0 \<le> SEM_VALUE_MAX"
  shows "\<exists>n. eq_semaphore q = Ptr n \<and>
    int n = int (length xs) + (int (owed to_release pcs0) - int (owed to_release pcs))
      - (int (owed to_acquire pcs0) - int (owed to_acquire pcs))"
proof -
  from reach_semaphore [OF assms(1) eq_rel_semaphore [OF assms(2)] assms(3,4)]
  obtain n where "eq_semaphore q = Ptr n"
    "n + owed to_release pcs + owed to_acquire pcs0 =
       length xs + owed to_release pcs0 + owed to_acquire pcs" by auto
  moreover from this(2) have "int n = int (length xs) +
      (int (owed to_release pcs0) - int (owed to_release pcs))
      - (int (owed to_acquire pcs0) - int (owed to_acquire pcs))" by linarith
  ultimately show ?thesis by blast
qed

theorem semaphore_counts_calls_witness:
  "\<exists>q'. eq_reach \<lparr>incoming_event = zero_event, el_next = Some 5, el_prev = None\<rparr>
       (eq_initial, [D_Acquire False, E_Start zero_event]) (q', [D_Acquire False, Finished None]) \<and>
     eq_semaphore q' = Ptr 1"
proof -
  let ?g = "\<lparr>incoming_event = zero_event, el_next = Some 5, el_prev = None\<rparr>"
  let ?pcs = "[D_Acquire False, E_Start zero_event]"
  obtain q' where "engineEnqueue zero_event eq_initial = Inr q'"
    using engineEnqueue_rel [OF eq_rel_init, of zero_event] by (auto simp: SEM_VALUE_MAX_def)
  moreover have "eq_mem eq_initial (eq_brk eq_initial) = None"
    by (simp add: engineQueueInit_def engine_queue_static_def semaphoreCreate_def)
  ultimately obtain n where
    "eq_sched ?g (replicate n 1) (eq_initial, ?pcs) = Inr (q', ?pcs[1 := Finished None])"
    using enqueue_uninterrupted [of zero_event eq_initial q' 1 ?pcs ?g] by auto
  then have reach: "eq_reach ?g (eq_initial, ?pcs) (q', [D_Acquire False, Finished None])"
    using eq_sched_reach [OF reach_start] by fastforce
  with semaphore_counts_calls [OF reach eq_rel_init] show ?thesis
    by (auto simp: owed_def SEM_VALUE_MAX_def)
qed

section \<open>Two overlapping calls of engineEnqueue\<close>

text \<open>
  \<open>leak z c q\<close>: the queue \<open>q\<close>, with one more cell that nothing points to and one more unit in
  the semaphore.  Until it is empty it behaves as \<open>q\<close> does.
\<close>

definition leak :: "nat \<Rightarrow> ENGINE_QUEUE_ELEMENT \<Rightarrow> nat \<Rightarrow> engine_queue \<Rightarrow> engine_queue" where
  "leak z c n q = q\<lparr>eq_mem := (eq_mem q)(z \<mapsto> c), eq_semaphore := Ptr (Suc n)\<rparr>"

lemma deref_frame: "deref m p = Inr x \<Longrightarrow> m z = None \<Longrightarrow> deref (m(z \<mapsto> c)) p = Inr x"
  by (auto simp: deref_eq_Inr_iff)

lemma free_frame:
  assumes "free_cell m p = Inr m'" and "m z = None"
  shows "free_cell (m(z \<mapsto> c)) p = Inr (m'(z \<mapsto> c)) \<and> m' z = None"
  using assms by (cases p) (auto split: option.splits)

lemma leak_dequeue:
  assumes "engineDequeue False q = Inr (Some (d, q'))" and "eq_mem q z = None"
    and "eq_semaphore q = Ptr (Suc n)"
  shows "engineDequeue False (leak z c (Suc n) q) = Inr (Some (d, leak z c n q')) \<and>
    eq_mem q' z = None"
proof -
  have acq: "semaphoreAcquire (Suc k) True False = Returned 1 k" for k
    by (simp add: semaphoreAcquire_def)
  from assms(1) obtain t where t: "deref (eq_mem q) (eq_tail q) = Inr t"
    by (cases "deref (eq_mem q) (eq_tail q)")
      (auto simp: engineDequeue_def assms(3) acq simp del: deref.simps)
  note t' = deref_frame [OF t assms(2), of c]
  show ?thesis
  proof (cases "el_prev t")
    case None
    then obtain m where m: "free_cell (eq_mem q) (eq_tail q) = Inr m"
      using assms(1) t
      by (cases "free_cell (eq_mem q) (eq_tail q)") (simp_all add: engineDequeue_def assms(3) acq)
    from free_frame [OF m assms(2), of c] None t t' m assms(1,3) show ?thesis
      by (cases q) (auto simp: engineDequeue_def acq leak_def simp del: deref.simps free_cell.simps)
  next
    case (Some p)
    with assms(1) t obtain x where x: "deref (eq_mem q) (Some p) = Inr x"
      by (cases "deref (eq_mem q) (Some p)")
        (simp_all add: engineDequeue_def assms(3) acq del: deref.simps)
    with assms(1) t Some obtain m where m: "free_cell (eq_mem q) (el_next x) = Inr m"
      by (cases "free_cell (eq_mem q) (el_next x)")
        (simp_all add: engineDequeue_def assms(3) acq del: deref.simps)
    with assms(1) t Some x obtain y where y: "deref m (Some p) = Inr y"
      by (cases "deref m (Some p)")
        (simp_all add: engineDequeue_def assms(3) acq del: deref.simps)
    have mz: "m z = None" and m': "free_cell ((eq_mem q)(z \<mapsto> c)) (el_next x) = Inr (m(z \<mapsto> c))"
      using free_frame [OF m assms(2), of c] by blast+
    have "p \<noteq> z" using y mz by auto
    then have "(m(z \<mapsto> c))(p \<mapsto> k) = (m(p \<mapsto> k))(z \<mapsto> c)" for k
      by (rule fun_upd_twist [OF not_sym])
    with deref_frame [OF x assms(2), of c] deref_frame [OF y mz, of c] m m' Some t t' x y assms(1,3)
      mz \<open>p \<noteq> z\<close>
    show ?thesis
      by (cases q) (auto simp: engineDequeue_def acq leak_def simp del: deref.simps free_cell.simps)
  qed
qed

lemma leak_takes:
  assumes "eq_rel q xs" and "eq_mem q z = None"
  shows "\<exists>q'. run_ops engineEnqueue (engineDequeue False) (replicate (length xs) Take)
      (leak z c (length xs) q) = Inr (map Some (rev xs), leak z c 0 q') \<and> eq_rel q' []"
  using assms
proof (induction xs arbitrary: q rule: rev_induct)
  case Nil
  then show ?case by auto
next
  case (snoc d xs)
  from engineDequeue_rel [OF snoc.prems(1), of False] obtain q1 where
    q1: "engineDequeue False q = Inr (Some (d, q1))" "eq_rel q1 xs" by blast
  with leak_dequeue [OF q1(1) snoc.prems(2), of "length xs" c] eq_rel_semaphore [OF snoc.prems(1)]
  have "engineDequeue False (leak z c (Suc (length xs)) q) = Inr (Some (d, leak z c (length xs) q1))"
    and "eq_mem q1 z = None" by simp_all
  with snoc.IH [OF q1(2)] show ?case by fastforce
qed

lemma leak_empty: "eq_rel q [] \<Longrightarrow> engineDequeue False (leak z c 0 q) = Inl NullDeref"
  by (auto simp: eq_rel_def eq_rep_def leak_def engineDequeue_def semaphoreAcquire_def)

text \<open>Where a call of \<open>engineEnqueue\<close> is when it has looked for the end of the list.\<close>

definition linking :: "EVENT \<Rightarrow> nat list \<Rightarrow> eq_pc" where
  "linking d as = (if as = [] then E_First d else E_Link d (Some (as ! (length as - 1))))"

lemma alone_look:
  assumes "eq_rep q as xs"
  shows "alone_to g (E_Start d, q) (Inr (linking d as, q))"
proof (cases "as = []")
  case True
  then show ?thesis using alone_enter [of g d q] eq_repD(8) [OF assms] by (simp add: linking_def)
next
  case False
  with walk_last_node [OF last_node_rep [OF assms, of 0] refl, of g d]
  have "alone_to g (E_Walk d (eq_head q), q) (Inr (linking d as, q))"
    using eq_repD(6) [OF assms] by (simp add: linking_def)
  then show ?thesis
    using alone_to_trans [OF alone_enter [of g d q]] False eq_repD(6) [OF assms] by simp
qed

text \<open>The rest of the call, whatever the list has become: the new cell goes where it looked.\<close>

definition linked :: "EVENT \<Rightarrow> nat list \<Rightarrow> ENGINE_QUEUE_ELEMENT \<Rightarrow> nat \<Rightarrow> engine_queue \<Rightarrow> engine_queue"
where
  "linked d as n k q = (if as = []
     then q\<lparr>eq_mem := (eq_mem q)(eq_brk q \<mapsto> \<lparr>incoming_event = d, el_next = None, el_prev = None\<rparr>),
        eq_brk := Suc (eq_brk q), eq_head := Some (eq_brk q), eq_tail := Some (eq_brk q),
        eq_semaphore := Ptr (Suc k)\<rparr>
     else q\<lparr>eq_mem := (eq_mem q)(as ! (length as - 1) \<mapsto> n\<lparr>el_next := Some (eq_brk q)\<rparr>,
          eq_brk q \<mapsto> \<lparr>incoming_event = d, el_next = None, el_prev = Some (as ! (length as - 1))\<rparr>),
        eq_brk := Suc (eq_brk q), eq_tail := Some (eq_brk q), eq_semaphore := Ptr (Suc k)\<rparr>)"

lemma alone_finish:
  assumes "as \<noteq> [] \<Longrightarrow> eq_mem q (as ! (length as - 1)) = Some n" and "eq_mem q (eq_brk q) = None"
    and "eq_semaphore q = Ptr k" and "k < SEM_VALUE_MAX"
  shows "alone_to g (linking d as, q) (Inr (Finished None, linked d as n k q))"
proof (cases "as = []")
  case True
  from alone_to_trans [OF alone_first [of g d q] alone_release] True assms(3,4) show ?thesis
    by (simp add: linking_def linked_def eq_release_def semaphoreRelease_def)
next
  case False
  from alone_to_trans [OF alone_link [OF assms(1) [OF False] assms(2), of g d] alone_release]
    False assms(3,4) show ?thesis
    by (simp add: linking_def linked_def eq_release_def semaphoreRelease_def)
qed

lemma two_enqueues_overlap:
  assumes rep: "eq_rep q as xs" and room: "length xs + 2 \<le> SEM_VALUE_MAX"
  shows "\<exists>is c q1. eq_sched g is (q, [E_Start d1, E_Start d2]) =
      Inr (leak (eq_brk q) c (Suc (length xs)) q1, [Finished None, Finished None]) \<and>
      eq_rel q1 (xs @ [d2]) \<and> eq_mem q1 (eq_brk q) = None \<and> incoming_event c = d1"
proof -
  note r = eq_repD [OF rep]
  let ?l = "as ! (length as - 1)" and ?k = "length as"
  let ?n = "eq_cell as (?k - 1) (xs ! (?k - 1))"
  let ?qa = "linked d1 as ?n ?k q"
  let ?qb = "linked d2 as (?n\<lparr>el_next := Some (eq_brk q)\<rparr>) (Suc ?k) ?qa"
  have fresh: "\<And>a. eq_brk q \<le> a \<Longrightarrow> eq_mem q a = None" using r(3,4) by fastforce
  have l: "eq_mem q ?l = Some ?n" "?l < eq_brk q" if "as \<noteq> []"
    using r(5) [of "?k - 1"] r(4) [of ?l] that by auto
  have "alone_to g (E_Start d1, q) (Inr (linking d1 as, q))"
    and "alone_to g (E_Start d2, q) (Inr (linking d2 as, q))" using alone_look [OF rep] by blast+
  moreover have "alone_to g (linking d1 as, q) (Inr (Finished None, ?qa))"
    using l(1) fresh r(2,10) room by (intro alone_finish) auto
  moreover have "alone_to g (linking d2 as, ?qa) (Inr (Finished None, ?qb))"
    using l fresh r(2) room by (intro alone_finish; cases "as = []") (auto simp: linked_def)
  ultimately obtain n1 n2 n3 n4 where
    "eq_sched g (replicate n1 0) (q, [E_Start d1, E_Start d2]) = Inr (q, [linking d1 as, E_Start d2])"
    "eq_sched g (replicate n2 1) (q, [linking d1 as, E_Start d2]) =
       Inr (q, [linking d1 as, linking d2 as])"
    "eq_sched g (replicate n3 0) (q, [linking d1 as, linking d2 as]) =
       Inr (?qa, [Finished None, linking d2 as])"
    "eq_sched g (replicate n4 1) (?qa, [Finished None, linking d2 as]) =
       Inr (?qb, [Finished None, Finished None])"
    using alone_to_sched [of g "E_Start d1" q "linking d1 as" q 0 "[E_Start d1, E_Start d2]"]
      alone_to_sched [of g "E_Start d2" q "linking d2 as" q 1 "[linking d1 as, E_Start d2]"]
      alone_to_sched [of g "linking d1 as" q "Finished None" ?qa 0 "[linking d1 as, linking d2 as]"]
      alone_to_sched [of g "linking d2 as" ?qa "Finished None" ?qb 1 "[Finished None, linking d2 as]"]
    by auto
  then have sched: "eq_sched g (replicate n1 0 @ replicate n2 1 @ replicate n3 0 @ replicate n4 1)
      (q, [E_Start d1, E_Start d2]) = Inr (?qb, [Finished None, Finished None])"
    by (simp add: eq_sched_append)
  let ?q = "q\<lparr>eq_brk := Suc (eq_brk q)\<rparr>"
  let ?c = "\<lparr>incoming_event = d1, el_next = None, el_prev = (if as = [] then None else Some ?l)\<rparr>"
  let ?q1 = "?qb\<lparr>eq_mem := eq_link ?q as xs d2, eq_semaphore := Ptr (Suc ?k)\<rparr>"
  have rep': "eq_rep ?q as xs" using rep unfolding eq_rep_def by (auto simp: less_SucI)
  have "eq_rep ?q1 (as @ [eq_brk ?q]) (xs @ [d2])"
    by (rule eq_rep_snoc [OF rep']) (auto simp: linked_def r(6))
  then have "eq_rel ?q1 (xs @ [d2])" unfolding eq_rel_def by blast
  moreover have "eq_mem ?q1 (eq_brk q) = None"
    using fresh [of "eq_brk q"] l(2) by (cases "as = []") (auto simp: eq_link_def)
  moreover have "?qb = leak (eq_brk q) ?c (Suc (length xs)) ?q1"
    using l(2) r(2)
    by (cases q) (auto simp: leak_def linked_def eq_link_def fun_eq_iff)
  ultimately show ?thesis using sched by (intro exI [of _ ?c] exI conjI) auto
qed

text \<open>
  C9.  Safety.  Calls of \<open>engineEnqueue\<close> must not overlap, and nothing in the code prevents it: on
  every well formed queue two such calls can both finish, with two units added to the semaphore,
  while the first event is in no cell that \<open>head\<close> or \<open>tail\<close> reaches; the engine thread gets the
  second event and the older ones, and its next \<open>engineDequeue\<close>, which the semaphore lets through,
  reads through \<open>NULL\<close>.
\<close>

theorem overlapping_enqueues_lose_event:
  assumes "eq_rel q xs" and "length xs + 2 \<le> SEM_VALUE_MAX"
  shows "\<exists>is q' q''. eq_sched g is (q, [E_Start d1, E_Start d2]) =
      Inr (q', [Finished None, Finished None]) \<and>
    eq_semaphore q' = Ptr (length xs + 2) \<and>
    run_ops engineEnqueue (engineDequeue False) (replicate (Suc (length xs)) Take) q' =
      Inr (map Some (rev (xs @ [d2])), q'') \<and>
    engineDequeue False q'' = Inl NullDeref"
proof -
  from assms(1) obtain as where "eq_rep q as xs" by (auto simp: eq_rel_def)
  from two_enqueues_overlap [OF this assms(2), of g d1 d2] obtain "is" c q1 where
    run: "eq_sched g is (q, [E_Start d1, E_Start d2]) =
      Inr (leak (eq_brk q) c (Suc (length xs)) q1, [Finished None, Finished None])"
    and q1: "eq_rel q1 (xs @ [d2])" "eq_mem q1 (eq_brk q) = None" by blast
  from leak_takes [OF this(2,3), of c] obtain q2 where
    "run_ops engineEnqueue (engineDequeue False) (replicate (Suc (length xs)) Take)
       (leak (eq_brk q) c (Suc (length xs)) q1) =
       Inr (map Some (rev (xs @ [d2])), leak (eq_brk q) c 0 q2)"
    and "eq_rel q2 []" by (auto simp del: run_ops.simps replicate.simps)
  with run leak_empty [of q2 "eq_brk q" c] show ?thesis
    by (intro exI conjI) (assumption | simp add: leak_def)+
qed

theorem overlapping_enqueues_lose_event_witness:
  "\<exists>is q' q''. eq_sched \<lparr>incoming_event = zero_event, el_next = Some 5, el_prev = None\<rparr> is
      (eq_initial, [E_Start (zero_event\<lparr>e_prior := 1\<rparr>), E_Start (zero_event\<lparr>e_prior := 2\<rparr>)]) =
      Inr (q', [Finished None, Finished None]) \<and>
    eq_semaphore q' = Ptr 2 \<and>
    run_ops engineEnqueue (engineDequeue False) [Take] q' =
      Inr ([Some (zero_event\<lparr>e_prior := 2\<rparr>)], q'') \<and>
    engineDequeue False q'' = Inl NullDeref"
  using overlapping_enqueues_lose_event [OF eq_rel_init,
      of "\<lparr>incoming_event = zero_event, el_next = Some 5, el_prev = None\<rparr>"
        "zero_event\<lparr>e_prior := 1\<rparr>" "zero_event\<lparr>e_prior := 2\<rparr>"]
  by (simp add: SEM_VALUE_MAX_def numeral_2_eq_2 del: run_ops.simps)

section \<open>An overlapping call of engineDequeue\<close>

lemma dequeue_brk:
  assumes "engineDequeue eintr q = Inr (Some (d, q'))"
  shows "eq_brk q' = eq_brk q"
  using assms unfolding engineDequeue_def
  by (auto simp: bindE_def split: sum.splits acquire.splits option.splits)

text \<open>
  C7.  Safety.  Nor must a call of \<open>engineEnqueue\<close> overlap one of \<open>engineDequeue\<close>, and nothing in
  the code prevents that either: on every well formed queue that holds at least one event there is a
  schedule of the two calls, made of their own statements only, in which \<open>engineEnqueue\<close> has found
  the last cell of the list when \<open>engineDequeue\<close> frees that cell, and then links the new element
  to it: a write to freed memory.  It does not matter which events the queue holds, how many, what
  \<open>malloc\<close> leaves in the new cell, or whether the wait of \<open>engineDequeue\<close> can be interrupted.
\<close>

theorem overlapping_dequeue_use_after_free:
  assumes "eq_rel q (xs @ [d])"
  shows "\<exists>is. eq_sched g is (q, [E_Start d2, D_Acquire eintr]) = Inl UseAfterFree"
proof -
  from assms obtain as where rep: "eq_rep q as (xs @ [d])" by (auto simp: eq_rel_def)
  then obtain bs a where as: "as = bs @ [a]"
    using eq_repD(2) [OF rep] by (cases as rule: rev_cases) auto
  from engineDequeue_rep [OF rep [unfolded as], of eintr] obtain q' where
    q': "engineDequeue eintr q = Inr (Some (d, q'))" "eq_rep q' bs xs" by blast
  have "a \<notin> set bs" using eq_repD(1) [OF rep] as by simp
  with eq_repD(3) [OF q'(2)] have "eq_mem q' a = None" by auto
  have lk: "linking d2 as = E_Link d2 (Some a)" by (simp add: linking_def as)
  have brk: "a < eq_brk q'" using eq_repD(4) [OF rep, of a] as dequeue_brk [OF q'(1)] by simp
  obtain n1 where "eq_sched g (replicate n1 0) (q, [E_Start d2, D_Acquire eintr]) =
      Inr (q, [E_Link d2 (Some a), D_Acquire eintr])"
    using alone_to_sched [OF alone_look [OF rep, of g d2], of 0 "[E_Start d2, D_Acquire eintr]"] lk
    by auto
  moreover obtain n2 where "eq_sched g (replicate n2 1) (q, [E_Link d2 (Some a), D_Acquire eintr]) =
      Inr (q', [E_Link d2 (Some a), Finished (Some d)])"
    using dequeue_uninterrupted [OF q'(1), of 1 "[E_Link d2 (Some a), D_Acquire eintr]" g] by auto
  moreover have "eq_sched g [0] (q', [E_Link d2 (Some a), Finished (Some d)]) = Inl UseAfterFree"
    using \<open>eq_mem q' a = None\<close> brk
    by (simp add: eq_turn_def eq_step_def eq_malloc_def store_cell_def)
  ultimately have "eq_sched g (replicate n1 0 @ replicate n2 1 @ [0])
      (q, [E_Start d2, D_Acquire eintr]) = Inl UseAfterFree" by (simp add: eq_sched_append)
  then show ?thesis by blast
qed

theorem overlapping_dequeue_use_after_free_witness:
  "\<exists>q is. engineEnqueue zero_event eq_initial = Inr q \<and>
     eq_sched \<lparr>incoming_event = zero_event, el_next = Some 5, el_prev = None\<rparr> is
       (q, [E_Start (zero_event\<lparr>e_prior := 1\<rparr>), D_Acquire False]) = Inl UseAfterFree"
proof -
  obtain q where "engineEnqueue zero_event eq_initial = Inr q" "eq_rel q ([] @ [zero_event])"
    using engineEnqueue_rel [OF eq_rel_init, of zero_event] by (auto simp: SEM_VALUE_MAX_def)
  with overlapping_dequeue_use_after_free [OF this(2)] show ?thesis by blast
qed

end
