(* ===== verification/State_Fade.thy ===== *)
theory State_Fade
  imports Mixer_Chunk
begin

text \<open>
  The fade effect (mixer.c, \<open>mixerFadeEffect\<close>): a state sound consists of segments, and near the end of one
  the next is mixed in while the old one gets softer.  Shown: what one state channel adds to the output
  during a whole fade, sample by sample, and where the new segment goes on; that the fade takes the
  samples of the new segment one half-frame late, so that its channels are exchanged, weighs both with
  the left factor, and ends with one right sample of the old segment at full volume.
\<close>

section \<open>The situation of a fading state\<close>

text \<open>
  State channel \<open>j\<close> plays the sound \<open>s\<close> of threshold \<open>k\<close>, the only one its volume lies in, with the
  fade record \<open>f\<close>.
\<close>

definition fade_rep :: "nat \<Rightarrow> nat \<Rightarrow> real \<Rightarrow> real \<Rightarrow> STATE_SND \<Rightarrow> FADE_REC \<Rightarrow> world \<Rightarrow> bool" where
  "fade_rep j k vol st s f w \<longleftrightarrow> inputs_ok w \<and> (\<exists>bs ts fs.
     sbuffs w = Ptr bs \<and> j < length bs \<and> thresh_wf (bs ! j) \<and> sb_thresh (bs ! j) = Some ts \<and>
     k < length ts \<and> (\<forall>i<length ts. in_bounds vol (ts ! i) \<longleftrightarrow> i = k) \<and> state_snd (ts ! k) = s \<and>
     sb_vol (bs ! j) = vol \<and> sb_stereo_pos (bs ! j) = st \<and>
     sb_filter_flag (bs ! j) AND STATE_LINEAR_FADE_FLAG \<noteq> 0 \<and>
     lin_fade w = Ptr fs \<and> j < length fs \<and> fs ! j = f)"

lemma fade_rep_frame:
  "fade_rep j k vol st s f w \<Longrightarrow> sbuffs w' = sbuffs w \<Longrightarrow> lin_fade w' = lin_fade w \<Longrightarrow> inputs_ok w' \<Longrightarrow>
   fade_rep j k vol st s f w'"
  by (simp add: fade_rep_def)

lemma fade_rep_out: "fade_rep j k vol st s f w \<Longrightarrow> fade_rep j k vol st s f (w\<lparr>out_buf := o'\<rparr>)"
  by (simp add: fade_rep_def inputs_ok_def)

lemma last_match_unique:
  assumes "k < length ts" and "\<forall>i<length ts. in_bounds vol (ts ! i) \<longleftrightarrow> i = k"
  shows "last_match ts vol = k"
proof -
  have "fold (\<lambda>i x. if in_bounds vol (ts ! i) then i else x) [0..<n] 0 = (if k < n then k else 0)"
    if "n \<le> length ts" for n
    using that by (induction n) (auto simp: assms(2))
  with assms(1) show ?thesis by (simp add: last_match_def)
qed

lemma first_thresh_unique:
  assumes "sb_thresh b = Some ts" and "k < length ts" and "\<forall>i<length ts. in_bounds vol (ts ! i) \<longleftrightarrow> i = k"
  shows "first_thresh b vol [0..<length ts] = Inr (int k)"
proof -
  have "first_thresh b vol [m..<length ts] = Inr (int k)" if "m \<le> k" for m
    using that
  proof (induction "k - m" arbitrary: m)
    case 0
    with assms show ?case by (simp add: upt_conv_Cons get_threshold_def)
  next
    case (Suc n)
    then have "first_thresh b vol [Suc m..<length ts] = Inr (int k)" by simp
    with Suc assms show ?case by (simp add: upt_conv_Cons get_threshold_def)
  qed
  then show ?thesis by simp
qed

lemma fade_rep_buf:
  assumes "fade_rep j k vol st s f w"
  obtains b t where "pa_get (sbuffs w) (int j) = Inr b" "sb_vol b = vol" "sb_stereo_pos b = st"
    "sb_filter_flag b AND STATE_LINEAR_FADE_FLAG \<noteq> 0" "get_threshold b (int k) = Inr t" "state_snd t = s"
    "pa_get (lin_fade w) (int j) = Inr f"
  using assms that by (auto simp: fade_rep_def get_threshold_def)

lemma fade_rep_get:
  assumes "fade_rep j k vol st s f w"
  shows "get_state_snd j (int k) w = Inr s" and "mixerGetFadeTime j w = Inr (fade_time f)"
    and "mixerGetStateThreshIndex j w = Inr (int k)"
    and "ss_snd_buf s \<noteq> None \<Longrightarrow> mixerGetStateSndPtr (int j) vol w = Inr (Some (int k))"
proof -
  obtain bs ts fs where r: "sbuffs w = Ptr bs" "j < length bs" "thresh_wf (bs ! j)" "sb_thresh (bs ! j) = Some ts"
    "k < length ts" "\<forall>i<length ts. in_bounds vol (ts ! i) \<longleftrightarrow> i = k" "state_snd (ts ! k) = s"
    "sb_vol (bs ! j) = vol" "lin_fade w = Ptr fs" "j < length fs" "fs ! j = f"
    using assms by (auto simp: fade_rep_def)
  show "get_state_snd j (int k) w = Inr s" using get_state_snd_eq [OF r(1,2,4,5)] r(7) by simp
  show "mixerGetFadeTime j w = Inr (fade_time f)" using r by (simp add: mixerGetFadeTime_def)
  show "mixerGetStateThreshIndex j w = Inr (int k)"
    using r first_thresh_unique [OF r(4,5,6)] by (simp add: mixerGetStateThreshIndex_def thresh_wf_def)
  show "ss_snd_buf s \<noteq> None \<Longrightarrow> mixerGetStateSndPtr (int j) vol w = Inr (Some (int k))"
    using sndptr_eq [OF r(1,2,3), of vol] r(4,5,7) last_match_unique [OF r(5,6)]
    by (simp add: selected_def)
qed

lemma fade_rep_set_snd:
  assumes "fade_rep j k vol st s f w"
  shows "\<exists>w'. set_state_snd j (int k) s' w = Inr w' \<and> fade_rep j k vol st s' f w' \<and> out_buf w' = out_buf w"
proof -
  obtain bs ts fs where r: "sbuffs w = Ptr bs" "j < length bs" "thresh_wf (bs ! j)" "sb_thresh (bs ! j) = Some ts"
    "k < length ts" "\<forall>i<length ts. in_bounds vol (ts ! i) \<longleftrightarrow> i = k" "state_snd (ts ! k) = s"
    "sb_vol (bs ! j) = vol" "sb_stereo_pos (bs ! j) = st" "sb_filter_flag (bs ! j) AND STATE_LINEAR_FADE_FLAG \<noteq> 0"
    "lin_fade w = Ptr fs" "j < length fs" "fs ! j = f" "inputs_ok w"
    using assms by (auto simp: fade_rep_def)
  let ?w = "w\<lparr>sbuffs := Ptr (put_snd j k s' bs)\<rparr>"
  have "fade_rep j k vol st s' f ?w"
    unfolding fade_rep_def using r
    by (auto simp: put_snd_def thresh_wf_def inputs_ok_def in_bounds_def nth_list_update)
  then show ?thesis using set_state_snd_eq [OF r(1,2,4,5)] by auto
qed

lemma fade_rep_set_fade:
  assumes "fade_rep j k vol st s f w"
  shows "\<exists>w'. set_fade j f' w = Inr w' \<and> fade_rep j k vol st s f' w' \<and> out_buf w' = out_buf w"
  using assms by (fastforce simp: fade_rep_def set_fade_def inputs_ok_def)

lemma fade_rep_pick:
  assumes rep: "fade_rep j k vol st s f w" and s: "ss_snd_buf s \<noteq> None" "0 < unat (ss_snd_cnt s)"
  shows "\<exists>n w'. mixerPickRndStateSnd j w = Inr (n, w') \<and> n < unat (ss_snd_cnt s) \<and>
    fade_rep j k vol st s f w' \<and> out_buf w' = out_buf w"
proof -
  obtain bs ts where r: "sbuffs w = Ptr bs" "j < length bs" "thresh_wf (bs ! j)" "sb_thresh (bs ! j) = Some ts"
    "k < length ts" "\<forall>i<length ts. in_bounds vol (ts ! i) \<longleftrightarrow> i = k" "state_snd (ts ! k) = s" "sb_vol (bs ! j) = vol"
    "inputs_ok w"
    using rep by (auto simp: fade_rep_def)
  have "selected (bs ! j) (sb_vol (bs ! j)) = Some k"
    using r s last_match_unique [OF r(5,6)] by (simp add: selected_def)
  from pick_random_ok [OF r(1-3) this r(4,5) _ r(9)] s r(7) obtain n where
    "mixerPickRndStateSnd j w = Inr (n, w\<lparr>rand_in := \<lambda>m. rand_in w (Suc m)\<rparr>)" "n < unat (ss_snd_cnt s)" by auto
  moreover have "fade_rep j k vol st s f (w\<lparr>rand_in := \<lambda>m. rand_in w (Suc m)\<rparr>)"
    using rep by (rule fade_rep_frame) (use r(9) in \<open>simp_all add: inputs_ok_def\<close>)
  ultimately show ?thesis by auto
qed

section \<open>One call of the effect\<close>

text \<open>The length of the fade in samples, an even number.\<close>

definition fade_points :: "real \<Rightarrow> nat" where
  "fade_points time = (let p = trunc (time * of_int STEREO * of_int SAMPLE_RATE) in nat (p + p mod 2))"

text \<open>Every segment can be played and is at least twice as long as the fade.\<close>

definition fade_segs :: "nat \<Rightarrow> STATE_SND \<Rightarrow> bool" where
  "fade_segs F s \<longleftrightarrow> (\<exists>bufs. ss_snd_buf s = Some bufs \<and> length bufs = unat (ss_snd_cnt s) \<and>
     length (ss_len s) = unat (ss_snd_cnt s) \<and> 0 < unat (ss_snd_cnt s) \<and>
     (\<forall>i<unat (ss_snd_cnt s). \<exists>d. bufs ! i = Some d \<and> sample_ok d (ss_len s ! i) \<and>
        2 * F \<le> unat (ss_len s ! i) \<and> unat (ss_len s ! i) < 2 ^ 31))"

definition segment :: "STATE_SND \<Rightarrow> nat \<Rightarrow> samples" where
  "segment s i = the (the (ss_snd_buf s) ! i)"

definition seg_len :: "STATE_SND \<Rightarrow> nat \<Rightarrow> nat" where
  "seg_len s i = unat (ss_len s ! i)"

lemma fade_segsD:
  assumes "fade_segs F s"
  shows "ss_snd_buf s \<noteq> None" "0 < unat (ss_snd_cnt s)" "length (ss_len s) = unat (ss_snd_cnt s)"
    "i < unat (ss_snd_cnt s) \<Longrightarrow> snd_segment s (int i) = Inr (Some (segment s i))"
    "i < unat (ss_snd_cnt s) \<Longrightarrow> seg_len s i \<le> length (segment s i)"
    "i < unat (ss_snd_cnt s) \<Longrightarrow> even (seg_len s i)"
    "i < unat (ss_snd_cnt s) \<Longrightarrow> 2 * F \<le> seg_len s i"
    "i < unat (ss_snd_cnt s) \<Longrightarrow> seg_len s i < 2 ^ 31"
  using assms by (auto simp: fade_segs_def segment_def seg_len_def snd_segment_def sample_ok_def)

lemma fade_segs_update [simp]: "fade_segs F (s\<lparr>ss_snd_no := n, ss_pos := p\<rparr>) = fade_segs F s"
  "fade_segs F (s\<lparr>ss_pos := p\<rparr>) = fade_segs F s" "fade_segs F (s\<lparr>ss_snd_no := n\<rparr>) = fade_segs F s"
  by (simp_all add: fade_segs_def)

lemma fade_time_points:
  assumes "0 \<le> t" and "t \<le> MAX_FADE_TIME"
  shows "\<exists>p. to_int32 (t * of_int STEREO * of_int SAMPLE_RATE) = Inr p \<and> p + c_rem p 2 = int (fade_points t)"
proof -
  let ?x = "t * of_int STEREO * of_int SAMPLE_RATE"
  have x: "0 \<le> ?x" "?x \<le> 176400" using assms by simp_all
  then have p: "0 \<le> trunc ?x" "trunc ?x \<le> 176400" by (auto simp: trunc_def floor_le_iff)
  have "c_rem p 2 = p mod 2" if "0 \<le> p" for p
    using that minus_mult_div_eq_mod [of p 2] by (simp add: c_rem_def)
  with p show ?thesis
    unfolding to_int32_def fade_points_def Let_def by (intro exI [of _ "trunc ?x"]) simp
qed

lemma word_distance:
  fixes a b :: "32 word"
  assumes "unat b \<le> unat a" and "unat a < 2 ^ 31"
  shows "sint (a - b) = int (unat a - unat b)"
proof -
  have "unat (a - b) = unat a - unat b" using assms(1) by (simp add: unat_sub word_le_nat_alt)
  moreover from this have "sint (a - b) = int (unat (a - b))" using assms(2) by (intro sint32_small) simp
  ultimately show ?thesis by simp
qed

lemma fade_branches:
  assumes rep: "fade_rep j k vol st s f w" and segs: "fade_segs F s" and no: "unat (ss_snd_no s) < unat (ss_snd_cnt s)"
    and time: "0 \<le> fade_time f" "fade_time f \<le> MAX_FADE_TIME" "F = fade_points (fade_time f)"
    and pos: "unat pos \<le> seg_len s (unat (ss_snd_no s))"
  shows "mixerFadeEffect data pos j w = (let rest = seg_len s (unat (ss_snd_no s)) - unat pos in
      if F < rest then Inr (data, w)
      else if rest = F
      then bindE (mixerPickRndStateSnd j w) (\<lambda>(n, w1).
           bindE (pa_get (lin_fade w1) (int j)) (\<lambda>f.
           bindE (mixerGetStateThreshIndex j w1) (\<lambda>th.
           bindE (set_fade j (f\<lparr>fr_snd := of_nat n, fr_pos := (ss_pos s AND 1), old_thresh := th\<rparr>) w1)
             (\<lambda>w2. Inr (data, w2)))))
      else fade_mix data j (int k) (int rest) (int F) w)"
proof -
  note d = fade_segsD [OF segs] and g = fade_rep_get [OF rep]
  obtain b t where b: "pa_get (sbuffs w) (int j) = Inr b" "sb_vol b = vol" using fade_rep_buf [OF rep] by metis
  obtain p where p: "to_int32 (fade_time f * of_int STEREO * of_int SAMPLE_RATE) = Inr p" "p + c_rem p 2 = int F"
    using fade_time_points [OF time(1,2)] time(3) by blast
  have len: "aget (ss_len s) (uint (ss_snd_no s)) = Inr (ss_len s ! unat (ss_snd_no s))"
    using no d(3) by (simp add: aget_uint)
  have rest: "sint (ss_len s ! unat (ss_snd_no s) - pos) = int (seg_len s (unat (ss_snd_no s)) - unat pos)"
    using word_distance [of pos "ss_len s ! unat (ss_snd_no s)"] pos d(8) [OF no] by (simp add: seg_len_def)
  show ?thesis
    unfolding mixerFadeEffect_def b bindE_Inr b(2) g(2) p(1) g(4) [OF d(1)] option.case g(1) len Let_def rest p(2)
    by (simp only: of_nat_less_iff of_nat_eq_iff)
qed

lemma fade_keep:
  assumes "fade_rep j k vol st s f w" and "fade_segs F s" and "unat (ss_snd_no s) < unat (ss_snd_cnt s)"
    and "0 \<le> fade_time f" "fade_time f \<le> MAX_FADE_TIME" "F = fade_points (fade_time f)"
    and "unat pos + F < seg_len s (unat (ss_snd_no s))"
  shows "mixerFadeEffect data pos j w = Inr (data, w)"
proof -
  have "unat pos \<le> seg_len s (unat (ss_snd_no s))" "F < seg_len s (unat (ss_snd_no s)) - unat pos"
    using assms(7) by linarith+
  then show ?thesis using fade_branches [OF assms(1-6), of pos data] by (simp add: Let_def)
qed

lemma even_and_1:
  fixes x :: "32 word"
  assumes "even (unat x)"
  shows "x AND 1 = 0"
proof -
  have "\<not> bit (unat x) 0" using assms by (simp add: bit_0)
  then have "\<not> bit x 0" by (simp add: bit_unsigned_iff del: bit_0)
  then show ?thesis by (intro bit_word_eqI) (auto simp: bit_and_iff bit_1_iff intro!: gr0I)
qed

lemma fade_begin:
  assumes rep: "fade_rep j k vol st s f w" and segs: "fade_segs F s" and no: "unat (ss_snd_no s) < unat (ss_snd_cnt s)"
    and time: "0 \<le> fade_time f" "fade_time f \<le> MAX_FADE_TIME" "F = fade_points (fade_time f)"
    and pos: "unat pos + F = seg_len s (unat (ss_snd_no s))" and ev: "even (unat (ss_pos s))"
  shows "\<exists>n w'. mixerFadeEffect data pos j w = Inr (data, w') \<and> n < unat (ss_snd_cnt s) \<and>
    fade_rep j k vol st s (f\<lparr>fr_snd := of_nat n, fr_pos := 0, old_thresh := int k\<rparr>) w' \<and> out_buf w' = out_buf w"
proof -
  note d = fade_segsD [OF segs]
  obtain n w1 where n: "mixerPickRndStateSnd j w = Inr (n, w1)" "n < unat (ss_snd_cnt s)"
    "fade_rep j k vol st s f w1" "out_buf w1 = out_buf w" using fade_rep_pick [OF rep d(1,2)] by blast
  obtain b t where b: "pa_get (lin_fade w1) (int j) = Inr f" using fade_rep_buf [OF n(3)] by metis
  have z: "ss_pos s AND 1 = 0" using ev by (rule even_and_1)
  obtain w2 where w2: "set_fade j (f\<lparr>fr_snd := of_nat n, fr_pos := 0, old_thresh := int k\<rparr>) w1 = Inr w2"
    "fade_rep j k vol st s (f\<lparr>fr_snd := of_nat n, fr_pos := 0, old_thresh := int k\<rparr>) w2" "out_buf w2 = out_buf w1"
    using fade_rep_set_fade [OF n(3)] by blast
  show ?thesis
    using fade_branches [OF rep segs no time, of pos data] pos n b w2 fade_rep_get(3) [OF n(3)] z
    by (auto simp: Let_def)
qed

text \<open>The mix of a sample \<open>x\<close> of the old segment and \<open>y\<close> of the new one, \<open>rest\<close> samples before the end.\<close>

definition crossed :: "nat \<Rightarrow> real \<Rightarrow> real \<Rightarrow> int \<Rightarrow> 16 word \<Rightarrow> nat \<Rightarrow> int" where
  "crossed F vol st x y rest = trunc (of_int x * (of_int (int rest) / of_int (int F)) +
     of_int (sint y) * st * vol * STATE_MULT * (1 - of_int (int rest) / of_int (int F)))"

lemma crossed_short:
  assumes "rest \<le> F" and "0 < F" and "0 \<le> vol" "vol \<le> 1" "0 \<le> st" "st \<le> 1" and "\<bar>real_of_int x\<bar> \<le> STATE_PEAK"
  shows "to_short (of_int x * (of_int (int rest) / of_int (int F)) +
     of_int (sint y) * st * vol * STATE_MULT * (1 - of_int (int rest) / of_int (int F))) = Inr (crossed F vol st x y rest)"
proof -
  define m :: real where "m = of_int (int rest) / of_int (int F)"
  have m: "0 \<le> m" "m \<le> 1" using assms(1,2) by (simp_all add: m_def)
  have "\<bar>of_int x * m\<bar> \<le> STATE_PEAK * m" using assms(7) m by (simp add: abs_mult mult_right_mono)
  moreover have "\<bar>of_int (sint y) * st * vol * 0.4 * (1 - m)\<bar> \<le> STATE_PEAK * (1 - m)"
  proof -
    have peak: "z * 0.4 \<le> STATE_PEAK" if "z \<le> 32768 * 1" for z using that by (simp add: STATE_PEAK_def)
    have "st * vol \<le> 1 * 1" using assms by (intro mult_mono) auto
    then have "\<bar>real_of_int (sint y)\<bar> * (st * vol) \<le> 32768 * 1"
      using abs_sint16 [of y] assms by (intro mult_mono) auto
    then have "\<bar>real_of_int (sint y)\<bar> * (st * vol) * 0.4 * (1 - m) \<le> STATE_PEAK * (1 - m)"
      using m peak by (intro mult_right_mono) simp_all
    moreover have "\<bar>of_int (sint y) * st * vol * 0.4 * (1 - m)\<bar> =
        \<bar>real_of_int (sint y)\<bar> * (st * vol) * 0.4 * (1 - m)"
      using assms m by (simp add: abs_mult mult.assoc)
    ultimately show ?thesis by (simp only:)
  qed
  ultimately have "\<bar>of_int x * m + of_int (sint y) * st * vol * 0.4 * (1 - m)\<bar> \<le> STATE_PEAK * m + STATE_PEAK * (1 - m)"
    by linarith
  also have "\<dots> = STATE_PEAK" by (simp add: algebra_simps)
  finally show ?thesis
    unfolding crossed_def m_def [symmetric] by (intro to_short_small(1)) (simp add: STATE_PEAK_def)
qed

lemma fade_mixed:
  assumes rep: "fade_rep j k vol st s f w" and segs: "fade_segs F s" and no: "unat (ss_snd_no s) < unat (ss_snd_cnt s)"
    and time: "0 \<le> fade_time f" "fade_time f \<le> MAX_FADE_TIME" "F = fade_points (fade_time f)"
    and pos: "unat pos + rest = seg_len s (unat (ss_snd_no s))" "rest < F"
    and ev: "even (unat (ss_pos s))" "unat (ss_pos s) < seg_len s (unat (ss_snd_no s))"
    and f: "unat (fr_snd f) < unat (ss_snd_cnt s)" "old_thresh f = int k"
      "unat (fr_pos f) < seg_len s (unat (fr_snd f))"
    and bounds: "0 \<le> vol" "vol \<le> 1" "0 \<le> st" "st \<le> 1" "\<bar>real_of_int data\<bar> \<le> STATE_PEAK"
  shows "\<exists>w'. mixerFadeEffect data pos j w =
      Inr (crossed F vol st data (segment s (unat (fr_snd f)) ! unat (fr_pos f)) rest, w') \<and>
    fade_rep j k vol st (if seg_len s (unat (ss_snd_no s)) \<le> unat (ss_pos s) + 2
      then s\<lparr>ss_snd_no := fr_snd f, ss_pos := fr_pos f + 1\<rparr> else s) (f\<lparr>fr_pos := fr_pos f + 1\<rparr>) w' \<and>
    out_buf w' = out_buf w"
proof -
  let ?o = "unat (ss_snd_no s)" and ?n = "unat (fr_snd f)" and ?f = "f\<lparr>fr_pos := fr_pos f + 1\<rparr>"
  note d = fade_segsD [OF segs] and g = fade_rep_get [OF rep]
  obtain b t where b: "pa_get (sbuffs w) (int j) = Inr b" "sb_vol b = vol" "sb_stereo_pos b = st"
    "get_threshold b (int k) = Inr t" "state_snd t = s" "pa_get (lin_fade w) (int j) = Inr f"
    using fade_rep_buf [OF rep] by metis
  obtain w1 where w1: "set_fade j ?f w = Inr w1" "fade_rep j k vol st s ?f w1" "out_buf w1 = out_buf w"
    using fade_rep_set_fade [OF rep] by blast
  obtain w2 where w2: "set_state_snd j (int k) (s\<lparr>ss_snd_no := fr_snd f, ss_pos := fr_pos f + 1\<rparr>) w1 = Inr w2"
    "fade_rep j k vol st (s\<lparr>ss_snd_no := fr_snd f, ss_pos := fr_pos f + 1\<rparr>) ?f w2" "out_buf w2 = out_buf w1"
    using fade_rep_set_snd [OF w1(2)] by blast
  have F: "0 < F" "fdiv (of_int (int rest)) (of_int (int F)) = Inr (of_int (int rest) / of_int (int F))"
    using pos(2) by (simp_all add: fdiv_def)
  have "uint (ss_pos s) = int (unat (ss_pos s))" by simp
  then have par: "odd (uint (ss_pos s)) \<longleftrightarrow> False" using ev(1) by (simp only: even_of_nat simp_thms)
  have x: "aget (segment s ?n) (uint (fr_pos f)) = Inr (segment s ?n ! unat (fr_pos f))"
    using f(3) d(5) [OF f(1)] by (simp add: aget_uint)
  have sn: "snd_segment s (uint (fr_snd f)) = Inr (Some (segment s ?n))" using d(4) [OF f(1)] by simp
  have len: "aget (ss_len s) (uint (ss_snd_no s)) = Inr (ss_len s ! ?o)" using no d(3) by (simp add: aget_uint)
  have "unat (ss_pos s + 2) = unat (ss_pos s) + 2"
    using frame_step(2) [OF ev(1), of "ss_len s ! ?o"] ev(2) d(6) [OF no] by (simp add: seg_len_def)
  then have ge: "ss_pos s + 2 \<ge> ss_len s ! ?o \<longleftrightarrow> seg_len s ?o \<le> unat (ss_pos s) + 2"
    by (simp add: word_le_nat_alt seg_len_def)
  have sh: "to_short (of_int data * (of_int (int rest) / of_int (int F)) +
      of_int (sint (segment s ?n ! unat (fr_pos f))) * st * vol * STATE_MULT * (1 - of_int (int rest) / of_int (int F))) =
      Inr (crossed F vol st data (segment s ?n ! unat (fr_pos f)) rest)"
    using crossed_short [OF _ F(1) bounds] pos(2) by simp
  have r: "unat pos \<le> seg_len s ?o" "seg_len s ?o - unat pos = rest" using pos(1) by linarith+
  have "mixerFadeEffect data pos j w = fade_mix data j (int k) (int rest) (int F) w"
    using fade_branches [OF rep segs no time r(1), of data] pos(2) unfolding r(2) by (simp add: Let_def)
  also have "\<dots> = bindE (if seg_len s ?o \<le> unat (ss_pos s) + 2
      then set_state_snd j (int k) (s\<lparr>ss_snd_no := fr_snd f, ss_pos := fr_pos f + 1\<rparr>) w1 else Inr w1)
      (\<lambda>w2. Inr (crossed F vol st data (segment s ?n ! unat (fr_pos f)) rest, w2))"
    unfolding fade_mix_def g(1) b(1) bindE_Inr b(6) F(2) Let_def f(2) b(4) b(5) sn option.case x par if_False b(2,3)
      w1(1) len ge fade_rep_get(1) [OF w1(2)] fade_rep_get(4) [OF w1(2) d(1)] sh
    by simp
  finally show ?thesis using w1 w2 by auto
qed

section \<open>One frame of a state with the effect\<close>

text \<open>A sample of a state at its volume and on one side.\<close>

definition level :: "real \<Rightarrow> real \<Rightarrow> 16 word \<Rightarrow> int" where
  "level vol side x = trunc (vol * side * STATE_MULT * of_int (sint x))"

lemma state_sample_level:
  assumes "unat pos < length d" and "0 \<le> vol" "vol \<le> 1" and "0 \<le> side" "side \<le> 1"
  shows "state_sample d pos vol side = Inr (level vol side (d ! unat pos))"
    and "\<bar>real_of_int (level vol side (d ! unat pos))\<bar> \<le> STATE_PEAK"
proof -
  obtain v where v: "state_sample d pos vol side = Inr v" "\<bar>of_int v\<bar> \<le> STATE_PEAK * vol"
    using state_sample_ok [OF assms] by blast
  have "v = level vol side (d ! unat pos)"
    using v(1) assms(1) by (auto simp: state_sample_def aget_uint to_short_def level_def split: if_splits)
  moreover have "STATE_PEAK * vol \<le> STATE_PEAK * 1"
    using assms by (intro mult_left_mono) (simp_all add: STATE_PEAK_def)
  ultimately show "state_sample d pos vol side = Inr (level vol side (d ! unat pos))"
    and "\<bar>real_of_int (level vol side (d ! unat pos))\<bar> \<le> STATE_PEAK" using v by auto
qed

lemma filter_fade:
  assumes "fade_rep j k vol st s f w"
  shows "mixerApplyStateFilters x p j w = mixerFadeEffect x p j w"
proof -
  obtain b t where "pa_get (sbuffs w) (int j) = Inr b" "sb_filter_flag b AND STATE_LINEAR_FADE_FLAG \<noteq> 0"
    by (rule fade_rep_buf [OF assms])
  then show ?thesis by (simp add: mixerApplyStateFilters_def)
qed

lemma mix_state_fade:
  assumes rep: "fade_rep j k vol st s f w" and segs: "fade_segs F s" "unat (ss_snd_no s) < unat (ss_snd_cnt s)"
    and d: "d = segment s (unat (ss_snd_no s))"
    and pos: "even (unat (ss_pos s))" "unat (ss_pos s) < seg_len s (unat (ss_snd_no s))"
    and bounds: "0 < vol" "vol \<le> 1" "0 \<le> st" "st \<le> 1"
    and out: "out_buf w = Ptr xs" "Suc i < length xs"
    and l: "mixerFadeEffect (level vol st (d ! unat (ss_pos s))) (ss_pos s) j w = Inr (l, w1)"
      "fade_rep j k vol st s1 f1 w1" "out_buf w1 = out_buf w"
    and r: "mixerFadeEffect (level vol (1 - st) (d ! Suc (unat (ss_pos s)))) (ss_pos s1 + 1) j w1 = Inr (r, w2)"
      "fade_rep j k vol st s2 f2 w2" "out_buf w2 = out_buf w1"
    and s2: "unat (ss_snd_no s2) < length (ss_len s2)" "unat (ss_pos s2 + 2) < seg_len s2 (unat (ss_snd_no s2))"
  shows "\<exists>w'. mix_state i j w = Inr w' \<and> fade_rep j k vol st (s2\<lparr>ss_pos := ss_pos s2 + 2\<rparr>) f2 w' \<and>
    out_buf w' = Ptr (add_frame i l r xs)"
proof -
  let ?o = "unat (ss_snd_no s)"
  note sd = fade_segsD [OF segs(1)] and g = fade_rep_get [OF rep]
  obtain b t where b: "pa_get (sbuffs w) (int j) = Inr b" "sb_vol b = vol" "sb_stereo_pos b = st"
    "sb_filter_flag b AND STATE_LINEAR_FADE_FLAG \<noteq> 0"
    using fade_rep_buf [OF rep] by metis
  have fl: "sb_filter_flag b \<noteq> 0" using b(4) by auto
  note fs = frame_step [OF pos(1) _ pos(2) [unfolded seg_len_def]]
  have ev: "even (unat (ss_len s ! ?o))" using sd(6) [OF segs(2)] by (simp add: seg_len_def)
  have p: "unat (ss_pos s) < length d" "unat (ss_pos s + 1) < length d" "unat (ss_pos s + 1) = Suc (unat (ss_pos s))"
  proof -
    show 1: "unat (ss_pos s + 1) = Suc (unat (ss_pos s))" using fs(1) [OF ev] by simp
    show "unat (ss_pos s) < length d" using sd(5) [OF segs(2)] pos(2) d by simp
    have "Suc (unat (ss_pos s)) < seg_len s ?o" using pos ev by (auto simp: seg_len_def elim!: evenE)
    then show "unat (ss_pos s + 1) < length d" using sd(5) [OF segs(2)] d 1 by simp
  qed
  have l0: "state_sample d (ss_pos s) vol st = Inr (level vol st (d ! unat (ss_pos s)))"
    using state_sample_level(1) [OF p(1)] bounds by simp
  have r0: "state_sample d (ss_pos s + 1) vol (1 - st) = Inr (level vol (1 - st) (d ! Suc (unat (ss_pos s))))"
    using state_sample_level(1) [OF p(2), of vol "1 - st"] bounds p(3) by simp
  have seg: "snd_segment s (uint (ss_snd_no s)) = Inr (Some d)" using sd(4) [OF segs(2)] d by simp
  define w5 where "w5 = w2\<lparr>out_buf := Ptr (add_frame i l r xs)\<rparr>"
  have w5: "fade_rep j k vol st s2 f2 w5" "out_buf w5 = Ptr (add_frame i l r xs)"
    using fade_rep_out [OF r(2)] by (simp_all add: w5_def)
  have add: "bindE (add_output i l w2) (\<lambda>w4. add_output (i + 1) r w4) = Inr w5"
    using out l(3) r(3) by (simp add: w5_def add_frame_def)
  obtain w6 where w6: "set_state_snd j (int k) (s2\<lparr>ss_pos := ss_pos s2 + 2\<rparr>) w5 = Inr w6"
    "fade_rep j k vol st (s2\<lparr>ss_pos := ss_pos s2 + 2\<rparr>) f2 w6" "out_buf w6 = out_buf w5"
    using fade_rep_set_snd [OF w5(1)] by blast
  have len: "aget (ss_len (s2\<lparr>ss_pos := ss_pos s2 + 2\<rparr>)) (uint (ss_snd_no (s2\<lparr>ss_pos := ss_pos s2 + 2\<rparr>))) =
      Inr (ss_len s2 ! unat (ss_snd_no s2))" using s2(1) by (simp add: aget_uint)
  have go: "\<not> ss_len s2 ! unat (ss_snd_no s2) \<le> ss_pos s2 + 2"
    using s2(2) by (simp add: seg_len_def word_le_nat_alt)
  have tail: "bindE (add_output i l w2) (\<lambda>w4. bindE (add_output (i + 1) r w4) g) = g w5" for g :: "world \<Rightarrow> world result"
    using add by (simp add: bindE_assoc [symmetric])
  have "mix_state i j w = Inr w6"
    unfolding mix_state_def b(1) bindE_Inr b(2) g(4) [OF sd(1)] option.case g(1) seg l0 b(3) r0 if_P [OF fl]
      filter_fade [OF rep] l(1) prod.case fade_rep_get(1) [OF l(2)] filter_fade [OF l(2)] r(1) tail
      fade_rep_get(1) [OF w5(1)] Let_def w6(1) len
    using bounds(1) go by simp
  with w5(2) w6(2,3) show ?thesis by auto
qed

section \<open>A whole fade\<close>

text \<open>
  The situation in which a fade begins: \<open>2 * H\<close> samples before the end of the current segment,
  \<open>2 * H\<close> being the length of the fade.
\<close>

definition fade_start :: "nat \<Rightarrow> nat \<Rightarrow> nat \<Rightarrow> real \<Rightarrow> real \<Rightarrow> STATE_SND \<Rightarrow> FADE_REC \<Rightarrow> world \<Rightarrow> bool" where
  "fade_start H j k vol st s f w \<longleftrightarrow> fade_rep j k vol st s f w \<and> fade_segs (2 * H) s \<and>
     unat (ss_snd_no s) < unat (ss_snd_cnt s) \<and> 2 \<le> H \<and>
     0 \<le> fade_time f \<and> fade_time f \<le> MAX_FADE_TIME \<and> fade_points (fade_time f) = 2 * H \<and>
     unat (ss_pos s) + 2 * H = seg_len s (unat (ss_snd_no s)) \<and> even (unat (ss_pos s)) \<and>
     0 < vol \<and> vol \<le> 1 \<and> 0 \<le> st \<and> st \<le> 1"

text \<open>
  What the two sides get in frame \<open>m\<close> of the fade from \<open>d\<close>, at the position \<open>b\<close>, to \<open>d'\<close>.  The left side
  gets the right samples of \<open>d'\<close> and the right side the left samples, both with the left factor
  \<open>st\<close>; the last right sample is not faded.
\<close>

definition fade_left :: "nat \<Rightarrow> real \<Rightarrow> real \<Rightarrow> samples \<Rightarrow> nat \<Rightarrow> samples \<Rightarrow> nat \<Rightarrow> int" where
  "fade_left H vol st d b d' m = (let x = level vol st (d ! (b + 2 * m)) in
     if m = 0 then x else crossed (2 * H) vol st x (d' ! (2 * m - 1)) (2 * H - 2 * m))"

definition fade_right :: "nat \<Rightarrow> real \<Rightarrow> real \<Rightarrow> samples \<Rightarrow> nat \<Rightarrow> samples \<Rightarrow> nat \<Rightarrow> int" where
  "fade_right H vol st d b d' m = (let x = level vol (1 - st) (d ! (b + 2 * m + 1)) in
     if Suc m = H then x else crossed (2 * H) vol st x (d' ! (2 * m)) (2 * H - (2 * m + 1)))"

text \<open>The sound and the fade record before frame \<open>m\<close>, segment \<open>n\<close> having been chosen.\<close>

definition old_at :: "STATE_SND \<Rightarrow> nat \<Rightarrow> STATE_SND" where
  "old_at s m = s\<lparr>ss_pos := ss_pos s + of_nat (2 * m)\<rparr>"

definition rec_at :: "nat \<Rightarrow> FADE_REC \<Rightarrow> nat \<Rightarrow> nat \<Rightarrow> FADE_REC" where
  "rec_at k f n p = f\<lparr>fr_snd := of_nat n, fr_pos := of_nat p, old_thresh := int k\<rparr>"

lemma rec_at_simps [simp]:
  "fade_time (rec_at k f n p) = fade_time f" "fr_snd (rec_at k f n p) = of_nat n"
  "fr_pos (rec_at k f n p) = of_nat p" "old_thresh (rec_at k f n p) = int k"
  "rec_at k f n p\<lparr>fr_pos := of_nat p + 1\<rparr> = rec_at k f n (Suc p)"
  by (simp_all add: rec_at_def add.commute)

lemma old_at_simps [simp]:
  "fade_segs F (old_at s m) = fade_segs F s" "ss_snd_no (old_at s m) = ss_snd_no s"
  "ss_snd_cnt (old_at s m) = ss_snd_cnt s" "seg_len (old_at s m) i = seg_len s i"
  "segment (old_at s m) i = segment s i" "ss_len (old_at s m) = ss_len s"
  "old_at s m\<lparr>ss_pos := ss_pos (old_at s m) + 2\<rparr> = old_at s (Suc m)"
  by (simp_all add: old_at_def seg_len_def segment_def)

lemma old_at_Suc: "ss_pos (old_at s m) + 2 = ss_pos (old_at s (Suc m))"
  by (simp add: old_at_def add.assoc add.commute [of 2])

lemma fade_startD:
  assumes "fade_start H j k vol st s f w"
  shows "fade_rep j k vol st s f w" "fade_segs (2 * H) s" "unat (ss_snd_no s) < unat (ss_snd_cnt s)" "2 \<le> H"
    "0 \<le> fade_time f" "fade_time f \<le> MAX_FADE_TIME" "2 * H = fade_points (fade_time f)"
    "unat (ss_pos s) + 2 * H = seg_len s (unat (ss_snd_no s))" "even (unat (ss_pos s))"
    "0 < vol" "vol \<le> 1" "0 \<le> st" "st \<le> 1"
  using assms by (simp_all add: fade_start_def)

lemma fade_positions:
  assumes "fade_start H j k vol st s f w" and "m < H"
  shows "unat (ss_pos (old_at s m)) = unat (ss_pos s) + 2 * m"
    and "unat (ss_pos (old_at s m) + 1) = unat (ss_pos s) + 2 * m + 1"
proof -
  note d = fade_startD [OF assms(1)]
  have lt: "seg_len s (unat (ss_snd_no s)) < 2 ^ 31" using fade_segsD(8) [OF d(2,3)] .
  have "unat (of_nat n :: 32 word) = n" if "n < 2 ^ 31" for n using that by (intro unat_of_nat32) simp
  moreover have "ss_pos (old_at s m) = of_nat (unat (ss_pos s) + 2 * m)"
    "ss_pos (old_at s m) + 1 = of_nat (unat (ss_pos s) + 2 * m + 1)" by (simp_all add: old_at_def)
  moreover have "unat (ss_pos s) + 2 * m + 1 < 2 ^ 31" using d(8) assms(2) lt by linarith
  ultimately show "unat (ss_pos (old_at s m)) = unat (ss_pos s) + 2 * m"
    and "unat (ss_pos (old_at s m) + 1) = unat (ss_pos s) + 2 * m + 1" by (simp_all only:)
qed

lemma small_of_nat32: "n < 2 ^ 31 \<Longrightarrow> unat (of_nat n :: 32 word) = n"
  by (rule unat_of_nat32) simp

text \<open>The levels that are faded.\<close>

lemma fade_levels:
  assumes "fade_start H j k vol st s f w" and "m < H" and "d = segment s (unat (ss_snd_no s))"
  shows "\<bar>real_of_int (level vol st (d ! (unat (ss_pos s) + 2 * m)))\<bar> \<le> STATE_PEAK"
    and "\<bar>real_of_int (level vol (1 - st) (d ! (unat (ss_pos s) + 2 * m + 1)))\<bar> \<le> STATE_PEAK"
proof -
  note d = fade_startD [OF assms(1)] and p = fade_positions [OF assms(1,2)]
  have "unat (ss_pos s) + 2 * m + 1 < length d"
    unfolding assms(3) using fade_segsD(5) [OF d(2,3)] d(8) assms(2) by linarith
  then show "\<bar>real_of_int (level vol st (d ! (unat (ss_pos s) + 2 * m)))\<bar> \<le> STATE_PEAK"
    and "\<bar>real_of_int (level vol (1 - st) (d ! (unat (ss_pos s) + 2 * m + 1)))\<bar> \<le> STATE_PEAK"
    using state_sample_level(2) [of "ss_pos (old_at s m)" d vol st]
      state_sample_level(2) [of "ss_pos (old_at s m) + 1" d vol "1 - st"] p d by simp_all
qed

text \<open>One call of the effect within the fade, \<open>q\<close> samples of which are over.\<close>

lemma fade_call:
  assumes start: "fade_start H j k vol st s f w" and rep: "fade_rep j k vol st (old_at s m) (rec_at k f n p) w'"
    and n: "n < unat (ss_snd_cnt s)" and m: "m < H" and p: "p < 2 * H"
    and q: "unat pos = unat (ss_pos s) + q" "0 < q" "q < 2 * H" and x: "\<bar>real_of_int x\<bar> \<le> STATE_PEAK"
  shows "\<exists>w''. mixerFadeEffect x pos j w' = Inr (crossed (2 * H) vol st x (segment s n ! p) (2 * H - q), w'') \<and>
    fade_rep j k vol st (if Suc m = H then s\<lparr>ss_snd_no := of_nat n, ss_pos := of_nat (Suc p)\<rparr> else old_at s m)
      (rec_at k f n (Suc p)) w'' \<and> out_buf w'' = out_buf w'"
proof -
  note d = fade_startD [OF start] and fp = fade_positions(1) [OF start m]
  note sd = fade_segsD [OF d(2)]
  have nn: "unat (of_nat n :: 32 word) = n"
    using n unat32_less [of "ss_snd_cnt s"] by (intro unat_of_nat32) linarith
  have pp: "unat (of_nat p :: 32 word) = p"
    using p sd(7,8) [OF n] by (intro small_of_nat32) linarith
  have len: "p < seg_len s n" using p sd(7) [OF n] by linarith
  have r: "unat pos + (2 * H - q) = seg_len s (unat (ss_snd_no s))" using d(8) q by linarith
  have last: "seg_len s (unat (ss_snd_no s)) \<le> unat (ss_pos (old_at s m)) + 2 \<longleftrightarrow> Suc m = H"
    unfolding fp using d(8) m by linarith
  have ev: "even (unat (ss_pos (old_at s m)))" "unat (ss_pos (old_at s m)) < seg_len s (unat (ss_snd_no s))"
    unfolding fp using d(8,9) m by auto
  have upd: "old_at s m\<lparr>ss_snd_no := a, ss_pos := b\<rparr> = s\<lparr>ss_snd_no := a, ss_pos := b\<rparr>" for a b
    by (simp add: old_at_def)
  have "2 * H - q < 2 * H" "0 \<le> vol" using q d(10) by linarith+
  from fade_mixed [OF rep, unfolded rec_at_simps old_at_simps nn pp, OF d(2,3,5-7) r this(1) ev n refl len this(2) d(11-13) x]
  moreover have "of_nat (Suc p) = (of_nat p + 1 :: 32 word)" by (simp add: add.commute)
  ultimately show ?thesis unfolding last upd by (simp only:)
qed

text \<open>The frames of the fade: the first, those in between, and the last.\<close>

lemma fade_frame_first:
  assumes start: "fade_start H j k vol st s f w" and out: "out_buf w = Ptr xs" "Suc i < length xs"
    and d: "d = segment s (unat (ss_snd_no s))"
  shows "\<exists>n w'. mix_state i j w = Inr w' \<and> n < unat (ss_snd_cnt s) \<and>
    fade_rep j k vol st (old_at s 1) (rec_at k f n 1) w' \<and>
    out_buf w' = Ptr (add_frame i (fade_left H vol st d (unat (ss_pos s)) (segment s n) 0)
      (fade_right H vol st d (unat (ss_pos s)) (segment s n) 0) xs)"
proof -
  note sd = fade_startD [OF start]
  let ?b = "unat (ss_pos s)" and ?l = "level vol st (d ! unat (ss_pos s))"
  have H: "0 < H" "1 < 2 * H" "0 < 2 * H" "\<not> Suc 0 = H" using sd(4) by linarith+
  have z: "old_at s 0 = s" by (simp add: old_at_def)
  obtain n w1 where l: "mixerFadeEffect ?l (ss_pos s) j w = Inr (?l, w1)" "n < unat (ss_snd_cnt s)"
    "fade_rep j k vol st s (rec_at k f n 0) w1" "out_buf w1 = out_buf w"
    using fade_begin [OF sd(1-3,5-9), of ?l] by (auto simp: rec_at_def)
  have p1: "unat (ss_pos s + 1) = ?b + 1" using fade_positions(2) [OF start H(1)] z by simp
  obtain w2 where r: "mixerFadeEffect (level vol (1 - st) (d ! Suc ?b)) (ss_pos s + 1) j w1 =
      Inr (crossed (2 * H) vol st (level vol (1 - st) (d ! Suc ?b)) (segment s n ! 0) (2 * H - 1), w2)"
    "fade_rep j k vol st s (rec_at k f n 1) w2" "out_buf w2 = out_buf w1"
    using fade_call [OF start, unfolded z, of 0 n 0 w1 "ss_pos s + 1" 1 "level vol (1 - st) (d ! Suc ?b)"]
      l p1 H fade_levels(2) [OF start H(1) d] z by auto
  have lt: "?b < seg_len s (unat (ss_snd_no s))" using sd(8) H by linarith
  have adv: "unat (ss_pos s + 2) < seg_len s (unat (ss_snd_no s))"
    using fade_positions(1) [OF start, of 1] sd(4,8) by (simp add: old_at_def)
  have "\<exists>w'. mix_state i j w = Inr w' \<and> fade_rep j k vol st (s\<lparr>ss_pos := ss_pos s + 2\<rparr>) (rec_at k f n 1) w' \<and>
    out_buf w' = Ptr (add_frame i ?l (crossed (2 * H) vol st (level vol (1 - st) (d ! Suc ?b)) (segment s n ! 0) (2 * H - 1)) xs)"
    using mix_state_fade [OF sd(1-3) d sd(9) lt sd(10-13) out l(1,3,4) r] adv sd(3) fade_segsD(3) [OF sd(2)] by simp
  moreover have "s\<lparr>ss_pos := ss_pos s + 2\<rparr> = old_at s 1" by (simp add: old_at_def)
  moreover have "fade_left H vol st d ?b (segment s n) 0 = ?l" by (simp add: fade_left_def)
  moreover have "fade_right H vol st d ?b (segment s n) 0 =
      crossed (2 * H) vol st (level vol (1 - st) (d ! Suc ?b)) (segment s n ! 0) (2 * H - 1)"
    using H(4) by (simp add: fade_right_def Let_def)
  ultimately have "\<exists>w'. mix_state i j w = Inr w' \<and> n < unat (ss_snd_cnt s) \<and>
    fade_rep j k vol st (old_at s 1) (rec_at k f n 1) w' \<and>
    out_buf w' = Ptr (add_frame i (fade_left H vol st d (unat (ss_pos s)) (segment s n) 0)
      (fade_right H vol st d (unat (ss_pos s)) (segment s n) 0) xs)"
    using l(2) by (simp only: simp_thms)
  then show ?thesis by blast
qed

lemma fade_frame_next:
  assumes start: "fade_start H j k vol st s f w" and m: "0 < m" "Suc m < H" and n: "n < unat (ss_snd_cnt s)"
    and rep: "fade_rep j k vol st (old_at s m) (rec_at k f n (2 * m - 1)) w0"
    and out: "out_buf w0 = Ptr xs" "Suc i < length xs" and d: "d = segment s (unat (ss_snd_no s))"
  shows "\<exists>w'. mix_state i j w0 = Inr w' \<and>
    fade_rep j k vol st (old_at s (Suc m)) (rec_at k f n (2 * Suc m - 1)) w' \<and>
    out_buf w' = Ptr (add_frame i (fade_left H vol st d (unat (ss_pos s)) (segment s n) m)
      (fade_right H vol st d (unat (ss_pos s)) (segment s n) m) xs)"
proof -
  note sd = fade_startD [OF start]
  let ?b = "unat (ss_pos s) + 2 * m" and ?L = "level vol st (d ! (unat (ss_pos s) + 2 * m))"
    and ?R = "level vol (1 - st) (d ! (unat (ss_pos s) + 2 * m + 1))"
  let ?l = "crossed (2 * H) vol st ?L (segment s n ! (2 * m - 1)) (2 * H - 2 * m)"
  let ?r = "crossed (2 * H) vol st ?R (segment s n ! (2 * m)) (2 * H - (2 * m + 1))"
  have mH: "m < H" "Suc (2 * m - 1) = 2 * m" "2 * m - 1 < 2 * H" "2 * m < 2 * H" "0 < 2 * m" "2 * m + 1 < 2 * H"
    "0 < 2 * m + 1" "Suc (2 * m) = 2 * Suc m - 1" "\<not> Suc m = H"
    using m by auto
  note p = fade_positions [OF start mH(1)] and lev = fade_levels [OF start mH(1) d]
  obtain w1 where l: "mixerFadeEffect ?L (ss_pos (old_at s m)) j w0 = Inr (?l, w1)"
    "fade_rep j k vol st (old_at s m) (rec_at k f n (2 * m)) w1" "out_buf w1 = out_buf w0"
    using fade_call [OF start rep n mH(1,3) p(1) mH(5,4) lev(1), unfolded mH(2) if_not_P [OF mH(9)]] by blast
  obtain w2 where r: "mixerFadeEffect ?R (ss_pos (old_at s m) + 1) j w1 = Inr (?r, w2)"
    "fade_rep j k vol st (old_at s m) (rec_at k f n (2 * Suc m - 1)) w2" "out_buf w2 = out_buf w1"
    using fade_call [OF start l(2) n mH(1,4) p(2) [unfolded add.assoc] mH(7,6) lev(2),
        unfolded mH(8) if_not_P [OF mH(9)]] by blast
  have ev: "even (unat (ss_pos (old_at s m)))" "unat (ss_pos (old_at s m)) < seg_len (old_at s m) (unat (ss_snd_no (old_at s m)))"
    unfolding p(1) old_at_simps using sd(8,9) mH(1) by auto
  have adv: "unat (ss_pos (old_at s m) + 2) < seg_len (old_at s m) (unat (ss_snd_no (old_at s m)))"
    unfolding old_at_Suc fade_positions(1) [OF start m(2)] old_at_simps using sd(8) m(2) by simp
  have segs: "fade_segs (2 * H) (old_at s m)" "unat (ss_snd_no (old_at s m)) < unat (ss_snd_cnt (old_at s m))"
    "d = segment (old_at s m) (unat (ss_snd_no (old_at s m)))"
    "unat (ss_snd_no (old_at s m)) < length (ss_len (old_at s m))"
    using sd(2,3) d fade_segsD(3) [OF sd(2)] by simp_all
  have "\<exists>w'. mix_state i j w0 = Inr w' \<and> fade_rep j k vol st (old_at s (Suc m)) (rec_at k f n (2 * Suc m - 1)) w' \<and>
    out_buf w' = Ptr (add_frame i ?l ?r xs)"
    using mix_state_fade [OF rep segs(1-3) ev sd(10-13) out, unfolded p(1), of ?l w1 "old_at s m" _ ?r w2 "old_at s m"]
      l r adv segs(4) by (simp only: old_at_simps Suc_eq_plus1 [symmetric])
  then show ?thesis using m mH(9) by (simp add: fade_left_def fade_right_def Let_def)
qed

lemma fade_frame_last:
  assumes start: "fade_start H j k vol st s f w" and m: "Suc m = H" and n: "n < unat (ss_snd_cnt s)"
    and rep: "fade_rep j k vol st (old_at s m) (rec_at k f n (2 * m - 1)) w0"
    and out: "out_buf w0 = Ptr xs" "Suc i < length xs" and d: "d = segment s (unat (ss_snd_no s))"
  shows "\<exists>w'. mix_state i j w0 = Inr w' \<and>
    fade_rep j k vol st (s\<lparr>ss_snd_no := of_nat n, ss_pos := of_nat (2 * H)\<rparr>) (rec_at k f n (2 * m)) w' \<and>
    out_buf w' = Ptr (add_frame i (fade_left H vol st d (unat (ss_pos s)) (segment s n) m)
      (fade_right H vol st d (unat (ss_pos s)) (segment s n) m) xs)"
proof -
  note sd = fade_startD [OF start] and seg = fade_segsD [OF fade_startD(2) [OF start]]
  let ?L = "level vol st (d ! (unat (ss_pos s) + 2 * m))"
    and ?R = "level vol (1 - st) (d ! (unat (ss_pos s) + 2 * m + 1))"
    and ?s = "s\<lparr>ss_snd_no := of_nat n, ss_pos := of_nat (2 * m)\<rparr>"
  let ?l = "crossed (2 * H) vol st ?L (segment s n ! (2 * m - 1)) (2 * H - 2 * m)"
  have mH: "m < H" "0 < m" "2 * m - 1 < 2 * H" "2 * m < 2 * H" "0 < 2 * m" "Suc (2 * m - 1) = 2 * m" "2 * m + 2 = 2 * H"
    using m sd(4) by auto
  note p = fade_positions [OF start mH(1)] and lev = fade_levels [OF start mH(1) d]
  obtain w1 where l: "mixerFadeEffect ?L (ss_pos (old_at s m)) j w0 = Inr (?l, w1)"
    "fade_rep j k vol st ?s (rec_at k f n (2 * m)) w1" "out_buf w1 = out_buf w0"
    using fade_call [OF start rep n mH(1,3) p(1) mH(5,4) lev(1), unfolded mH(6) if_P [OF m]] by blast
  have big: "2 * H + 2 * H \<le> seg_len s n" "seg_len s n < 2 ^ 31" using seg(7,8) [OF n] by linarith+
  have nn: "unat (of_nat n :: 32 word) = n"
    using n unat32_less [of "ss_snd_cnt s"] by (intro unat_of_nat32) linarith
  have sl: "seg_len ?s n = seg_len s n" by (simp add: seg_len_def)
  have "unat (of_nat (2 * m + 1) :: 32 word) = 2 * m + 1" using big mH(4) by (intro small_of_nat32) linarith
  then have one: "unat (ss_pos ?s + 1) = 2 * m + 1" by (simp add: add.commute)
  have two: "ss_pos ?s + 2 = of_nat (2 * H)" unfolding mH(7) [symmetric] by simp
  have "unat (of_nat (2 * H) :: 32 word) = 2 * H" using big by (intro small_of_nat32) linarith
  then have adv: "unat (ss_pos ?s + 2) < seg_len ?s (unat (ss_snd_no ?s))"
    unfolding two using big(1) sd(4) nn sl by simp
  have segs: "fade_segs (2 * H) ?s" "unat (ss_snd_no ?s) < unat (ss_snd_cnt ?s)" "unat (ss_snd_no ?s) < length (ss_len ?s)"
    using sd(2) n nn seg(3) by simp_all
  have far: "unat (ss_pos ?s + 1) + 2 * H < seg_len ?s (unat (ss_snd_no ?s))"
    unfolding one using nn sl big(1) mH(4) by simp
  have r: "mixerFadeEffect ?R (ss_pos ?s + 1) j w1 = Inr (?R, w1)"
    by (rule fade_keep [OF l(2) segs(1,2) _ _ _ far]) (use sd(5-7) in simp_all)
  have ev: "even (unat (ss_pos (old_at s m)))" "unat (ss_pos (old_at s m)) < seg_len (old_at s m) (unat (ss_snd_no (old_at s m)))"
    unfolding p(1) old_at_simps using sd(8,9) mH(1) by auto
  have old: "fade_segs (2 * H) (old_at s m)" "unat (ss_snd_no (old_at s m)) < unat (ss_snd_cnt (old_at s m))"
    "d = segment (old_at s m) (unat (ss_snd_no (old_at s m)))"
    using sd(2,3) d by simp_all
  have "\<exists>w'. mix_state i j w0 = Inr w' \<and>
    fade_rep j k vol st (?s\<lparr>ss_pos := ss_pos ?s + 2\<rparr>) (rec_at k f n (2 * m)) w' \<and>
    out_buf w' = Ptr (add_frame i ?l ?R xs)"
    using mix_state_fade [OF rep old(1-3) ev sd(10-13) out, unfolded p(1), of ?l w1 ?s _ ?R w1 ?s]
      l r adv segs(3) by (simp only: Suc_eq_plus1)
  moreover have "?s\<lparr>ss_pos := ss_pos ?s + 2\<rparr> = s\<lparr>ss_snd_no := of_nat n, ss_pos := of_nat (2 * H)\<rparr>"
    unfolding two by simp
  ultimately show ?thesis using m mH(2) by (simp add: fade_left_def fade_right_def Let_def)
qed

section \<open>Properties\<close>

lemma add_frame_at:
  assumes "Suc i < length xs"
  shows "add_frame i l r xs ! p = (if p = i then xs ! i + word_of_int l
    else if p = Suc i then xs ! Suc i + word_of_int r else xs ! p)"
  using assms by (simp add: add_frame_def nth_list_update)

lemma fade_frames:
  assumes start: "fade_start H j k vol st s f w" and out: "out_buf w = Ptr xs" "2 * H \<le> length xs"
    and d: "d = segment s (unat (ss_snd_no s))"
  shows "\<exists>n w' ys. foldE (\<lambda>m. mix_state (2 * m) j) [0..<H] w = Inr w' \<and> n < unat (ss_snd_cnt s) \<and>
    fade_rep j k vol st (s\<lparr>ss_snd_no := of_nat n, ss_pos := of_nat (2 * H)\<rparr>) (rec_at k f n (2 * H - 2)) w' \<and>
    out_buf w' = Ptr ys \<and> length ys = length xs \<and>
    (\<forall>m<H. ys ! (2 * m) = xs ! (2 * m) + word_of_int (fade_left H vol st d (unat (ss_pos s)) (segment s n) m) \<and>
       ys ! (2 * m + 1) = xs ! (2 * m + 1) + word_of_int (fade_right H vol st d (unat (ss_pos s)) (segment s n) m))"
proof -
  note sd = fade_startD [OF start]
  let ?l = "\<lambda>n. fade_left H vol st d (unat (ss_pos s)) (segment s n)"
    and ?r = "\<lambda>n. fade_right H vol st d (unat (ss_pos s)) (segment s n)"
  define Q where "Q n c ys \<longleftrightarrow> length ys = length xs \<and> (\<forall>m<H.
      ys ! (2 * m) = xs ! (2 * m) + (if m < c then word_of_int (?l n m) else 0) \<and>
      ys ! (2 * m + 1) = xs ! (2 * m + 1) + (if m < c then word_of_int (?r n m) else 0))" for n c ys
  define rep where "rep n c = (if c = H
      then fade_rep j k vol st (s\<lparr>ss_snd_no := of_nat n, ss_pos := of_nat (2 * H)\<rparr>) (rec_at k f n (2 * H - 2))
      else fade_rep j k vol st (old_at s c) (rec_at k f n (2 * c - 1)))" for n c
  define P where "P c w' \<longleftrightarrow> (if c = 0 then w' = w else
      \<exists>n ys. n < unat (ss_snd_cnt s) \<and> rep n c w' \<and> out_buf w' = Ptr ys \<and> Q n c ys)" for c w'
  have Q_step: "Q n (Suc c) (add_frame (2 * c) (?l n c) (?r n c) ys)" if "Q n c ys" "c < H" for n c ys
  proof -
    have "Suc (2 * c) < length ys" using that out(2) by (simp add: Q_def)
    from add_frame_at [OF this] that show ?thesis by (auto simp: Q_def add_frame_def less_Suc_eq)
  qed
  have Q0: "Q n 0 xs" for n by (simp add: Q_def)
  have "\<exists>w2. mix_state (2 * c) j w1 = Inr w2 \<and> P (Suc c) w2" if c: "c < H" and P: "P c w1" for c w1
  proof (cases "c = 0")
    case True
    then have w1: "w1 = w" using P by (simp add: P_def)
    have room: "Suc 0 < length xs" "Suc 0 \<noteq> H" using out(2) sd(4) by linarith+
    from fade_frame_first [OF start out(1) room(1) d] obtain n w' where
      "mix_state 0 j w = Inr w'" "n < unat (ss_snd_cnt s)" "fade_rep j k vol st (old_at s 1) (rec_at k f n 1) w'"
      "out_buf w' = Ptr (add_frame 0 (?l n 0) (?r n 0) xs)" by blast
    then show ?thesis
      using True w1 room(2) Q_step [OF Q0 [of n]] c by (auto simp: P_def rep_def)
  next
    case False
    then obtain n ys where P': "n < unat (ss_snd_cnt s)" "rep n c w1" "out_buf w1 = Ptr ys" "Q n c ys"
      using P by (auto simp: P_def)
    have r: "fade_rep j k vol st (old_at s c) (rec_at k f n (2 * c - 1)) w1" using P'(2) c by (simp add: rep_def)
    have room: "Suc (2 * c) < length ys" using P'(4) c out(2) by (simp add: Q_def)
    have "\<exists>w2. mix_state (2 * c) j w1 = Inr w2 \<and> rep n (Suc c) w2 \<and>
        out_buf w2 = Ptr (add_frame (2 * c) (?l n c) (?r n c) ys)"
    proof (cases "Suc c = H")
      case True
      then have "2 * H - 2 = 2 * c" by simp
      then show ?thesis
        using fade_frame_last [OF start True P'(1) r P'(3) room d] True unfolding rep_def by simp
    next
      case last: False
      with c have "Suc c < H" by simp
      then show ?thesis
        using fade_frame_next [OF start _ _ P'(1) r P'(3) room d] False last unfolding rep_def by simp
    qed
    with P'(1) Q_step [OF P'(4) c] show ?thesis by (auto simp: P_def)
  qed
  moreover have "P 0 w" by (simp add: P_def)
  ultimately obtain w' where w': "foldE (\<lambda>m. mix_state (2 * m) j) [0..<H] w = Inr w'" "P H w'"
    using foldE_range_invariant [of P w H "\<lambda>m. mix_state (2 * m) j"] by blast
  have "H \<noteq> 0" using sd(4) by simp
  with w'(2) obtain n ys where fin: "n < unat (ss_snd_cnt s)" "rep n H w'" "out_buf w' = Ptr ys" "Q n H ys"
    by (auto simp: P_def)
  show ?thesis
    using w'(1) fin unfolding rep_def Q_def by (intro exI [of _ n] exI [of _ w'] exI [of _ ys]) simp
qed

text \<open>
  C6.  A whole fade.  A state channel with the linear fade and at least two frames of fade time, whose segments are all at
  least twice as long as the fade, starts to fade exactly that many samples before the end of the current segment
  \<open>d\<close>.  During the frames of the fade nothing is read out of bounds; what is added to the left and right
  outputs is given by \<open>fade_left\<close> and \<open>fade_right\<close>: the old samples get linearly softer while those of a
  randomly chosen segment get louder, but exchanged between the sides and with the left factor on both, and the last
  right sample of the old segment is added at full volume.  Afterwards the chosen segment is the current one,
  at the position just behind what was faded in.
\<close>

theorem state_crossfade:
  assumes "fade_start H j k vol st s f w" and "out_buf w = Ptr xs" "2 * H \<le> length xs"
    and "d = segment s (unat (ss_snd_no s))"
  shows "\<exists>n w' ys. foldE (\<lambda>m. mix_state (2 * m) j) [0..<H] w = Inr w' \<and> n < unat (ss_snd_cnt s) \<and>
    get_state_snd j (int k) w' = Inr (s\<lparr>ss_snd_no := of_nat n, ss_pos := of_nat (2 * H)\<rparr>) \<and>
    out_buf w' = Ptr ys \<and> length ys = length xs \<and>
    (\<forall>m<H. ys ! (2 * m) = xs ! (2 * m) + word_of_int (fade_left H vol st d (unat (ss_pos s)) (segment s n) m) \<and>
       ys ! (2 * m + 1) = xs ! (2 * m + 1) + word_of_int (fade_right H vol st d (unat (ss_pos s)) (segment s n) m))"
  using fade_frames [OF assms] fade_rep_get(1) by blast

text \<open>A state with one segment of eight samples, four of which are left, and a fade of four samples.\<close>

definition fade_snd :: STATE_SND where
  "fade_snd = \<lparr>ss_snd_buf = Some [Some [100, 200, 0, 0, 1000, 2000, 3000, 4000]], ss_len = [8], ss_snd_cnt = 1,
     ss_snd_no = 0, ss_pos = 4\<rparr>"

definition fade_world :: world where
  "fade_world = idle_world\<lparr>sbuffs := Ptr [zero_state_buf\<lparr>
       sb_thresh := Some [\<lparr>l_bound = 0, h_bound = 1, state_snd = fade_snd\<rparr>], sb_thresh_cnt := 1,
       sb_stereo_pos := 1 / 2, sb_vol := 1, sb_filter_flag := STATE_LINEAR_FADE_FLAG\<rparr>],
     no_sbuffs := 1, lin_fade := Ptr [zero_fade\<lparr>fade_time := 4 / 88200\<rparr>], out_buf := Ptr [0, 0, 0, 0]\<rparr>"

lemma fade_world_start:
  "fade_start 2 0 0 1 (1 / 2) fade_snd (zero_fade\<lparr>fade_time := 4 / 88200\<rparr>) fade_world"
proof -
  have inp: "inputs_ok idle_world" using idle_world_ok by (simp add: mixer_ok_def play_ok_def ev_inv_def)
  then have "fade_rep 0 0 1 (1 / 2) fade_snd (zero_fade\<lparr>fade_time := 4 / 88200\<rparr>) fade_world"
    by (simp add: fade_rep_def fade_world_def inputs_ok_def thresh_wf_def in_bounds_def)
  moreover have "fade_segs 4 fade_snd" by (simp add: fade_segs_def fade_snd_def sample_ok_def)
  moreover have "fade_points (4 / 88200) = 4" by (simp add: fade_points_def trunc_def)
  ultimately show ?thesis by (simp add: fade_start_def) (simp add: fade_snd_def seg_len_def)
qed

theorem state_crossfade_witness:
  "\<exists>w'. foldE (\<lambda>m. mix_state (2 * m) 0) [0, 1] fade_world = Inr w' \<and> out_buf w' = Ptr [200, 305, 320, 800]"
proof -
  have out: "out_buf fade_world = Ptr [0, 0, 0, 0]" "2 * 2 \<le> length [0, 0, 0, 0 :: 16 word]"
    by (simp_all add: fade_world_def)
  have d: "segment fade_snd 0 = [100, 200, 0, 0, 1000, 2000, 3000, 4000]" "unat (ss_snd_no fade_snd) = 0"
    "unat (ss_snd_cnt fade_snd) = 1" "unat (ss_pos fade_snd) = 4"
    by (simp_all add: segment_def fade_snd_def)
  have two: "[0..<2] = [0, 1 :: nat]" by (simp add: upt_rec)
  have four: "length [0, 0, 0, 0 :: 16 word] = 4" by simp
  obtain n w' ys where w': "foldE (\<lambda>m. mix_state (2 * m) 0) [0, 1] fade_world = Inr w'" "n < 1" "out_buf w' = Ptr ys"
    "length ys = 4"
    "\<forall>m<2. ys ! (2 * m) = [0, 0, 0, 0] ! (2 * m) + word_of_int (fade_left 2 1 (1 / 2) (segment fade_snd 0) 4 (segment fade_snd n) m) \<and>
       ys ! (2 * m + 1) = [0, 0, 0, 0] ! (2 * m + 1) + word_of_int (fade_right 2 1 (1 / 2) (segment fade_snd 0) 4 (segment fade_snd n) m)"
    using state_crossfade [OF fade_world_start out refl, unfolded two d(2-4) four] by blast
  have n: "n = 0" using w'(2) by simp
  have "ys ! 0 = 200" "ys ! 1 = 305" "ys ! 2 = 320" "ys ! 3 = 800"
    using w'(5) [rule_format, of 0] w'(5) [rule_format, of 1]
    by (simp_all add: n d(1) fade_left_def fade_right_def crossed_def level_def trunc_def Let_def)
  then have "ys = [200, 305, 320, 800]"
    using w'(4) by (intro nth_equalityI) (auto simp: less_Suc_eq numeral_eq_Suc)
  with w'(1,3) show ?thesis by blast
qed

end
