(* ===== verification/Spec2Isabelle.thy ===== *)
theory Spec2Isabelle
  imports Packet_Heard Servlet Udp_Loop State_Load Sound_Load Theme_Load Config_File Entry_Types Notice_Hook
    Queue_Race State_Fade
begin

text \<open>
  A model of peepd, the server of the Peep network auralizer (the C program under src/server), with the
  theorems that say what it does.

  \<^bold>\<open>The program.\<close>  Clients announce themselves and send events: a sound name with a location, a priority, a
  volume and flags.  A server thread (udp_server.c, tcp_server.c or ssl_server.c, over the common server.c)
  decodes a packet, from the binary format or from XML (notice.c, xml.c, xml_notice.c), and puts an event
  into the engine queue (engine_queue.c, blocking on a semaphore of thread.c).  The engine thread
  (main.c, engineLoop) takes an event out, looks its sound up (engine.c, the sound table) and either
  starts it on a mixer channel, postpones it in the mixer queue (mixer_queue.c), or sets the level of a
  state sound.  The mixer thread (main.c, doMixing) mixes the channels chunk by chunk (mixer.c) and hands
  each chunk to a sound driver (alsa.c, oss.c).  The start-up reads the command line (cmdline.c), a
  configuration (parser.c) and themes (xml_theme.c), which load sounds into the sound table and the mixer.
  Events can be recorded to a log and replayed (playback.c).

  \<^bold>\<open>The form of the model.\<close>  A C function is a function from its arguments and the variables it touches to a
  result: a value, or a \<open>fault\<close> for what C leaves undefined (\<open>NullDeref\<close>, \<open>OutOfBounds\<close>, \<open>UseAfterFree\<close>,
  \<open>UninitRead\<close>, \<dots>) and for leaving the process (\<open>ProcessExit\<close>).  A file's static variables are the fields of a
  record.  Fields and arithmetic keep their width where it matters (\<open>32 word\<close>, \<open>16 word\<close>, \<open>8 word\<close>);
  doubles are reals, so rounding is not modelled.  A loop that may not end is a partial function to
  \<open>option\<close>, with \<open>None\<close> for not returning (\<open>loopE\<close> turns it into a fault), and that a call returns is then part of
  what is proved; no function has a fuel argument.  The outside world (files,
  sockets, clock, random numbers, the answers of system calls and libraries) is passed in as arguments.

  \<^bold>\<open>The theories.\<close>
  \<^item> Peep_Prelude: results, faults, pointers, checked array access, locks; the shared lemmas on them.
    C_Strings: bytes, strings and the string functions of the C library that are used.
  \<^item> Event_Types: \<open>EVENT\<close> and \<open>ENGINE_EVENT\<close> of engine.h.  Buffer_Specs: the contracts of the two buffers as
    locales (\<open>lifo_buffer\<close>, \<open>event_bag\<close>), with what clients can conclude for sequences of operations.
  \<^item> Thread_Sync (thread.c): semaphores, the signal mask, the life of a thread.
  \<^item> Engine_Queue (engine_queue.c): the linked list on a heap; it refines a stack.  Queue_Race: the same two
    functions statement by statement, with any number of threads in them at once; what holds without interruption
    and under every interleaving, and that both kinds of overlap can go wrong, on every queue: one loses an event, the
    other writes to freed memory.
  \<^item> Mixer_Queue (mixer_queue.c): the array heap and its two restoring loops; over any sequence of calls that
    fits the array no event is lost, a dequeue takes a minimum of an ordered array, and what the upward loop really
    guarantees.
  \<^item> Sound_Table and Entry_Types (engine.c, the hash table): loading and lookup, when a lookup ends, that
    types and data of the entries agree.
  \<^item> Mixer, Mixer_Channels, Mixer_Chunk, Mixer_Play (mixer.c): channels and dynamic volume, state sounds, mixing of frames
    and chunks, fade and filters, expiry of postponed events; the invariant \<open>ev_inv\<close>, and for any number of chunks their exact
    samples, which no addition wraps while no fade is requested and the volumes sum to at most 1.
    Sound_Mix: the exact output while any event sounds play, and Solo_Sound, one alone; State_Fade: the exact output of a
    state during a whole linear fade.
  \<^item> Engine (engine.c): initialisation, \<open>engineIO\<close> for events and states, shutdown.
  \<^item> Sound_Device (alsa.c, oss.c): the drivers; Audio_Path joins the mixer with the ALSA driver.
  \<^item> Playback, Playback_Go (playback.c): recording and the search in the log; replaying.
  \<^item> Notice (notice.c, xml.c, xml_notice.c): XML notices.  Logging (debug.c), Notice_Hook: what is logged.
  \<^item> Server, Server_Events (server.c): packet formats, classes, client broadcasts, client events.
  \<^item> Udp_Lease, Lease_List, Udp_Loop (udp_server.c): the lease list on the heap and its refinement of a table; the packet loop
    and the alarm as a step relation.  Servlet (tcp_server.c, ssl_server.c): the stream servers.
  \<^item> Parser, Parser_Load, Config_File, Sound_Load, State_Load (parser.c); Xml_Theme, Theme_Load (xml_theme.c).
  \<^item> Cmdline (cmdline.c); Main_Program and Daemon (main.c): the turns of the threads, signals, the start-up, and the three
    threads running in any order, with the exact condition under which a turn faults or hangs.  Packet_Heard: from a packet to the bytes at the card, through all of them, for a
    sound that plays alone and for one that joins others.

  \<^bold>\<open>What the lemmas show.\<close>  Invariants of the heap structures and of the mixer, kept by every operation and by every
  interleaving of whole operations; refinement of the engine queue to a stack, of the lease list to a table and of the ALSA
  driver to a byte stream; round trips of the packet formats, of XML notices, of class sections and of long
  options; functional descriptions of loading, lookup, channel choice and volume; ends of loops; and, where the code
  faults, exactly when it does.  The composition of all parts is stated in Packet_Heard, for any sounds
  already playing (\<open>packet_superposed\<close>) and for a quiet daemon (\<open>packet_heard\<close>).  The model
  is of the code as it stands: where a comment or the manual promises something else (the log of recorded events as a
  ring, the engine's queue as a queue, location 0 as the left side), the theorem says what happens.

  \<^bold>\<open>Bounds.\<close>  Statements about lengths assume less than \<open>2 ^ 31\<close> bytes where an \<open>int\<close> holds them.  Statements about running
  mixers start from any state that satisfies the invariant and do not depend on \<open>mixerInit\<close>, which
  dereferences \<open>NULL\<close> (Daemon, \<open>daemon_cannot_start\<close>).

  \<^bold>\<open>Not modelled.\<close>  Text that is only printed (help, version, greeting, debugging output other than the notice hook), forking and the pid
  file, the registration of signal handlers, the freeing of a buffer and the closing of the log at the very end: no state that
  the rest of the program reads.  Exhausted memory, except where a definition has a flag for it: engineEnqueue,
  mixerQueueInit and logMsg do not test what they get.  Preemption inside a
  call, except in the engine queue (Queue_Race): elsewhere a step of a thread is a whole call, although the mixer reads
  the channels without a lock and the alarm handler can interrupt the packet loop; and weak memory models, Queue_Race
  executes the statements of a call in order.  The libraries (expat, OpenSSL, ALSA, the C library beyond its string functions): arguments.  The parts of oss.c for
  Solaris and the static volume build (\<open>STATIC_VOLUME\<close>): other builds of the same program.  The Perl clients under src/client and
  the configuration samples under src/conf: another language and data.
\<close>

end
